(* ===== verification/Prelude.thy ===== *)
theory Prelude
  imports Main "HOL-Library.Monad_Syntax"
begin

text \<open>
  Shared vocabulary of the development: what the components use of the Go language and of
  its standard library.

  \<^item> Go's \<open>int\<close> is modelled by \<open>int\<close> wherever the program only counts terms, indexes and
    retries; the two places whose results depend on the width (the \<open>Arith\<close> service and the
    clock code) use words.
  \<^item> A run-time panic (index or slice bounds out of range, a failed type assertion) is the
    value \<open>None\<close> of an \<open>option\<close>; the accessors below are the only way the components index
    a slice.
  \<^item> A Go map read returns the zero value for a missing key: \<open>zget\<close>.
  \<^item> \<open>strconv.Itoa\<close> is \<open>Itoa\<close>, with the injectivity facts that file names and request
    identifiers rest on.
\<close>

named_theorems go_panic \<open>when a bounds-checked access of Go succeeds\<close>
named_theorems go_defs \<open>definitions of the Go primitives\<close>

subsection \<open>Slices with bounds checks\<close>

definition go_nth :: "'a list \<Rightarrow> int \<Rightarrow> 'a option" where
  "go_nth xs i = (if 0 \<le> i \<and> i < int (length xs) then Some (xs ! nat i) else None)"

definition go_upd :: "'a list \<Rightarrow> int \<Rightarrow> 'a \<Rightarrow> 'a list option" where
  "go_upd xs i v = (if 0 \<le> i \<and> i < int (length xs) then Some (xs[nat i := v]) else None)"

definition go_take :: "'a list \<Rightarrow> int \<Rightarrow> 'a list option" where
  "go_take xs i = (if 0 \<le> i \<and> i \<le> int (length xs) then Some (take (nat i) xs) else None)"

definition go_drop :: "'a list \<Rightarrow> int \<Rightarrow> 'a list option" where
  "go_drop xs i = (if 0 \<le> i \<and> i \<le> int (length xs) then Some (drop (nat i) xs) else None)"

lemma go_nth_Some [go_panic]:
  "go_nth xs i = Some x \<longleftrightarrow> 0 \<le> i \<and> i < int (length xs) \<and> x = xs ! nat i"
  by (auto simp: go_nth_def)

lemma go_upd_Some [go_panic]:
  "go_upd xs i v = Some ys \<longleftrightarrow> 0 \<le> i \<and> i < int (length xs) \<and> ys = xs[nat i := v]"
  by (auto simp: go_upd_def)

lemma go_take_Some [go_panic]:
  "go_take xs i = Some ys \<longleftrightarrow> 0 \<le> i \<and> i \<le> int (length xs) \<and> ys = take (nat i) xs"
  by (auto simp: go_take_def)

lemma go_drop_Some [go_panic]:
  "go_drop xs i = Some ys \<longleftrightarrow> 0 \<le> i \<and> i \<le> int (length xs) \<and> ys = drop (nat i) xs"
  by (auto simp: go_drop_def)

lemma go_nth_int [simp]: "k < length xs \<Longrightarrow> go_nth xs (int k) = Some (xs ! k)"
  by (simp add: go_nth_def)

declare go_nth_def [go_defs] go_upd_def [go_defs] go_take_def [go_defs] go_drop_def [go_defs]

lemma go_upd_length [go_panic]: "go_upd xs i v = Some ys \<Longrightarrow> length ys = length xs"
  by (auto simp: go_panic)

subsection \<open>Maps with zero values\<close>

definition zget :: "'v \<Rightarrow> ('k \<rightharpoonup> 'v) \<Rightarrow> 'k \<Rightarrow> 'v" where
  "zget z m k = (case m k of None \<Rightarrow> z | Some v \<Rightarrow> v)"

lemma zget_empty [simp]: "zget z Map.empty k = z"
  by (simp add: zget_def)

lemma zget_upd [simp]: "zget z (m(k \<mapsto> v)) k' = (if k' = k then v else zget z m k')"
  by (simp add: zget_def)

subsection \<open>Decimal numerals: \<open>strconv.Itoa\<close>\<close>

definition digit_char :: "nat \<Rightarrow> char" where
  "digit_char d = char_of (48 + d)"

definition digit_val :: "char \<Rightarrow> nat" where
  "digit_val c = of_char c - 48"

fun itoa_nat :: "nat \<Rightarrow> string" where
  "itoa_nat n = (if n < 10 then [digit_char n] else itoa_nat (n div 10) @ [digit_char (n mod 10)])"

declare itoa_nat.simps [simp del]

definition Itoa :: "int \<Rightarrow> string" where
  "Itoa i = (if i < 0 then CHR ''-'' # itoa_nat (nat (- i)) else itoa_nat (nat i))"

fun atoi_nat :: "string \<Rightarrow> nat \<Rightarrow> nat" where
  "atoi_nat [] acc = acc"
| "atoi_nat (c # cs) acc = atoi_nat cs (10 * acc + digit_val c)"

lemma digit_val_char [simp]: "d < 10 \<Longrightarrow> digit_val (digit_char d) = d"
  by (simp add: digit_val_def digit_char_def)

lemma of_char_digit: "d < 10 \<Longrightarrow> of_char (digit_char d) = 48 + d"
  by (simp add: digit_char_def)

lemma atoi_nat_append: "atoi_nat (xs @ ys) acc = atoi_nat ys (atoi_nat xs acc)"
  by (induction xs arbitrary: acc) auto

lemma atoi_itoa_nat: "atoi_nat (itoa_nat n) 0 = n"
proof (induction n rule: itoa_nat.induct)
  case (1 n)
  then show ?case
    by (subst itoa_nat.simps) (auto simp: atoi_nat_append)
qed

lemma itoa_nat_inject [simp]: "itoa_nat m = itoa_nat n \<longleftrightarrow> m = n"
  by (metis atoi_itoa_nat)

lemma itoa_nat_digits: "c \<in> set (itoa_nat n) \<Longrightarrow> 48 \<le> (of_char c :: nat) \<and> (of_char c :: nat) < 58"
proof (induction n rule: itoa_nat.induct)
  case (1 n)
  show ?case
  proof (cases "n < 10")
    case True
    with "1.prems" show ?thesis
      by (subst (asm) itoa_nat.simps) (simp add: of_char_digit)
  next
    case False
    with "1.prems" consider "c \<in> set (itoa_nat (n div 10))" | "c = digit_char (n mod 10)"
      by (subst (asm) itoa_nat.simps) auto
    then show ?thesis
      using "1.IH" [OF False] by cases (auto simp: of_char_digit)
  qed
qed

lemma minus_not_in_itoa_nat: "CHR ''-'' \<notin> set (itoa_nat n)"
  using itoa_nat_digits [of "CHR ''-''" n] by auto

lemma Itoa_inject [simp]: "Itoa i = Itoa j \<longleftrightarrow> i = j"
proof -
  have "itoa_nat m \<noteq> CHR ''-'' # cs" for m cs
    using minus_not_in_itoa_nat [of m] by (metis list.set_intros(1))
  then show ?thesis
    by (auto simp: Itoa_def) (metis | linarith)+
qed

lemma Itoa_chars: "c \<in> set (Itoa i) \<Longrightarrow> c = CHR ''-'' \<or> (48 \<le> (of_char c :: nat) \<and> (of_char c :: nat) < 58)"
  using itoa_nat_digits by (auto simp: Itoa_def split: if_splits)

lemma Itoa_no_underscore [simp]: "CHR ''_'' \<notin> set (Itoa i)"
  using Itoa_chars [of "CHR ''_''" i] by auto

lemma Itoa_no_minus [simp]: "0 \<le> i \<Longrightarrow> CHR ''-'' \<notin> set (Itoa i)"
  by (simp add: Itoa_def minus_not_in_itoa_nat)

text \<open>Two strings joined around a separator that the left parts do not contain split uniquely.\<close>

lemma append_sep_inject:
  assumes "c \<notin> set xs" and "c \<notin> set xs'"
  shows "xs @ c # ys = xs' @ c # ys' \<longleftrightarrow> xs = xs' \<and> ys = ys'"
  using assms by (auto simp: append_eq_append_conv2 append_eq_Cons_conv Cons_eq_append_conv)

subsection \<open>Majorities\<close>

text \<open>
  Two sets of nodes below \<open>n\<close> whose doubled sizes both exceed \<open>n\<close> share a node. The code tests
  a majority as \<open>int(agreed) * 2 > len(rf.peers)\<close> and \<open>count * 2 > len(rf.peers)\<close>.
\<close>

lemma majorities_meet:
  assumes "A \<subseteq> {..<n}" and "B \<subseteq> {..<n}" and "n < 2 * card A" and "n < 2 * card B"
  shows "A \<inter> B \<noteq> {}"
proof
  assume disj: "A \<inter> B = {}"
  have fin: "finite A" "finite B"
    using assms(1,2) finite_lessThan finite_subset by blast+
  have "card A + card B = card (A \<union> B)"
    using fin disj by (simp add: card_Un_disjoint)
  also have "\<dots> \<le> card {..<n}"
    using assms(1,2) by (intro card_mono) auto
  finally show False
    using assms(3,4) by simp
qed

subsection \<open>Prefixes of logs\<close>

lemma upt_split: "i < n \<Longrightarrow> [0..<n] = [0..<i] @ i # [Suc i..<n]"
  using upt_add_eq_append [of 0 i "n - i"] by (simp add: upt_conv_Cons)

lemma take_take_eq: "take m xs = take m ys \<Longrightarrow> k \<le> m \<Longrightarrow> take k xs = take k ys"
  by (metis min.absorb1 take_take)

lemma nth_take_eq: "take m xs = take m ys \<Longrightarrow> k < m \<Longrightarrow> xs ! k = ys ! k"
  by (metis nth_take)

end
