(* ===== verification/Arith.thy ===== *)
theory Arith
  imports Prelude "HOL-Library.Word" "HOL-Library.Signed_Division"
begin

text \<open>
  The RPC example, \<^verbatim>\<open>src/rpc/server/server.go\<close> and \<^verbatim>\<open>src/rpc/client/client.go\<close>, which repeats the types and the
  methods of the server. Go's \<open>int\<close> has 64 bits here: products wrap around, and division truncates toward zero
  and wraps around for the smallest integer divided by minus one. \<open>net.Listen\<close>, \<open>rpc.DialHTTP\<close> and
  \<open>client.Call\<close> are parameters; \<open>Inl\<close> is an error.
\<close>

type_synonym int64 = "64 word"

subsection \<open>The service\<close>

record Args =
  A :: int64
  B :: int64

record Quotient =
  Quo :: int64
  Rem :: int64

definition Multiply :: "Args \<Rightarrow> int64" where
  "Multiply args = A args * B args"

definition go_div :: "int64 \<Rightarrow> int64 \<Rightarrow> int64" where
  "go_div a b = word_of_int (sint a sdiv sint b)"

definition go_mod :: "int64 \<Rightarrow> int64 \<Rightarrow> int64" where
  "go_mod a b = word_of_int (sint a smod sint b)"

definition Divide :: "Args \<Rightarrow> string + Quotient" where
  "Divide args =
     (if B args = 0 then Inl ''divide by zero''
      else Inr \<lparr>Quo = go_div (A args) (B args), Rem = go_mod (A args) (B args)\<rparr>)"

subsection \<open>The two programs\<close>

datatype 'a ending = Fatal string | Done 'a

definition server_main :: "(string \<Rightarrow> string \<Rightarrow> string + 'l) \<Rightarrow> 'l ending" where
  "server_main Listen =
     (case Listen ''udp'' '':1234'' of Inl e \<Rightarrow> Fatal (''Fatal error:'' @ e) | Inr l \<Rightarrow> Done l)"

text \<open>The client ends with the three numbers that it prints.\<close>

definition client_main ::
  "(string \<Rightarrow> string \<Rightarrow> string + 'c) \<Rightarrow> ('c \<Rightarrow> string \<Rightarrow> Args \<Rightarrow> string + int64) \<Rightarrow> (int64 \<times> int64 \<times> int64) ending" where
  "client_main DialHTTP rpc_Call =
     (let serverAddress = ''127.0.0.1'' in
      case DialHTTP ''udp'' (serverAddress @ '':1234'') of
        Inl err \<Rightarrow> Fatal (''Fatal error:'' @ err)
      | Inr client \<Rightarrow>
          (let args = \<lparr>A = 7, B = 8\<rparr> in
           case rpc_Call client ''Arith.Multiply'' args of
             Inl err \<Rightarrow> Fatal (''arith error:'' @ err)
           | Inr reply \<Rightarrow> Done (A args, B args, reply)))"

subsection \<open>Properties\<close>

abbreviation min64 :: int where "min64 \<equiv> - (2 ^ 63)"
abbreviation max64 :: int where "max64 \<equiv> 2 ^ 63 - 1"

lemma sint64_range: "min64 \<le> sint (w :: int64)" "sint (w :: int64) \<le> max64"
  using sint_greater_eq [of w] sint_less [of w] by simp_all

lemma sint64_of_int: "min64 \<le> i \<Longrightarrow> i \<le> max64 \<Longrightarrow> sint (word_of_int i :: int64) = i"
  by (simp only: sint_sbintrunc') (simp add: signed_take_bit_int_eq_self)

lemma sint64_of_int_iff: "sint (word_of_int i :: int64) = i \<longleftrightarrow> min64 \<le> i \<and> i \<le> max64"
  using sint64_of_int sint64_range by metis

lemma sint64_inverse: "word_of_int (sint w) = (w :: int64)"
  by simp

lemma sint64_inject: "sint a = sint b \<longleftrightarrow> a = (b :: int64)"
  by (metis sint64_inverse)

lemma sint64_0: "sint (b :: int64) = 0 \<longleftrightarrow> b = 0"
  using sint64_inject [of b 0] by simp

text \<open>A product is right exactly when it fits into 64 bits.\<close>

lemma Multiply_exact: "sint (Multiply args) = sint (A args) * sint (B args) \<longleftrightarrow>
    min64 \<le> sint (A args) * sint (B args) \<and> sint (A args) * sint (B args) \<le> max64"
proof -
  have "Multiply args = word_of_int (sint (A args) * sint (B args))" by (simp add: Multiply_def)
  then show ?thesis by (simp only: sint64_of_int_iff)
qed

text \<open>The quotient fits except for the smallest integer and minus one.\<close>

lemma sdiv64_range:
  fixes a b :: int
  assumes "min64 \<le> a" and "a \<le> max64" and "a \<noteq> min64 \<or> b \<noteq> -1"
  shows "min64 \<le> a sdiv b" "a sdiv b \<le> max64"
proof -
  have r: "a sdiv b \<in> {- \<bar>a\<bar>..\<bar>a\<bar>}" by (rule sdiv_int_range)
  show "min64 \<le> a sdiv b" using r assms(1,2) by auto
  show "a sdiv b \<le> max64"
  proof (cases "a = min64")
    case True
    then have b: "b \<noteq> -1" using assms(3) by simp
    show ?thesis
    proof (cases "0 \<le> b")
      case True
      then have "a sdiv b \<le> 0" using \<open>a = min64\<close> by (cases "b = 0") (simp_all add: signed_divide_int_def pos_imp_zdiv_nonneg_iff sgn_if)
      then show ?thesis by simp
    next
      case False
      then have "2 \<le> \<bar>b\<bar>" using b by simp
      then have "\<bar>a\<bar> div \<bar>b\<bar> \<le> \<bar>a\<bar> div 2" by (intro zdiv_mono2) simp_all
      then show ?thesis using \<open>a = min64\<close> False by (simp add: signed_divide_int_def)
    qed
  next
    case False
    then show ?thesis using r assms(1,2) by auto
  qed
qed

lemma go_mod_sint: "b \<noteq> 0 \<Longrightarrow> sint (go_mod a b) = sint a smod sint b"
  unfolding go_mod_def using smod_int_range [of "sint b" "sint a"] sint64_range [of b] sint64_0 [of b]
  by (intro sint64_of_int) auto

lemma go_div_2: "0 \<le> i \<Longrightarrow> i \<le> max64 \<Longrightarrow> go_div (word_of_int i) 2 = word_of_int (i div 2)"
  by (cases "i = 0") (simp_all only: go_div_def sint64_of_int [of i], simp_all add: signed_divide_int_def)

text \<open>
  C39: division. \<open>Divide\<close> reports an error exactly for a zero divisor. Otherwise the quotient times the
  divisor plus the remainder is the dividend, also where the quotient wraps around; the
  remainder is smaller than the divisor and has the sign of the dividend; and the quotient is the exact
  one, rounded toward zero, except for the smallest integer divided by minus one, whose quotient is itself.
\<close>
theorem divide_correct:
  "(if B args = 0 then Divide args = Inl ''divide by zero''
    else \<exists>q. Divide args = Inr q \<and> A args = Quo q * B args + Rem q \<and> \<bar>sint (Rem q)\<bar> < \<bar>sint (B args)\<bar> \<and>
      0 \<le> sint (Rem q) * sint (A args) \<and>
      (if sint (A args) = min64 \<and> B args = -1 then Quo q = A args \<and> Rem q = 0
       else sint (Quo q) = sint (A args) sdiv sint (B args)))"
proof (cases "B args = 0")
  case False
  let ?a = "sint (A args)" and ?b = "sint (B args)"
  define q where "q = \<lparr>Quo = go_div (A args) (B args), Rem = go_mod (A args) (B args)\<rparr>"
  have d: "Divide args = Inr q" using False by (simp add: Divide_def q_def)
  have "word_of_int (?a sdiv ?b * ?b + ?a smod ?b) = A args" by (simp only: sdiv_mult_smod_eq sint64_inverse)
  then have e: "A args = Quo q * B args + Rem q" by (simp add: q_def go_div_def go_mod_def)
  have r: "sint (Rem q) = ?a smod ?b" using False by (simp add: q_def go_mod_sint)
  have b: "?b \<noteq> 0" using False by (simp add: sint64_0)
  then have s: "\<bar>sint (Rem q)\<bar> < \<bar>?b\<bar>" using smod_int_range [OF b, of ?a] by (auto simp: r)
  have g: "0 \<le> sint (Rem q) * ?a" using b by (auto simp: r signed_modulo_int_def sgn_if intro: mult_nonneg_nonpos)
  have "if ?a = min64 \<and> B args = -1 then Quo q = A args \<and> Rem q = 0 else sint (Quo q) = ?a sdiv ?b"
  proof (cases "?a = min64 \<and> B args = -1")
    case True
    then have "A args = word_of_int min64" by (metis sint64_inverse)
    moreover have "?b = -1" using True by simp
    ultimately show ?thesis using True by (simp add: q_def go_div_def go_mod_def signed_modulo_int_def)
  next
    case no: False
    have "?b = -1 \<longleftrightarrow> B args = -1" using sint64_inject [of "B args" "-1"] by simp
    then show ?thesis using no sdiv64_range [OF sint64_range, of "A args" ?b] sint64_of_int by (auto simp: q_def go_div_def)
  qed
  then show ?thesis using False d e s g by auto
qed (simp add: Divide_def)

text \<open>
  The programs as written do not work: both ask for the network \<open>udp\<close>, and \<open>net.Listen\<close> accepts
  stream-oriented networks only, so the server ends at once; a client that got a connection would print
  the product that the service computes.
\<close>

lemma server_needs_stream:
  assumes "\<And>network addr. network \<notin> {''tcp'', ''tcp4'', ''tcp6'', ''unix'', ''unixpacket''} \<Longrightarrow> \<exists>e. Listen network addr = Inl e"
  shows "\<exists>e. server_main Listen = Fatal (''Fatal error:'' @ e)"
  using assms [of "''udp''" "'':1234''"] by (auto simp: server_main_def)

lemma client_prints_product:
  assumes "DialHTTP ''udp'' ''127.0.0.1:1234'' = Inr c" and "\<And>args. rpc_Call c ''Arith.Multiply'' args = Inr (Multiply args)"
  shows "client_main DialHTTP rpc_Call = Done (7, 8, 56)"
  using assms by (simp add: client_main_def Multiply_def)

end
