(* ===== verification/NTP.thy ===== *)
theory NTP
  imports Arith
begin

text \<open>
  The clock example: the time server (\<^verbatim>\<open>src/newnius.com/server\<close>), the client that follows it
  (\<^verbatim>\<open>src/newnius.com/client\<close>) and the stubs between them (\<^verbatim>\<open>src/newnius.com/ntp/ntp.pb.go\<close>). gRPC is a parameter:
  \<open>Invoke\<close> is the client's call and the decoder and the interceptor are those of the server. Clocks are
  in nanoseconds since 1970; \<open>UnixNano\<close> is their 64-bit reading.
\<close>

subsection \<open>Messages and stubs\<close>

datatype NtpRequest = NtpRequest

record NtpReply =
  Message :: int64

definition GetMessage :: "NtpReply option \<Rightarrow> int64" where
  "GetMessage m = (case m of Some r \<Rightarrow> Message r | None \<Rightarrow> 0)"

definition ntp_Query :: "(string \<Rightarrow> NtpRequest \<Rightarrow> 'e + NtpReply) \<Rightarrow> NtpRequest \<Rightarrow> 'e + NtpReply" where
  "ntp_Query Invoke inp = (case Invoke ''/ntp.Ntp/Query'' inp of Inl err \<Rightarrow> Inl err | Inr out \<Rightarrow> Inr out)"

record UnaryServerInfo =
  FullMethod :: string

definition Ntp_Query_Handler ::
  "(NtpRequest \<Rightarrow> 'e + NtpReply) \<Rightarrow> 'e + NtpRequest \<Rightarrow>
   (NtpRequest \<Rightarrow> UnaryServerInfo \<Rightarrow> (NtpRequest \<Rightarrow> 'e + NtpReply) \<Rightarrow> 'e + NtpReply) option \<Rightarrow> 'e + NtpReply" where
  "Ntp_Query_Handler srv dec interceptor =
     (case dec of
        Inl err \<Rightarrow> Inl err
      | Inr inp \<Rightarrow>
          (case interceptor of
             None \<Rightarrow> srv inp
           | Some ic \<Rightarrow> ic inp \<lparr>FullMethod = ''/ntp.Ntp/Query''\<rparr> srv))"

subsection \<open>Server and client\<close>

definition UnixNano :: "int \<Rightarrow> int64" where
  "UnixNano t = word_of_int t"

definition server_Query :: "int \<Rightarrow> NtpRequest \<Rightarrow> 'e + NtpReply" where
  "server_Query now inp = Inr \<lparr>Message = UnixNano now + 100000000000\<rparr>"

definition getTime :: "int \<Rightarrow> int64 \<Rightarrow> int" where
  "getTime now delay = now + sint delay"

text \<open>
  A turn of the loop of \<open>sync\<close>: \<open>t0\<close> and \<open>t1\<close> are the readings of the client's clock before and after the
  call, \<open>r\<close> is its outcome. After an error the old \<open>delay\<close> stays.
\<close>

definition sync_turn :: "int \<Rightarrow> 'e + NtpReply \<Rightarrow> int \<Rightarrow> int64 \<Rightarrow> int64" where
  "sync_turn t0 r t1 delay =
     (case r of
        Inl err \<Rightarrow> delay
      | Inr r \<Rightarrow>
          (let start = UnixNano t0;
               m = go_div (UnixNano t1 - start) 2
           in Message r - start - m))"

text \<open>
  The exchanges of a run: \<open>sent\<close> and \<open>received\<close> by the client's clock, \<open>served\<close> when the server reads its own
  clock, also by the client's clock, and whether an error came back.
\<close>

record exchange =
  sent :: int
  served :: int
  received :: int
  lost :: bool

text \<open>The composition: the client's stub, the transport, the server's stub and the server, whose clock is ahead by \<open>ahead\<close>.\<close>

definition call_server :: "int \<Rightarrow> exchange \<Rightarrow> string + NtpReply" where
  "call_server ahead x =
     ntp_Query (\<lambda>name inp. if lost x \<or> name \<noteq> ''/ntp.Ntp/Query'' then Inl ''unavailable''
       else Ntp_Query_Handler (server_Query (served x + ahead)) (Inr inp) None) NtpRequest"

definition sync :: "int \<Rightarrow> exchange list \<Rightarrow> int64 \<Rightarrow> int64" where
  "sync ahead xs delay = fold (\<lambda>x. sync_turn (sent x) (call_server ahead x) (received x)) xs delay"

text \<open>
  Setting up. The credentials, the connection and the listener come from libraries: \<open>NewClientTLSFromFile\<close>,
  \<open>Dial\<close>, \<open>NewServerTLSFromFile\<close>, \<open>Listen\<close>. An error of any of them is fatal: \<open>Inl\<close> is what \<open>log.Fatalf\<close> prints. After that
  \<open>sync\<close> runs its loop, and the server serves what \<open>RegisterNtpServer\<close> has registered.
\<close>

definition sync_main ::
  "(string \<Rightarrow> string \<Rightarrow> string + 'creds) \<Rightarrow> (string \<Rightarrow> 'creds \<Rightarrow> string + 'conn) \<Rightarrow> ('conn \<Rightarrow> int64 \<Rightarrow> int64) \<Rightarrow> int64 \<Rightarrow> string + int64" where
  "sync_main NewClientTLSFromFile Dial loop delay =
     (case NewClientTLSFromFile ''server-cert.pem'' ''ntp.newnius.com'' of
        Inl err \<Rightarrow> Inl (''cert load error: '' @ err)
      | Inr creds \<Rightarrow>
          (case Dial ''ntp.newnius.com:8844'' creds of
             Inl err \<Rightarrow> Inl (''unable to connect: '' @ err)
           | Inr conn \<Rightarrow> Inr (loop conn delay)))"

definition ntp_server_main ::
  "(string \<Rightarrow> string \<Rightarrow> string + 'creds) \<Rightarrow> (string \<Rightarrow> string \<Rightarrow> string + 'lis) \<Rightarrow> string + 'lis \<times> 'creds \<times> (int \<Rightarrow> NtpRequest \<Rightarrow> 'e + NtpReply)" where
  "ntp_server_main NewServerTLSFromFile Listen =
     (case NewServerTLSFromFile ''server-cert.pem'' ''server-key.pem'' of
        Inl err \<Rightarrow> Inl (''Failed to setup tls: '' @ err)
      | Inr creds \<Rightarrow>
          (case Listen ''tcp'' '':8844'' of
             Inl err \<Rightarrow> Inl (''failed to listen: '' @ err)
           | Inr lis \<Rightarrow> Inr (lis, creds, server_Query)))"

text \<open>The times \<open>tick\<close> shows: one per second, each with the \<open>delay\<close> of that moment.\<close>

definition ntp_tick :: "(int \<times> int64) list \<Rightarrow> int list" where
  "ntp_tick moments = map (\<lambda>(now, delay). getTime now delay) moments"

subsection \<open>Accuracy\<close>

text \<open>
  An exchange is proper when its times are in order and the clocks, as well as the server's
  answer, are within the years 1824 to 2116, so that no difference overflows.
\<close>

definition proper :: "int \<Rightarrow> exchange \<Rightarrow> bool" where
  "proper ahead x \<longleftrightarrow> sent x \<le> served x \<and> served x \<le> received x \<and> - (2 ^ 62) \<le> sent x \<and> received x < 2 ^ 62 \<and>
     - (2 ^ 62) \<le> served x + ahead \<and> served x + ahead + 100000000000 < 2 ^ 62"

lemma call_server_eq:
  "call_server ahead x = (if lost x then Inl ''unavailable'' else Inr \<lparr>Message = UnixNano (served x + ahead + 100000000000)\<rparr>)"
  by (simp add: call_server_def ntp_Query_def Ntp_Query_Handler_def server_Query_def UnixNano_def)

lemma sync_turn_delay:
  assumes "proper ahead x" and "\<not> lost x"
  shows "sint (sync_turn (sent x) (call_server ahead x) (received x) delay) =
    served x + ahead + 100000000000 - sent x - (received x - sent x) div 2"
proof -
  let ?d = "received x - sent x" and ?v = "served x + ahead + 100000000000 - sent x - (received x - sent x) div 2"
  have p: "0 \<le> ?d" "?d \<le> 2 ^ 63 - 1" using assms(1) by (simp_all add: proper_def)
  have w: "UnixNano (received x) - UnixNano (sent x) = word_of_int ?d" by (simp add: UnixNano_def)
  have "go_div (word_of_int ?d) 2 = word_of_int (?d div 2)"
    using p by (rule go_div_2)
  then have "sync_turn (sent x) (call_server ahead x) (received x) delay = word_of_int ?v"
    using assms(2) by (simp add: sync_turn_def call_server_eq w UnixNano_def Let_def)
  moreover have "0 \<le> ?d div 2" "?d div 2 \<le> ?d" using p(1) by simp_all
  then have "- (2 ^ 63) \<le> ?v \<and> ?v \<le> 2 ^ 63 - 1" using assms(1) unfolding proper_def by (simp add: algebra_simps) linarith
  ultimately show ?thesis using sint64_of_int by presburger
qed

lemma sync_last:
  assumes "xs = ys @ x # zs" and "\<forall>z \<in> set zs. lost z" and "\<not> lost x" and "proper ahead x"
  shows "sint (sync ahead xs delay) = served x + ahead + 100000000000 - sent x - (received x - sent x) div 2"
proof -
  have "fold (\<lambda>x. sync_turn (sent x) (call_server ahead x) (received x)) zs d = d" for d
    using assms(2) by (induction zs) (simp_all add: sync_turn_def call_server_eq)
  then show ?thesis by (simp add: assms(1) sync_def sync_turn_delay [OF assms(4,3)])
qed

text \<open>
  C38: the clock the client shows. After any run of \<open>sync\<close> whose last successful exchange is \<open>x\<close>, the client's time
  differs from what the server announces (its own clock plus 100 seconds) by at most half of the round
  trip of \<open>x\<close>, rounded up, and not at all if the two ways took the same time; later failures do not matter.
\<close>
theorem clock_accuracy:
  assumes "xs = ys @ x # zs" and "\<forall>z \<in> set zs. lost z" and "\<not> lost x" and "proper ahead x"
  shows "\<bar>getTime now (sync ahead xs delay) - (now + ahead + 100000000000)\<bar> \<le> (received x - sent x + 1) div 2 \<and>
    (served x - sent x = (received x - sent x) div 2 \<longrightarrow> getTime now (sync ahead xs delay) = now + ahead + 100000000000)"
proof -
  have e: "getTime now (sync ahead xs delay) - (now + ahead + 100000000000) = served x - sent x - (received x - sent x) div 2"
    by (simp add: getTime_def sync_last [OF assms])
  have "0 \<le> served x - sent x" "served x - sent x \<le> received x - sent x" using assms(4) by (simp_all add: proper_def)
  then have "\<bar>served x - sent x - (received x - sent x) div 2\<bar> \<le> (received x - sent x + 1) div 2" by linarith
  then show ?thesis using e by linarith
qed

text \<open>The client runs exactly when its certificate can be loaded and the server be dialled; the address is fixed.\<close>

lemma sync_main_runs:
  "sync_main tls dial loop delay = Inr d \<longleftrightarrow>
     (\<exists>creds conn. tls ''server-cert.pem'' ''ntp.newnius.com'' = Inr creds \<and> dial ''ntp.newnius.com:8844'' creds = Inr conn \<and> d = loop conn delay)"
  by (auto simp: sync_main_def split: sum.splits)

text \<open>
  Client and server meet: if both programs get through their set-up, the client's clock follows the clock
  the server serves, and all the times it shows after the last exchange are off by the same amount.
\<close>

lemma ntp_tick_shows:
  assumes "sync_main tls dial (\<lambda>conn. sync ahead xs) 0 = Inr d" and "xs = ys @ x # zs" and "\<forall>z \<in> set zs. lost z" and "\<not> lost x" and "proper ahead x"
  shows "ntp_tick (map (\<lambda>now. (now, d)) nows) =
    map (\<lambda>now. now + served x + ahead + 100000000000 - sent x - (received x - sent x) div 2) nows"
proof -
  have "d = sync ahead xs 0" using assms(1) by (auto simp: sync_main_runs)
  then show ?thesis by (simp add: ntp_tick_def getTime_def sync_last [OF assms(2-5)] add.assoc)
qed

theorem clock_accuracy_witness:
  "\<bar>getTime 5000 (sync 700 [\<lparr>sent = 0, served = 30, received = 100, lost = False\<rparr>, \<lparr>sent = 200, served = 210, received = 230, lost = True\<rparr>] 0)
    - (5000 + 700 + 100000000000)\<bar> \<le> 50"
  using clock_accuracy [of _ "[]" "\<lparr>sent = 0, served = 30, received = 100, lost = False\<rparr>"
    "[\<lparr>sent = 200, served = 210, received = 230, lost = True\<rparr>]" 700 5000 0, OF refl]
  by (simp add: proper_def)

end
