(* ===== verification/Sockets.thy ===== *)
theory Sockets
  imports Prelude "HOL-Library.Word"
begin

text \<open>
  The part that all servers on Unix sockets share: the testing flags, the shutdown, and the loop that
  accepts connections, with the losses it simulates. The servers of \<^verbatim>\<open>src/pbservice\<close>, \<^verbatim>\<open>src/kvpaxos\<close>,
  \<^verbatim>\<open>src/paxos-shardmaster\<close>, \<^verbatim>\<open>src/paxos-shardkv\<close>, \<^verbatim>\<open>src/diskv\<close>, \<^verbatim>\<open>src/paxos\<close> and
  \<^verbatim>\<open>src/viewservice\<close> are extensions of the record \<open>Sock\<close>. Their request handlers are empty in this
  repository: they return without touching the reply or the server.
\<close>

subsection \<open>Flags and shutdown\<close>

text \<open>\<open>listening\<close> is the state of the listener \<open>l\<close>; \<open>dead\<close> and \<open>unreliable\<close> are the atomic flags.\<close>

record Sock =
  listening :: bool
  dead :: "32 word"
  unreliable :: "32 word"

definition sock0 :: Sock where
  "sock0 = \<lparr>listening = False, dead = 0, unreliable = 0\<rparr>"

definition listen :: "'a Sock_scheme \<Rightarrow> 'a Sock_scheme" where
  "listen s = s\<lparr>listening := True\<rparr>"

definition kill :: "'a Sock_scheme \<Rightarrow> 'a Sock_scheme" where
  "kill s = s\<lparr>dead := 1, listening := False\<rparr>"

definition isdead :: "'a Sock_scheme \<Rightarrow> bool" where
  "isdead s \<longleftrightarrow> dead s \<noteq> 0"

definition setunreliable :: "bool \<Rightarrow> 'a Sock_scheme \<Rightarrow> 'a Sock_scheme" where
  "setunreliable what s = (if what then s\<lparr>unreliable := 1\<rparr> else s\<lparr>unreliable := 0\<rparr>)"

definition isunreliable :: "'a Sock_scheme \<Rightarrow> bool" where
  "isunreliable s \<longleftrightarrow> unreliable s \<noteq> 0"

lemmas sock_defs = kill_def isdead_def setunreliable_def isunreliable_def listen_def

subsection \<open>The accept loop\<close>

text \<open>
  What happens to an accepted connection: it is closed unserved, served with its reply cut off, or
  served. \<open>r1\<close> and \<open>r2\<close> are the two values of \<open>rand.Int63() % 1000\<close>.
\<close>

datatype action = Discarded | ServedMute | Served | ClosedDead | AcceptError

definition treat :: "int \<Rightarrow> int \<Rightarrow> bool \<Rightarrow> action" where
  "treat r1 r2 unrel =
     (if unrel \<and> r1 < 100 then Discarded
      else if unrel \<and> r2 < 200 then ServedMute
      else Served)"

text \<open>
  One turn of the loop from the moment \<open>Accept\<close> returns, for a server whose shutdown is \<open>die\<close>. \<open>err\<close>
  tells whether \<open>Accept\<close> failed.
\<close>

definition accept_turn ::
  "('a Sock_scheme \<Rightarrow> 'a Sock_scheme) \<Rightarrow> bool \<Rightarrow> int \<Rightarrow> int \<Rightarrow> 'a Sock_scheme \<Rightarrow> 'a Sock_scheme \<times> action" where
  "accept_turn die err r1 r2 s =
     (let a = (if \<not> err \<and> isdead s = False then treat r1 r2 (isunreliable s)
               else if \<not> err then ClosedDead else AcceptError)
      in (if err \<and> isdead s = False then die s else s, a))"

text \<open>
  The events of a running server: a connection arrives, \<open>Accept\<close> fails, the tester kills the server
  or changes its reliability. The loop ends when it finds the server dead.
\<close>

datatype event = Arrive int int | AcceptFails | KillServer | SetUnreliable bool

fun serve_loop ::
  "('s \<Rightarrow> bool) \<Rightarrow> (bool \<Rightarrow> int \<Rightarrow> int \<Rightarrow> 's \<Rightarrow> 's \<times> action) \<Rightarrow> ('s \<Rightarrow> 's) \<Rightarrow> (bool \<Rightarrow> 's \<Rightarrow> 's) \<Rightarrow>
   event list \<Rightarrow> 's \<Rightarrow> action list" where
  "serve_loop is_dead accept die unrel [] s = []"
| "serve_loop is_dead accept die unrel (Arrive r1 r2 # evs) s =
     (let (s', a) = accept False r1 r2 s
      in a # (if is_dead s' then [] else serve_loop is_dead accept die unrel evs s'))"
| "serve_loop is_dead accept die unrel (AcceptFails # evs) s =
     (let (s', a) = accept True 0 0 s
      in a # (if is_dead s' then [] else serve_loop is_dead accept die unrel evs s'))"
| "serve_loop is_dead accept die unrel (KillServer # evs) s =
     serve_loop is_dead accept die unrel evs (die s)"
| "serve_loop is_dead accept die unrel (SetUnreliable b # evs) s =
     serve_loop is_dead accept die unrel evs (unrel b s)"

text \<open>
  The second goroutine of a server: it calls \<open>tick\<close> until it finds the server dead. The elements of the list are what
  the rest of the program does to the server while the goroutine sleeps; the result counts the ticks.
\<close>

fun tick_loop :: "('s \<Rightarrow> bool) \<Rightarrow> ('s \<Rightarrow> 's) \<Rightarrow> ('s \<Rightarrow> 's) list \<Rightarrow> 's \<Rightarrow> nat \<times> 's" where
  "tick_loop is_dead tick [] s = (0, s)"
| "tick_loop is_dead tick (rest # fs) s =
     (if is_dead s then (0, s)
      else let (n, s') = tick_loop is_dead tick fs (rest (tick s)) in (n + 1, s'))"

subsection \<open>The contract of a server\<close>

locale socket_server =
  fixes is_dead :: "'s \<Rightarrow> bool"
    and accept :: "bool \<Rightarrow> int \<Rightarrow> int \<Rightarrow> 's \<Rightarrow> 's \<times> action"
    and die :: "'s \<Rightarrow> 's"
    and unrel :: "bool \<Rightarrow> 's \<Rightarrow> 's"
    and is_unrel :: "'s \<Rightarrow> bool"
  assumes dead_die: "is_dead (die s)"
    and dead_unrel: "is_dead (unrel b s) = is_dead s"
    and unrel_unrel: "is_unrel (unrel b s) = b"
    and accept_alive: "\<not> is_dead s \<Longrightarrow> \<exists>s'. accept False r1 r2 s = (s', treat r1 r2 (is_unrel s)) \<and>
      is_dead s' = is_dead s \<and> is_unrel s' = is_unrel s"
    and accept_dead: "is_dead s \<Longrightarrow> accept err r1 r2 s = (s, if err then AcceptError else ClosedDead)"
begin

lemma dead_serves_nothing:
  "is_dead s \<Longrightarrow> set (serve_loop is_dead accept die unrel evs s) \<subseteq> {ClosedDead, AcceptError}"
proof (induction evs arbitrary: s)
  case (Cons ev evs)
  then show ?case using accept_dead dead_die dead_unrel by (cases ev) auto
qed simp

text \<open>A server that stays reliable serves every connection, with its reply.\<close>

lemma reliable_serves:
  "\<not> is_dead s \<Longrightarrow> \<not> is_unrel s \<Longrightarrow>
   serve_loop is_dead accept die unrel (map (\<lambda>(r1, r2). Arrive r1 r2) rs) s = replicate (length rs) Served"
proof (induction rs arbitrary: s)
  case (Cons r rs)
  obtain r1 r2 where r: "r = (r1, r2)" by fastforce
  obtain s' where "accept False r1 r2 s = (s', treat r1 r2 (is_unrel s))" "\<not> is_dead s'" "\<not> is_unrel s'"
    using accept_alive Cons.prems by metis
  then show ?case using Cons.prems Cons.IH [of s'] r by (simp add: treat_def)
qed simp

text \<open>After a kill the ticks end: there is none after the sleep in which it happens.\<close>

lemma ticks_end: "fst (tick_loop is_dead tick (fs @ die # fs') s) \<le> length fs + 1"
proof (induction fs arbitrary: s)
  case Nil
  show ?case by (cases fs') (simp_all add: split_def Let_def dead_die)
next
  case (Cons f fs)
  show ?case using Cons.IH [of "f (tick s)"] by (simp add: split_def Let_def)
qed

text \<open>Whatever happens before, nothing is served after a kill.\<close>

lemma kill_stops:
  "\<exists>as bs. serve_loop is_dead accept die unrel (evs @ KillServer # evs') s = as @ bs \<and>
     length as \<le> length evs \<and> set bs \<subseteq> {ClosedDead, AcceptError}"
proof (induction evs arbitrary: s)
  case Nil
  then show ?case using dead_serves_nothing [OF dead_die] by fastforce
next
  case (Cons ev evs)
  have ext: "\<exists>as bs. a # (if d then [] else serve_loop is_dead accept die unrel (evs @ KillServer # evs') s') = as @ bs \<and>
      length as \<le> length (ev # evs) \<and> set bs \<subseteq> {ClosedDead, AcceptError}" for a s' d
  proof (cases d)
    case True
    then show ?thesis by (intro exI [of _ "[a]"] exI [of _ "[]"]) simp
  next
    case False
    obtain as bs where "serve_loop is_dead accept die unrel (evs @ KillServer # evs') s' = as @ bs"
      "length as \<le> length evs" "set bs \<subseteq> {ClosedDead, AcceptError}" using Cons by blast
    then show ?thesis using False by (intro exI [of _ "a # as"] exI [of _ bs]) simp
  qed
  show ?case
  proof (cases ev)
    case (Arrive r1 r2)
    then show ?thesis
      using ext [where s' = "fst (accept False r1 r2 s)" and d = "is_dead (fst (accept False r1 r2 s))"]
      by (simp add: split_def Let_def)
  next
    case AcceptFails
    then show ?thesis
      using ext [where s' = "fst (accept True 0 0 s)" and d = "is_dead (fst (accept True 0 0 s))"]
      by (simp add: split_def Let_def)
  next
    case KillServer
    obtain as bs where "serve_loop is_dead accept die unrel (evs @ Sockets.KillServer # evs') (die s) = as @ bs"
      "length as \<le> length evs" "set bs \<subseteq> {ClosedDead, AcceptError}" using Cons by blast
    then show ?thesis using KillServer by fastforce
  next
    case (SetUnreliable b)
    obtain as bs where "serve_loop is_dead accept die unrel (evs @ Sockets.KillServer # evs') (unrel b s) = as @ bs"
      "length as \<le> length evs" "set bs \<subseteq> {ClosedDead, AcceptError}" using Cons by blast
    then show ?thesis using SetUnreliable by fastforce
  qed
qed

end

text \<open>A server that also shuts down when \<open>Accept\<close> fails; a Paxos peer does not.\<close>

locale failing_server = socket_server +
  assumes accept_fails: "\<not> is_dead s \<Longrightarrow> is_dead (fst (accept True r1 r2 s))"
begin

lemma failure_stops:
  "\<not> is_dead s \<Longrightarrow> \<exists>a. serve_loop is_dead accept die unrel (AcceptFails # evs) s = [a]"
  using accept_fails by (auto simp: split_def)

end

text \<open>
  Every server whose loop is \<open>accept_turn\<close> with its own shutdown meets the contract, provided the
  shutdown sets the flag.
\<close>

lemma accept_turn_server:
  assumes "\<And>s :: 'a Sock_scheme. isdead (die s)"
  shows "failing_server isdead (accept_turn die) die setunreliable isunreliable"
  by unfold_locales
    (use assms in \<open>auto simp: accept_turn_def sock_defs Let_def\<close>)

end
