(* ===== verification/LockService.thy ===== *)
theory LockService
  imports Sockets
begin

text \<open>
  The lock service, \<^verbatim>\<open>src/lockservice\<close>: the server with its table of locks, the accept loop with the
  \<open>dying\<close> mode in which a request is executed but its reply is thrown away, and the clerk, which
  talks to the primary only. \<open>Unlock\<close> is empty on both sides.
\<close>

record LockServer =
  ls_dead :: bool
  dying :: bool
  ls_listening :: bool
  am_primary :: bool
  backup :: string
  locks :: "string \<rightharpoonup> bool"

record LockArgs =
  Lockname :: string

record LockReply =
  OK :: bool

definition Lock :: "LockArgs \<Rightarrow> LockServer \<Rightarrow> LockServer \<times> LockReply" where
  "Lock args ls =
     (let locked = zget False (locks ls) (Lockname args)
      in if locked then (ls, \<lparr>OK = False\<rparr>)
         else (ls\<lparr>locks := (locks ls)(Lockname args \<mapsto> True)\<rparr>, \<lparr>OK = True\<rparr>))"

definition Unlock :: "LockArgs \<Rightarrow> LockServer \<Rightarrow> LockServer \<times> LockReply" where
  "Unlock args ls = (ls, \<lparr>OK = False\<rparr>)"

definition kill :: "LockServer \<Rightarrow> LockServer" where
  "kill ls = ls\<lparr>ls_dead := True, ls_listening := False\<rparr>"

text \<open>\<open>StartServer\<close>, with the port the server listens on.\<close>

definition StartServer :: "string \<Rightarrow> string \<Rightarrow> bool \<Rightarrow> LockServer \<times> string" where
  "StartServer primary bak prim =
     (\<lparr>ls_dead = False, dying = False, ls_listening = True, am_primary = prim, backup = bak, locks = Map.empty\<rparr>,
      if prim then primary else bak)"

text \<open>
  A connection whose writes are discarded: \<open>Write\<close> reports success and sends nothing, \<open>Read\<close> and
  \<open>Close\<close> go to the connection.
\<close>

record 'b conn =
  incoming :: "'b list"
  sent :: "'b list"
  open_conn :: bool

definition Deaf_Write :: "'b list \<Rightarrow> 'b conn \<Rightarrow> 'b conn \<times> int" where
  "Deaf_Write p c = (c, int (length p))"

definition Deaf_Close :: "'b conn \<Rightarrow> 'b conn" where
  "Deaf_Close c = c\<lparr>open_conn := False\<rparr>"

definition Deaf_Read :: "nat \<Rightarrow> 'b conn \<Rightarrow> 'b conn \<times> 'b list" where
  "Deaf_Read n c = (c\<lparr>incoming := drop n (incoming c)\<rparr>, take n (incoming c))"

text \<open>
  One turn of the accept loop; \<open>serve\<close> is what \<open>ServeConn\<close> does to the server's state. The result
  tells whether the client gets the reply.
\<close>

definition accept_lock ::
  "bool \<Rightarrow> (LockServer \<Rightarrow> LockServer \<times> 'r) \<Rightarrow> LockServer \<Rightarrow> LockServer \<times> 'r option" where
  "accept_lock err serve ls =
     (if \<not> err \<and> ls_dead ls = False then
        if dying ls then
          let (ls1, rep) = serve (ls\<lparr>ls_listening := False\<rparr>)
          in (ls1\<lparr>ls_dead := True\<rparr>, None)
        else let (ls1, rep) = serve ls in (ls1, Some rep)
      else if \<not> err then (ls, None)
      else (if ls_dead ls = False then kill ls else ls, None))"

subsection \<open>The clerk\<close>

record Clerk =
  primary_port :: string
  backup_port :: string

definition MakeClerk :: "string \<Rightarrow> string \<Rightarrow> Clerk" where
  "MakeClerk primary bak = \<lparr>primary_port = primary, backup_port = bak\<rparr>"

text \<open>\<open>call\<close>: \<open>dial\<close> tells whether the connection could be made, \<open>res\<close> is the outcome of \<open>c.Call\<close>.\<close>

definition call :: "bool \<Rightarrow> 'r option \<Rightarrow> 'r option" where
  "call dial res = (if \<not> dial then None else res)"

definition clerk_Lock :: "(string \<Rightarrow> LockArgs \<Rightarrow> LockReply option) \<Rightarrow> string \<Rightarrow> Clerk \<Rightarrow> bool" where
  "clerk_Lock rpc lockname ck =
     (case rpc (primary_port ck) \<lparr>Lockname = lockname\<rparr> of
        None \<Rightarrow> False
      | Some rep \<Rightarrow> OK rep)"

definition clerk_Unlock :: "string \<Rightarrow> Clerk \<Rightarrow> bool" where
  "clerk_Unlock lockname ck = False"

subsection \<open>Mutual exclusion\<close>

text \<open>A sequence of requests: \<open>Inl\<close> is a lock, \<open>Inr\<close> an unlock; the result lists the answers to locks.\<close>

fun serve_locks :: "(string + string) list \<Rightarrow> LockServer \<Rightarrow> (string \<times> bool) list" where
  "serve_locks [] ls = []"
| "serve_locks (Inl n # rs) ls =
     (let (ls', rep) = Lock \<lparr>Lockname = n\<rparr> ls in (n, OK rep) # serve_locks rs ls')"
| "serve_locks (Inr n # rs) ls = serve_locks rs (fst (Unlock \<lparr>Lockname = n\<rparr> ls))"

definition grants :: "string \<Rightarrow> (string \<times> bool) list \<Rightarrow> nat" where
  "grants n rs = length (filter (\<lambda>r. r = (n, True)) rs)"

lemma grants_held: "zget False (locks ls) n \<Longrightarrow> grants n (serve_locks rs ls) = 0"
proof (induction rs ls rule: serve_locks.induct)
  case (2 m rs ls)
  then show ?case by (cases "n = m") (auto simp: Lock_def grants_def Let_def split: if_splits)
qed (simp_all add: grants_def Unlock_def)

text \<open>
  Mutual exclusion. In any sequence of lock and unlock requests to one server, each lock is
  granted at most once, and exactly once if it is free at first and requested at all.
\<close>
theorem lock_granted_once:
  "grants n (serve_locks rs ls) = (if Inl n \<in> set rs \<and> \<not> zget False (locks ls) n then 1 else 0)"
proof (induction rs ls rule: serve_locks.induct)
  case (2 m rs ls)
  show ?case
  proof (cases "zget False (locks ls) m")
    case True
    then show ?thesis using 2 by (auto simp: Lock_def grants_def)
  next
    case False
    show ?thesis
    proof (cases "n = m")
      case True
      have "grants n (serve_locks rs (ls\<lparr>locks := (locks ls)(m \<mapsto> True)\<rparr>)) = 0"
        using True by (intro grants_held) simp
      then show ?thesis using False True by (simp add: Lock_def grants_def)
    next
      case neq: False
      then show ?thesis using 2 False by (auto simp: Lock_def grants_def simp del: fun_upd_apply)
    qed
  qed
qed (simp_all add: grants_def Unlock_def)

text \<open>
  A lock is never released: \<open>Unlock\<close> leaves the table alone and reports failure, so a lock that
  was granted is refused ever after, whatever is unlocked in between.
\<close>
theorem unlock_releases_nothing:
  assumes "Lock \<lparr>Lockname = n\<rparr> ls = (ls1, rep)" and "Inl n \<in> set rs"
  shows "(n, True) \<notin> set (serve_locks (Inr n # rs) ls1)"
proof -
  have "zget False (locks ls1) n" using assms(1) by (auto simp: Lock_def Let_def split: if_splits)
  then have "grants n (serve_locks (Inr n # rs) ls1) = 0" by (rule grants_held)
  then show ?thesis by (auto simp: grants_def filter_empty_conv)
qed

theorem unlock_releases_nothing_witness:
  "(''a'', True) \<notin> set (serve_locks [Inr ''a'', Inl ''a''] (fst (Lock \<lparr>Lockname = ''a''\<rparr> (fst (StartServer ''p'' ''b'' True)))))"
  using unlock_releases_nothing [of "''a''" "fst (StartServer ''p'' ''b'' True)" _ _ "[Inl ''a'']"]
  by (metis list.set_intros(1) prod.collapse)

end
