(* ===== verification/View_PB.thy ===== *)
theory View_PB
  imports Sockets
begin

text \<open>
  The view service (\<^verbatim>\<open>src/viewservice\<close>) and the primary/backup service on top of it
  (\<^verbatim>\<open>src/pbservice\<close>). The handlers and the ticks of both servers are empty in this repository; what they
  have is the life cycle, the accept loops, and the clerks.
\<close>

subsection \<open>The view service\<close>

record View =
  Viewnum :: "64 word"
  Primary :: string
  Backup :: string

definition view0 :: View where
  "view0 = \<lparr>Viewnum = 0, Primary = '''', Backup = ''''\<rparr>"

record PingArgs =
  Me :: string
  pingViewnum :: "64 word"

text \<open>The view server: no \<open>unreliable\<close> flag, but a count of the connections it has accepted.\<close>

record ViewServer =
  vs_listening :: bool
  vs_dead :: "32 word"
  rpccount :: "32 word"
  vs_me :: string

definition vs_StartServer :: "string \<Rightarrow> ViewServer" where
  "vs_StartServer m = \<lparr>vs_listening = True, vs_dead = 0, rpccount = 0, vs_me = m\<rparr>"

definition vs_Ping :: "PingArgs \<Rightarrow> ViewServer \<Rightarrow> ViewServer \<times> View" where
  "vs_Ping args vs = (vs, view0)"

definition vs_Get :: "ViewServer \<Rightarrow> ViewServer \<times> View" where
  "vs_Get vs = (vs, view0)"

definition vs_tick :: "ViewServer \<Rightarrow> ViewServer" where
  "vs_tick vs = vs"

definition vs_Kill :: "ViewServer \<Rightarrow> ViewServer" where
  "vs_Kill vs = vs\<lparr>vs_dead := 1, vs_listening := False\<rparr>"

definition vs_isdead :: "ViewServer \<Rightarrow> bool" where
  "vs_isdead vs \<longleftrightarrow> vs_dead vs \<noteq> 0"

definition GetRPCCount :: "ViewServer \<Rightarrow> 32 word" where
  "GetRPCCount vs = rpccount vs"

definition vs_accept :: "bool \<Rightarrow> ViewServer \<Rightarrow> ViewServer \<times> action" where
  "vs_accept err vs =
     (let (vs1, a) = (if \<not> err \<and> vs_isdead vs = False then (vs\<lparr>rpccount := rpccount vs + 1\<rparr>, Served)
                      else if \<not> err then (vs, ClosedDead) else (vs, AcceptError))
      in (if err \<and> vs_isdead vs1 = False then vs_Kill vs1 else vs1, a))"

definition vs_ticks :: "(ViewServer \<Rightarrow> ViewServer) list \<Rightarrow> ViewServer \<Rightarrow> nat \<times> ViewServer" where
  "vs_ticks = tick_loop vs_isdead vs_tick"

text \<open>The clerk. \<open>rpc\<close> is the outcome of \<open>call\<close> to the given server.\<close>

record ViewClerk =
  vck_me :: string
  vck_server :: string

definition vs_MakeClerk :: "string \<Rightarrow> string \<Rightarrow> ViewClerk" where
  "vs_MakeClerk m server = \<lparr>vck_me = m, vck_server = server\<rparr>"

definition vs_call :: "bool \<Rightarrow> 'r option \<Rightarrow> 'r option" where
  "vs_call dial res = (if \<not> dial then None else res)"

definition vck_Ping :: "(string \<Rightarrow> PingArgs \<Rightarrow> View option) \<Rightarrow> 64 word \<Rightarrow> ViewClerk \<Rightarrow> View \<times> bool" where
  "vck_Ping rpc viewnum ck =
     (case rpc (vck_server ck) \<lparr>Me = vck_me ck, pingViewnum = viewnum\<rparr> of
        None \<Rightarrow> (view0, True)
      | Some v \<Rightarrow> (v, False))"

definition vck_Get :: "(string \<Rightarrow> View option) \<Rightarrow> ViewClerk \<Rightarrow> View \<times> bool" where
  "vck_Get rpc ck =
     (case rpc (vck_server ck) of None \<Rightarrow> (view0, False) | Some v \<Rightarrow> (v, True))"

definition vck_Primary :: "(string \<Rightarrow> View option) \<Rightarrow> ViewClerk \<Rightarrow> string" where
  "vck_Primary rpc ck = (let (v, ok) = vck_Get rpc ck in if ok then Primary v else '''')"

text \<open>
  Every accepted connection of a live server is counted, with wrap-around at 32 bits; none is
  counted once the server is dead.
\<close>

lemma vs_accepts_count:
  "vs_dead vs = 0 \<Longrightarrow>
   GetRPCCount (((\<lambda>vs. fst (vs_accept False vs)) ^^ n) vs) = GetRPCCount vs + of_nat n"
proof (induction n)
  case (Suc n)
  have "vs_dead (((\<lambda>vs. fst (vs_accept False vs)) ^^ n) vs) = 0"
    using Suc.prems by (induction n) (simp_all add: vs_accept_def vs_isdead_def)
  then show ?case using Suc by (simp add: vs_accept_def GetRPCCount_def vs_isdead_def)
qed simp

lemma vs_dead_counts_nothing: "vs_isdead vs \<Longrightarrow> GetRPCCount (fst (vs_accept err vs)) = GetRPCCount vs"
  by (simp add: vs_accept_def GetRPCCount_def)

subsection \<open>The primary/backup service\<close>

record PBServer = Sock +
  pb_me :: string
  pb_vs :: ViewClerk

record PBPutAppendArgs =
  pbKey :: string
  pbValue :: string

record PBPutAppendReply =
  pbErr :: string

record PBGetArgs =
  pbgKey :: string

record PBGetReply =
  pbgErr :: string
  pbgValue :: string

definition pb_Get :: "PBGetArgs \<Rightarrow> PBServer \<Rightarrow> PBServer \<times> PBGetReply" where
  "pb_Get args pb = (pb, \<lparr>pbgErr = '''', pbgValue = ''''\<rparr>)"

definition pb_PutAppend :: "PBPutAppendArgs \<Rightarrow> PBServer \<Rightarrow> PBServer \<times> PBPutAppendReply" where
  "pb_PutAppend args pb = (pb, \<lparr>pbErr = ''''\<rparr>)"

definition pb_tick :: "PBServer \<Rightarrow> PBServer" where
  "pb_tick pb = pb"

definition pb_StartServer :: "string \<Rightarrow> string \<Rightarrow> PBServer" where
  "pb_StartServer vshost m =
     listen \<lparr>listening = False, dead = 0, unreliable = 0, pb_me = m, pb_vs = vs_MakeClerk m vshost\<rparr>"

definition pb_accept :: "bool \<Rightarrow> int \<Rightarrow> int \<Rightarrow> PBServer \<Rightarrow> PBServer \<times> action" where
  "pb_accept = accept_turn kill"

definition pb_ticks :: "(PBServer \<Rightarrow> PBServer) list \<Rightarrow> PBServer \<Rightarrow> nat \<times> PBServer" where
  "pb_ticks = tick_loop isdead pb_tick"

interpretation pb: failing_server isdead pb_accept kill setunreliable "isunreliable :: PBServer \<Rightarrow> bool"
  unfolding pb_accept_def by (rule accept_turn_server) (simp add: sock_defs)

lemma killed_primary_ticks_no_more: "fst (pb_ticks (fs @ kill # fs') pb) \<le> length fs + 1"
  unfolding pb_ticks_def by (rule pb.ticks_end)

record PBClerk =
  pbck_vs :: ViewClerk

definition pb_MakeClerk :: "string \<Rightarrow> string \<Rightarrow> PBClerk" where
  "pb_MakeClerk vshost m = \<lparr>pbck_vs = vs_MakeClerk m vshost\<rparr>"

definition pb_call :: "bool \<Rightarrow> 'r option \<Rightarrow> 'r option" where
  "pb_call dial res = (if \<not> dial then None else res)"

definition pbck_Get :: "string \<Rightarrow> PBClerk \<Rightarrow> string" where
  "pbck_Get key ck = ''???''"

definition pbck_PutAppend :: "string \<Rightarrow> string \<Rightarrow> string \<Rightarrow> PBClerk \<Rightarrow> PBClerk" where
  "pbck_PutAppend key val op ck = ck"

definition pbck_Put :: "string \<Rightarrow> string \<Rightarrow> PBClerk \<Rightarrow> PBClerk" where
  "pbck_Put key val ck = pbck_PutAppend key val ''Put'' ck"

definition pbck_Append :: "string \<Rightarrow> string \<Rightarrow> PBClerk \<Rightarrow> PBClerk" where
  "pbck_Append key val ck = pbck_PutAppend key val ''Append'' ck"

end
