(* ===== verification/Base32.thy ===== *)
theory Base32
  imports Prelude
begin

text \<open>
  \<open>base32.StdEncoding\<close> of the Go library, as \<^verbatim>\<open>src/diskv/server.go\<close> uses it to turn keys into file
  names: groups of five bytes become eight characters of the alphabet \<open>A-Z2-7\<close>; a shorter last group
  is padded with \<open>=\<close>. Decoding reports an error for anything that is not such a text.
\<close>

subsection \<open>Positional numerals\<close>

definition of_digits :: "nat \<Rightarrow> nat list \<Rightarrow> nat" where
  "of_digits b ds = foldl (\<lambda>a d. a * b + d) 0 ds"

fun to_digits :: "nat \<Rightarrow> nat \<Rightarrow> nat \<Rightarrow> nat list" where
  "to_digits b 0 n = []"
| "to_digits b (Suc k) n = to_digits b k (n div b) @ [n mod b]"

lemma of_digits_snoc [simp]: "of_digits b (ds @ [d]) = of_digits b ds * b + d"
  by (simp add: of_digits_def)

lemma of_digits_Nil [simp]: "of_digits b [] = 0"
  by (simp add: of_digits_def)

lemma length_to_digits [simp]: "length (to_digits b k n) = k"
  by (induction b k n rule: to_digits.induct) auto

lemma to_digits_less: "0 < b \<Longrightarrow> d \<in> set (to_digits b k n) \<Longrightarrow> d < b"
  by (induction b k n rule: to_digits.induct) auto

lemma of_to_digits: "0 < b \<Longrightarrow> of_digits b (to_digits b k n) = n mod b ^ k"
proof (induction b k n rule: to_digits.induct)
  case (2 b k n)
  then have "of_digits b (to_digits b (Suc k) n) = (n div b mod b ^ k) * b + n mod b" by simp
  also have "\<dots> = n mod (b * b ^ k)" by (simp add: mod_mult2_eq mult.commute)
  finally show ?case by simp
qed simp

lemma to_of_digits: "\<forall>d \<in> set ds. d < b \<Longrightarrow> to_digits b (length ds) (of_digits b ds) = ds"
proof (induction ds rule: rev_induct)
  case (snoc d ds)
  then show ?case by (simp add: div_mult_self3)
qed simp

lemma of_digits_bound: "\<forall>d \<in> set ds. d < b \<Longrightarrow> of_digits b ds < b ^ length ds"
proof (induction ds rule: rev_induct)
  case (snoc d ds)
  then have "of_digits b ds + 1 \<le> b ^ length ds" "d < b" by auto
  then have "of_digits b ds * b + d < (of_digits b ds + 1) * b" by simp
  also have "\<dots> \<le> b ^ length ds * b" using \<open>of_digits b ds + 1 \<le> b ^ length ds\<close> by (rule mult_le_mono1)
  finally show ?case by (simp add: mult.commute)
qed simp

lemma of_digits_zeros: "of_digits b (ds @ replicate k 0) = of_digits b ds * b ^ k"
proof (induction k)
  case (Suc k)
  have "ds @ replicate (Suc k) 0 = (ds @ replicate k 0) @ [0]"
    by (simp add: replicate_append_same)
  then show ?case using Suc by (metis (no_types, lifting) add.right_neutral mult.assoc mult.commute of_digits_snoc power_Suc)
qed simp

lemma to_digits_zeros: "0 < b \<Longrightarrow> to_digits b (m + k) (n * b ^ k) = to_digits b m n @ replicate k 0"
proof (induction k)
  case (Suc k)
  then show ?case by (simp add: mult.left_commute replicate_append_same [symmetric])
qed simp

subsection \<open>Encoding and decoding\<close>

definition alphabet :: string where
  "alphabet = ''ABCDEFGHIJKLMNOPQRSTUVWXYZ234567''"

text \<open>How many characters a last group of so many bytes has, and back.\<close>

definition chars_of :: "nat \<Rightarrow> nat" where
  "chars_of k = [0, 2, 4, 5, 7, 8] ! k"

definition bytes_of :: "nat \<Rightarrow> nat option" where
  "bytes_of m = (case m of 0 \<Rightarrow> Some 0 | _ \<Rightarrow> map_of [(2, 1), (4, 2), (5, 3), (7, 4), (8, 5)] m)"

definition encode_group :: "nat list \<Rightarrow> string" where
  "encode_group bs =
     (let n = of_digits 256 (bs @ replicate (5 - length bs) 0);
          ds = take (chars_of (length bs)) (to_digits 32 8 n)
      in map ((!) alphabet) ds @ replicate (8 - length ds) (CHR ''=''))"

function encode_bytes :: "nat list \<Rightarrow> string" where
  "encode_bytes bs = (if bs = [] then [] else encode_group (take 5 bs) @ encode_bytes (drop 5 bs))"
  by pat_completeness auto
termination by (relation "measure length") auto

declare encode_bytes.simps [simp del]

definition EncodeToString :: "string \<Rightarrow> string" where
  "EncodeToString s = encode_bytes (map of_char s)"

fun index_of :: "'a \<Rightarrow> 'a list \<Rightarrow> nat option" where
  "index_of x [] = None"
| "index_of x (y # ys) = (if x = y then Some 0 else map_option Suc (index_of x ys))"

fun traverse :: "('a \<Rightarrow> 'b option) \<Rightarrow> 'a list \<Rightarrow> 'b list option" where
  "traverse f [] = Some []"
| "traverse f (x # xs) = do { y \<leftarrow> f x; ys \<leftarrow> traverse f xs; Some (y # ys) }"

definition decode_group :: "string \<Rightarrow> nat list option" where
  "decode_group cs =
     do { let data = takeWhile (\<lambda>c. c \<noteq> CHR ''='') cs;
          k \<leftarrow> bytes_of (length data);
          ds \<leftarrow> traverse (\<lambda>c. index_of c alphabet) data;
          (if length cs = 8 \<and> set (drop (length data) cs) \<subseteq> {CHR ''=''} then
             Some (take k (to_digits 256 5 (of_digits 32 (ds @ replicate (8 - length ds) 0))))
           else None) }"

text \<open>Only the last group may be short: padding in an earlier one is an error.\<close>

function decode_bytes :: "string \<Rightarrow> nat list option" where
  "decode_bytes cs =
     (if cs = [] then Some []
      else do { bs \<leftarrow> decode_group (take 8 cs);
                rest \<leftarrow> decode_bytes (drop 8 cs);
                (if length bs < 5 \<and> drop 8 cs \<noteq> [] then None else Some (bs @ rest)) })"
  by pat_completeness auto
termination by (relation "measure length") auto

declare decode_bytes.simps [simp del]

definition DecodeString :: "string \<Rightarrow> string option" where
  "DecodeString s = map_option (map char_of) (decode_bytes (filter (\<lambda>c. c \<noteq> CHR 0x0D \<and> c \<noteq> CHR 0x0A) s))"

subsection \<open>The round trip\<close>

lemma index_of_nth: "distinct xs \<Longrightarrow> i < length xs \<Longrightarrow> index_of (xs ! i) xs = Some i"
  by (induction xs arbitrary: i) (auto simp: nth_Cons split: nat.split)

lemma alphabet_facts:
  "length alphabet = 32" "distinct alphabet"
  "set alphabet \<inter> {CHR ''='', CHR 0x0D, CHR 0x0A} = {}"
  by (simp_all add: alphabet_def)

lemma alphabet_char: "d < 32 \<Longrightarrow> alphabet ! d \<notin> {CHR ''='', CHR 0x0D, CHR 0x0A}"
proof -
  assume "d < 32"
  then have "alphabet ! d \<in> set alphabet" by (simp add: alphabet_facts(1))
  then show ?thesis using alphabet_facts(3) by blast
qed

lemma traverse_alphabet:
  "\<forall>d \<in> set ds. d < 32 \<Longrightarrow> traverse (\<lambda>c. index_of c alphabet) (map ((!) alphabet) ds) = Some ds"
  by (induction ds) (simp_all add: index_of_nth alphabet_facts)

text \<open>The digits that the encoder drops from a short group are zero.\<close>

lemma short_group_digits:
  assumes "length bs \<in> {1, 2, 3, 4, 5}"
  defines "n \<equiv> of_digits 256 (bs @ replicate (5 - length bs) 0)"
  shows "to_digits 32 8 n = take (chars_of (length bs)) (to_digits 32 8 n) @ replicate (8 - chars_of (length bs)) 0"
proof -
  let ?k = "length bs" and ?m = "chars_of (length bs)"
  obtain c where c: "(256 :: nat) ^ (5 - ?k) = c * 32 ^ (8 - ?m)" and m: "?m \<le> 8"
    using assms(1) by (auto simp: chars_of_def dest: spec [of _ 1] spec [of _ 4] spec [of _ 16] spec [of _ 2] spec [of _ 8])
  have "n = (of_digits 256 bs * c) * 32 ^ (8 - ?m)"
    using c by (simp add: n_def of_digits_zeros)
  then have "to_digits 32 (?m + (8 - ?m)) n = to_digits 32 ?m (of_digits 256 bs * c) @ replicate (8 - ?m) 0"
    by (simp only: to_digits_zeros)
  then show ?thesis using m by simp
qed

lemma decode_encode_group:
  assumes "length bs \<in> {1, 2, 3, 4, 5}" and "\<forall>b \<in> set bs. b < 256"
  shows "decode_group (encode_group bs) = Some bs" and "length (encode_group bs) = 8"
    and "set (encode_group bs) \<inter> {CHR 0x0D, CHR 0x0A} = {}"
proof -
  let ?z = "replicate (5 - length bs) 0" and ?m = "chars_of (length bs)"
  define n where "n = of_digits 256 (bs @ ?z)"
  define ds where "ds = take ?m (to_digits 32 8 n)"
  have m: "?m \<le> 8" "bytes_of ?m = Some (length bs)"
    using assms(1) by (auto simp: chars_of_def bytes_of_def)
  have len: "length ds = ?m" using m by (simp add: ds_def)
  have lt: "\<forall>d \<in> set ds. d < 32" using to_digits_less [of 32 _ 8 n] by (auto simp: ds_def dest: in_set_takeD)
  have enc: "encode_group bs = map ((!) alphabet) ds @ replicate (8 - length ds) (CHR ''='')"
    by (simp add: encode_group_def Let_def ds_def n_def)
  have data: "\<forall>c \<in> set (map ((!) alphabet) ds). c \<noteq> CHR ''=''" using lt alphabet_char by fastforce
  then have tw: "takeWhile (\<lambda>c. c \<noteq> CHR ''='') (encode_group bs) = map ((!) alphabet) ds"
    unfolding enc by (subst takeWhile_append2) (auto simp: takeWhile_eq_Nil_iff hd_replicate)
  have "n < 256 ^ 5" using of_digits_bound [of "bs @ ?z" 256] assms by (auto simp: n_def)
  then have "n = of_digits 32 (ds @ replicate (8 - length ds) 0)"
    using short_group_digits [OF assms(1)] of_to_digits [of 32 8 n] len by (simp add: ds_def n_def)
  moreover have "to_digits 256 5 n = bs @ ?z"
    using to_of_digits [of "bs @ ?z" 256] assms by (auto simp: n_def)
  ultimately show "decode_group (encode_group bs) = Some bs"
    unfolding decode_group_def tw using m len traverse_alphabet [OF lt]
    by (simp add: enc set_replicate_conv_if del: to_digits.simps)
  show "length (encode_group bs) = 8" using len m by (simp add: enc)
  show "set (encode_group bs) \<inter> {CHR 0x0D, CHR 0x0A} = {}"
    unfolding enc using lt alphabet_char by fastforce
qed

lemma decode_encode_bytes:
  "\<forall>b \<in> set bs. b < 256 \<Longrightarrow>
   decode_bytes (encode_bytes bs) = Some bs \<and> set (encode_bytes bs) \<inter> {CHR 0x0D, CHR 0x0A} = {}"
proof (induction bs rule: encode_bytes.induct)
  case (1 bs)
  show ?case
  proof (cases "bs = []")
    case True
    then show ?thesis by (simp add: encode_bytes.simps decode_bytes.simps)
  next
    case False
    let ?g = "encode_group (take 5 bs)" and ?r = "encode_bytes (drop 5 bs)"
    have "1 \<le> length (take 5 bs)" "length (take 5 bs) \<le> 5" using False by (simp_all add: Suc_le_eq)
    then have len: "length (take 5 bs) \<in> {1, 2, 3, 4, 5}" unfolding insert_iff empty_iff by presburger
    have lt: "\<forall>b \<in> set (take 5 bs). b < 256" using "1.prems" by (auto dest: in_set_takeD)
    note g = decode_encode_group [OF len lt]
    have r: "decode_bytes ?r = Some (drop 5 bs)" "set ?r \<inter> {CHR 0x0D, CHR 0x0A} = {}"
      using "1.IH" [OF False] "1.prems" by (auto dest: in_set_dropD)
    have enc: "encode_bytes bs = ?g @ ?r" using False by (simp add: encode_bytes.simps [of bs])
    have short: "?r = []" if "length (take 5 bs) < 5" using that by (simp add: encode_bytes.simps)
    have "decode_bytes (?g @ ?r) = Some (take 5 bs @ drop 5 bs)"
      using g(1,2) r(1) short by (subst decode_bytes.simps) (auto simp: Let_def)
    then show ?thesis using g(3) r(2) enc by auto
  qed
qed

text \<open>Decoding what the encoder produced gives the text back, whatever its length and bytes.\<close>

lemma decode_encode: "DecodeString (EncodeToString s) = Some s"
proof -
  have "\<forall>b \<in> set (map of_char s :: nat list). b < 256" by auto
  note d = decode_encode_bytes [OF this]
  then have "filter (\<lambda>c. c \<noteq> CHR 0x0D \<and> c \<noteq> CHR 0x0A) (EncodeToString s) = EncodeToString s"
    by (auto simp: EncodeToString_def filter_id_conv)
  then show ?thesis using d by (simp add: DecodeString_def EncodeToString_def comp_def)
qed

lemma EncodeToString_inject [simp]: "EncodeToString s = EncodeToString t \<longleftrightarrow> s = t"
  by (metis decode_encode option.inject)

end
