(* ===== verification/Paxos_Servers.thy ===== *)
theory Paxos_Servers
  imports Sockets
begin

text \<open>
  The Paxos peer of \<^verbatim>\<open>src/paxos\<close> and the servers built around one: \<^verbatim>\<open>src/kvpaxos\<close>,
  \<^verbatim>\<open>src/paxos-shardmaster\<close> and \<^verbatim>\<open>src/paxos-shardkv\<close>. The agreement protocol and the request handlers
  are not implemented in this repository: \<open>Start\<close> and \<open>Done\<close> do nothing, \<open>Max\<close> and \<open>Min\<close> return zero,
  and every instance stays pending. What is there is the life cycle, the accept loop with the
  simulated losses, and the shutdown that also stops the Paxos peer of a server.
\<close>

subsection \<open>A Paxos peer\<close>

datatype Fate = Decided | Pending | Forgotten

text \<open>\<open>has_listener\<close> is whether \<open>px.l\<close> is set: only a peer that was given no RPC server has one.\<close>

record Paxos = Sock +
  has_listener :: bool
  rpcCount :: "32 word"
  px_peers :: "string list"
  px_me :: int

definition px_Start :: "int \<Rightarrow> 'v \<Rightarrow> Paxos \<Rightarrow> Paxos" where
  "px_Start sq v px = px"

definition px_Done :: "int \<Rightarrow> Paxos \<Rightarrow> Paxos" where
  "px_Done sq px = px"

definition px_Max :: "Paxos \<Rightarrow> int" where
  "px_Max px = 0"

definition px_Min :: "Paxos \<Rightarrow> int" where
  "px_Min px = 0"

definition px_Status :: "int \<Rightarrow> Paxos \<Rightarrow> Fate \<times> 'v option" where
  "px_Status sq px = (Pending, None)"

definition px_Kill :: "Paxos \<Rightarrow> Paxos" where
  "px_Kill px =
     (let px1 = px\<lparr>dead := 1\<rparr> in if has_listener px1 then px1\<lparr>listening := False\<rparr> else px1)"

definition px_isdead :: "Paxos \<Rightarrow> bool" where
  "px_isdead = isdead"

definition px_setunreliable :: "bool \<Rightarrow> Paxos \<Rightarrow> Paxos" where
  "px_setunreliable = setunreliable"

definition px_isunreliable :: "Paxos \<Rightarrow> bool" where
  "px_isunreliable = isunreliable"

lemmas px_flags = px_isdead_def px_setunreliable_def px_isunreliable_def

text \<open>\<open>Make\<close>; \<open>own\<close> tells whether the caller passed no RPC server, so that the peer listens itself.\<close>

definition px_Make :: "string list \<Rightarrow> int \<Rightarrow> bool \<Rightarrow> Paxos" where
  "px_Make peers i own =
     (let px = \<lparr>listening = False, dead = 0, unreliable = 0, has_listener = False, rpcCount = 0,
                px_peers = peers, px_me = i\<rparr>
      in if \<not> own then px else (listen px)\<lparr>has_listener := True\<rparr>)"

text \<open>The accept loop of a peer counts the requests it serves, and survives a failing \<open>Accept\<close>.\<close>

definition px_accept :: "bool \<Rightarrow> int \<Rightarrow> int \<Rightarrow> Paxos \<Rightarrow> Paxos \<times> action" where
  "px_accept err r1 r2 px =
     (if \<not> err \<and> px_isdead px = False then
        let a = treat r1 r2 (px_isunreliable px)
        in (if a = Discarded then px else px\<lparr>rpcCount := rpcCount px + 1\<rparr>, a)
      else if \<not> err then (px, ClosedDead)
      else (px, AcceptError))"

definition px_call :: "bool \<Rightarrow> 'r option \<Rightarrow> 'r option" where
  "px_call dial res = (if \<not> dial then None else res)"

interpretation px: socket_server px_isdead px_accept px_Kill px_setunreliable px_isunreliable
  by unfold_locales (auto simp: px_Kill_def px_accept_def px_flags sock_defs Let_def)

subsection \<open>The key/value server\<close>

record KVPaxos = Sock +
  kvp_me :: int
  kvp_px :: Paxos

record KVPutAppendArgs =
  kvpKey :: string
  kvpValue :: string
  kvpOp :: string

record KVGetReply =
  kvpErr :: string
  kvpgValue :: string

definition kvp_Get :: "string \<Rightarrow> KVPaxos \<Rightarrow> KVPaxos \<times> KVGetReply" where
  "kvp_Get key kv = (kv, \<lparr>kvpErr = '''', kvpgValue = ''''\<rparr>)"

definition kvp_PutAppend :: "KVPutAppendArgs \<Rightarrow> KVPaxos \<Rightarrow> KVPaxos \<times> string" where
  "kvp_PutAppend args kv = (kv, '''')"

definition kvp_kill :: "KVPaxos \<Rightarrow> KVPaxos" where
  "kvp_kill kv = (kill kv)\<lparr>kvp_px := px_Kill (kvp_px kv)\<rparr>"

definition kvp_isdead :: "KVPaxos \<Rightarrow> bool" where
  "kvp_isdead = isdead"

definition kvp_setunreliable :: "bool \<Rightarrow> KVPaxos \<Rightarrow> KVPaxos" where
  "kvp_setunreliable = setunreliable"

definition kvp_isunreliable :: "KVPaxos \<Rightarrow> bool" where
  "kvp_isunreliable = isunreliable"

lemmas kvp_flags = kvp_isdead_def kvp_setunreliable_def kvp_isunreliable_def

definition kvp_StartServer :: "string list \<Rightarrow> int \<Rightarrow> KVPaxos" where
  "kvp_StartServer servers i =
     listen \<lparr>listening = False, dead = 0, unreliable = 0, kvp_me = i, kvp_px = px_Make servers i False\<rparr>"

definition kvp_accept :: "bool \<Rightarrow> int \<Rightarrow> int \<Rightarrow> KVPaxos \<Rightarrow> KVPaxos \<times> action" where
  "kvp_accept = accept_turn kvp_kill"

lemma kvp_px_frame [simp]: "dead (s\<lparr>kvp_px := p\<rparr>) = dead s"
  by (cases s) simp

lemma kvp_kill_dead: "isdead (kvp_kill s)" "isdead (kvp_px (kvp_kill s))"
  unfolding kvp_kill_def by (simp_all add: isdead_def) (simp_all add: kill_def px.dead_die [unfolded px_flags isdead_def])

interpretation kvp: failing_server kvp_isdead kvp_accept kvp_kill kvp_setunreliable kvp_isunreliable
  unfolding kvp_accept_def kvp_flags by (rule accept_turn_server) (rule kvp_kill_dead)

record KVPClerk =
  kvpck_servers :: "string list"

definition kvp_MakeClerk :: "string list \<Rightarrow> KVPClerk" where
  "kvp_MakeClerk servers = \<lparr>kvpck_servers = servers\<rparr>"

definition kvp_call :: "bool \<Rightarrow> 'r option \<Rightarrow> 'r option" where
  "kvp_call dial res = (if \<not> dial then None else res)"

definition kvpck_Get :: "string \<Rightarrow> KVPClerk \<Rightarrow> string" where
  "kvpck_Get key ck = ''''"

definition kvpck_PutAppend :: "string \<Rightarrow> string \<Rightarrow> string \<Rightarrow> KVPClerk \<Rightarrow> KVPClerk" where
  "kvpck_PutAppend key val op ck = ck"

definition kvpck_Put :: "string \<Rightarrow> string \<Rightarrow> KVPClerk \<Rightarrow> KVPClerk" where
  "kvpck_Put key val ck = kvpck_PutAppend key val ''Put'' ck"

definition kvpck_Append :: "string \<Rightarrow> string \<Rightarrow> KVPClerk \<Rightarrow> KVPClerk" where
  "kvpck_Append key val ck = kvpck_PutAppend key val ''Append'' ck"

subsection \<open>The shard master\<close>

definition NShards :: nat where "NShards = 10"

record PConfig =
  pNum :: int
  pShards :: "int list"
  pGroups :: "int \<rightharpoonup> string list"

record PJoinArgs =
  pjGID :: int
  pjServers :: "string list"

record PLeaveArgs =
  plGID :: int

record PMoveArgs =
  pmShard :: int
  pmGID :: int

record PQueryArgs =
  pqNum :: int

record PQueryReply =
  pqConfig :: PConfig

record PShardMaster = Sock +
  psm_me :: int
  psm_px :: Paxos
  pconfigs :: "PConfig list"

definition psm_Join :: "PJoinArgs \<Rightarrow> PShardMaster \<Rightarrow> PShardMaster" where
  "psm_Join args sm = sm"

definition psm_Leave :: "PLeaveArgs \<Rightarrow> PShardMaster \<Rightarrow> PShardMaster" where
  "psm_Leave args sm = sm"

definition psm_Move :: "PMoveArgs \<Rightarrow> PShardMaster \<Rightarrow> PShardMaster" where
  "psm_Move args sm = sm"

definition pconfig0 :: PConfig where
  "pconfig0 = \<lparr>pNum = 0, pShards = replicate NShards 0, pGroups = Map.empty\<rparr>"

definition psm_Query :: "PQueryArgs \<Rightarrow> PShardMaster \<Rightarrow> PShardMaster \<times> PQueryReply" where
  "psm_Query args sm = (sm, \<lparr>pqConfig = pconfig0\<rparr>)"

definition psm_Kill :: "PShardMaster \<Rightarrow> PShardMaster" where
  "psm_Kill sm = (kill sm)\<lparr>psm_px := px_Kill (psm_px sm)\<rparr>"

definition psm_isdead :: "PShardMaster \<Rightarrow> bool" where
  "psm_isdead = isdead"

definition psm_setunreliable :: "bool \<Rightarrow> PShardMaster \<Rightarrow> PShardMaster" where
  "psm_setunreliable = setunreliable"

definition psm_isunreliable :: "PShardMaster \<Rightarrow> bool" where
  "psm_isunreliable = isunreliable"

lemmas psm_flags = psm_isdead_def psm_setunreliable_def psm_isunreliable_def

definition psm_StartServer :: "string list \<Rightarrow> int \<Rightarrow> PShardMaster" where
  "psm_StartServer servers i =
     listen \<lparr>listening = False, dead = 0, unreliable = 0, psm_me = i, psm_px = px_Make servers i False,
             pconfigs = [pconfig0]\<rparr>"

definition psm_accept :: "bool \<Rightarrow> int \<Rightarrow> int \<Rightarrow> PShardMaster \<Rightarrow> PShardMaster \<times> action" where
  "psm_accept = accept_turn psm_Kill"

lemma psm_px_frame [simp]: "dead (s\<lparr>psm_px := p\<rparr>) = dead s"
  by (cases s) simp

lemma psm_Kill_dead: "isdead (psm_Kill s)" "isdead (psm_px (psm_Kill s))"
  unfolding psm_Kill_def by (simp_all add: isdead_def) (simp_all add: kill_def px.dead_die [unfolded px_flags isdead_def])

interpretation psm: failing_server psm_isdead psm_accept psm_Kill psm_setunreliable psm_isunreliable
  unfolding psm_accept_def psm_flags by (rule accept_turn_server) (rule psm_Kill_dead)

subsection \<open>The sharded key/value server\<close>

record PShardKV = Sock +
  pkv_me :: int
  pkv_sm :: "string list"
  pkv_px :: Paxos
  pkv_gid :: int

definition pkv_Get :: "string \<Rightarrow> PShardKV \<Rightarrow> PShardKV \<times> string \<times> string" where
  "pkv_Get key kv = (kv, '''', '''')"

definition pkv_PutAppend :: "KVPutAppendArgs \<Rightarrow> PShardKV \<Rightarrow> PShardKV \<times> string" where
  "pkv_PutAppend args kv = (kv, '''')"

definition pkv_tick :: "PShardKV \<Rightarrow> PShardKV" where
  "pkv_tick kv = kv"

definition pkv_kill :: "PShardKV \<Rightarrow> PShardKV" where
  "pkv_kill kv = (kill kv)\<lparr>pkv_px := px_Kill (pkv_px kv)\<rparr>"

definition pkv_isdead :: "PShardKV \<Rightarrow> bool" where
  "pkv_isdead = isdead"

definition pkv_Setunreliable :: "bool \<Rightarrow> PShardKV \<Rightarrow> PShardKV" where
  "pkv_Setunreliable = setunreliable"

definition pkv_isunreliable :: "PShardKV \<Rightarrow> bool" where
  "pkv_isunreliable = isunreliable"

lemmas pkv_flags = pkv_isdead_def pkv_Setunreliable_def pkv_isunreliable_def

definition pkv_StartServer :: "int \<Rightarrow> string list \<Rightarrow> string list \<Rightarrow> int \<Rightarrow> PShardKV" where
  "pkv_StartServer gid shardmasters servers i =
     listen \<lparr>listening = False, dead = 0, unreliable = 0, pkv_me = i, pkv_sm = shardmasters,
             pkv_px = px_Make servers i False, pkv_gid = gid\<rparr>"

definition pkv_accept :: "bool \<Rightarrow> int \<Rightarrow> int \<Rightarrow> PShardKV \<Rightarrow> PShardKV \<times> action" where
  "pkv_accept = accept_turn pkv_kill"

definition pkv_ticks :: "(PShardKV \<Rightarrow> PShardKV) list \<Rightarrow> PShardKV \<Rightarrow> nat \<times> PShardKV" where
  "pkv_ticks = tick_loop pkv_isdead pkv_tick"

lemma pkv_px_frame [simp]: "dead (s\<lparr>pkv_px := p\<rparr>) = dead s"
  by (cases s) simp

lemma pkv_kill_dead: "isdead (pkv_kill s)" "isdead (pkv_px (pkv_kill s))"
  unfolding pkv_kill_def by (simp_all add: isdead_def) (simp_all add: kill_def px.dead_die [unfolded px_flags isdead_def])

interpretation pkv: failing_server pkv_isdead pkv_accept pkv_kill pkv_Setunreliable pkv_isunreliable
  unfolding pkv_accept_def pkv_flags by (rule accept_turn_server) (rule pkv_kill_dead)

subsection \<open>Shutdown and delivery\<close>

text \<open>
  A killed server serves nothing. Whatever connections arrive, however the testers switch the
  reliability, and whatever happened before, once a key/value server has been killed every further
  connection is closed unserved, and its Paxos peer is dead too.
\<close>
theorem killed_server_serves_nothing:
  "\<exists>as bs. serve_loop kvp_isdead kvp_accept kvp_kill kvp_setunreliable (evs @ KillServer # evs') kv = as @ bs \<and>
     length as \<le> length evs \<and> set bs \<subseteq> {ClosedDead, AcceptError} \<and>
     kvp_isdead (kvp_kill kv) \<and> px_isdead (kvp_px (kvp_kill kv))"
  using kvp.kill_stops [of evs evs' kv] by (simp add: kvp_kill_dead kvp_flags px_flags)

text \<open>
  A reliable live Paxos peer serves every connection with its reply, whatever random numbers it
  draws.
\<close>
lemma reliable_peer_serves_all:
  assumes "\<not> px_isdead px" and "\<not> px_isunreliable px"
  shows "serve_loop px_isdead px_accept px_Kill px_setunreliable (map (\<lambda>(r1, r2). Arrive r1 r2) rs) px =
    replicate (length rs) Served"
  using assms by (rule px.reliable_serves)

lemma killed_server_ticks_no_more: "fst (pkv_ticks (fs @ pkv_kill # fs') kv) \<le> length fs + 1"
  unfolding pkv_ticks_def by (rule pkv.ticks_end)

end
