(* ===== verification/DisKV.thy ===== *)
theory DisKV
  imports Base32 Paxos_Servers "HOL-Library.AList"
begin

text \<open>
  The persistent key/value server, \<^verbatim>\<open>src/diskv/server.go\<close>: the functions that keep each shard in a
  directory with one file per key, and the server around them, whose request handlers are empty.

  A file system maps the name of a directory to its table of files. The code builds a path from the
  directory that \<open>shardDir\<close> returns and a file name; here the two stay apart. A fatal error is
  \<open>None\<close>; the error results of \<open>fileGet\<close> and \<open>filePut\<close> are values. Of the errors of the file system only those of
  missing or existing names occur: no write fails for the length of a name, for lack of space or for permissions, and
  \<open>fileReplaceShard\<close> would ignore such a failure. What is proved of the files is proved for runs without them.
\<close>

type_synonym files = "(string \<times> string) list"
type_synonym fs = "string \<rightharpoonup> files"

subsection \<open>What the code uses of the file system\<close>

definition Mkdir :: "string \<Rightarrow> string \<Rightarrow> fs \<Rightarrow> fs option" where
  "Mkdir parent d fs = (if fs parent = None \<or> fs d \<noteq> None then None else Some (fs(d \<mapsto> [])))"

definition ReadFile :: "string \<Rightarrow> string \<Rightarrow> fs \<Rightarrow> string option" where
  "ReadFile d n fs = do { tab \<leftarrow> fs d; map_of tab n }"

definition WriteFile :: "string \<Rightarrow> string \<Rightarrow> string \<Rightarrow> fs \<Rightarrow> fs option" where
  "WriteFile d n content fs = do { tab \<leftarrow> fs d; Some (fs(d \<mapsto> AList.update n content tab)) }"

definition Rename :: "string \<Rightarrow> string \<Rightarrow> string \<Rightarrow> fs \<Rightarrow> fs option" where
  "Rename d n n' fs =
     do { tab \<leftarrow> fs d;
          c \<leftarrow> map_of tab n;
          Some (fs(d \<mapsto> AList.update n' c (AList.delete n tab))) }"

definition ReadDir :: "string \<Rightarrow> fs \<Rightarrow> string list option" where
  "ReadDir d fs = map_option (map fst) (fs d)"

definition RemoveAll :: "string \<Rightarrow> fs \<Rightarrow> fs" where
  "RemoveAll d fs = fs(d := None)"

subsection \<open>The server\<close>

record DisKV = Sock +
  dk_me :: int
  dk_sm :: "string list"
  dk_px :: Paxos
  dk_dir :: string
  dk_gid :: int

definition shard_name :: "DisKV \<Rightarrow> int \<Rightarrow> string" where
  "shard_name kv shard = dk_dir kv @ ''/shard-'' @ Itoa shard @ ''/''"

definition shardDir :: "DisKV \<Rightarrow> int \<Rightarrow> fs \<Rightarrow> (fs \<times> string) option" where
  "shardDir kv shard fs =
     (let d = shard_name kv shard
      in if fs d = None then do { fs' \<leftarrow> Mkdir (dk_dir kv) d fs; Some (fs', d) }
         else Some (fs, d))"

definition encodeKey :: "DisKV \<Rightarrow> string \<Rightarrow> string" where
  "encodeKey kv key = EncodeToString key"

definition decodeKey :: "DisKV \<Rightarrow> string \<Rightarrow> string option" where
  "decodeKey kv filename = DecodeString filename"

definition fileGet :: "DisKV \<Rightarrow> int \<Rightarrow> string \<Rightarrow> fs \<Rightarrow> (fs \<times> string option) option" where
  "fileGet kv shard key fs =
     do { (fs1, d) \<leftarrow> shardDir kv shard fs;
          Some (fs1, ReadFile d (''key-'' @ encodeKey kv key) fs1) }"

text \<open>\<open>filePut\<close> in two halves: up to the write of the temporary file, and the rename.\<close>

definition filePut_temp :: "DisKV \<Rightarrow> int \<Rightarrow> string \<Rightarrow> string \<Rightarrow> fs \<Rightarrow> (fs \<times> string \<times> string \<times> bool) option" where
  "filePut_temp kv shard key content fs =
     do { (fs1, d1) \<leftarrow> shardDir kv shard fs;
          let fullname = ''key-'' @ encodeKey kv key;
          (fs2, d2) \<leftarrow> shardDir kv shard fs1;
          let tempname = ''temp-'' @ encodeKey kv key;
          (case WriteFile d2 tempname content fs2 of
             None \<Rightarrow> Some (fs2, d2, tempname, False)
           | Some fs3 \<Rightarrow> Some (fs3, d2, tempname, True)) }"

text \<open>The Boolean result is the absence of an error.\<close>

definition filePut :: "DisKV \<Rightarrow> int \<Rightarrow> string \<Rightarrow> string \<Rightarrow> fs \<Rightarrow> (fs \<times> bool) option" where
  "filePut kv shard key content fs =
     do { (fs3, d, tempname, written) \<leftarrow> filePut_temp kv shard key content fs;
          (if \<not> written then Some (fs3, False)
           else case Rename d tempname (''key-'' @ encodeKey kv key) fs3 of
                  None \<Rightarrow> Some (fs3, False)
                | Some fs4 \<Rightarrow> Some (fs4, True)) }"

fun read_files :: "DisKV \<Rightarrow> int \<Rightarrow> string list \<Rightarrow> fs \<Rightarrow> (string \<rightharpoonup> string) \<Rightarrow> (fs \<times> (string \<rightharpoonup> string)) option" where
  "read_files kv shard [] fs m = Some (fs, m)"
| "read_files kv shard (n1 # ns) fs m =
     do { pre \<leftarrow> go_take n1 4;
          if pre = ''key-'' then
            do { rest \<leftarrow> go_drop n1 4;
                 key \<leftarrow> decodeKey kv rest;
                 (fs1, content) \<leftarrow> fileGet kv shard key fs;
                 c \<leftarrow> content;
                 read_files kv shard ns fs1 (m(key \<mapsto> c)) }
          else read_files kv shard ns fs m }"

definition fileReadShard :: "DisKV \<Rightarrow> int \<Rightarrow> fs \<Rightarrow> (fs \<times> (string \<rightharpoonup> string)) option" where
  "fileReadShard kv shard fs =
     do { (fs1, d) \<leftarrow> shardDir kv shard fs;
          names \<leftarrow> ReadDir d fs1;
          read_files kv shard names fs1 Map.empty }"

text \<open>\<open>fileReplaceShard\<close>: the map is the list of its entries, in the order of the iteration.\<close>

fun put_all :: "DisKV \<Rightarrow> int \<Rightarrow> (string \<times> string) list \<Rightarrow> fs \<Rightarrow> fs option" where
  "put_all kv shard [] fs = Some fs"
| "put_all kv shard ((k, v) # m) fs =
     do { (fs1, noerr) \<leftarrow> filePut kv shard k v fs; put_all kv shard m fs1 }"

definition fileReplaceShard :: "DisKV \<Rightarrow> int \<Rightarrow> (string \<times> string) list \<Rightarrow> fs \<Rightarrow> fs option" where
  "fileReplaceShard kv shard m fs =
     do { (fs1, d) \<leftarrow> shardDir kv shard fs;
          put_all kv shard m (RemoveAll d fs1) }"

definition dk_Get :: "string \<Rightarrow> DisKV \<Rightarrow> DisKV \<times> string \<times> string" where
  "dk_Get key kv = (kv, '''', '''')"

definition dk_PutAppend :: "KVPutAppendArgs \<Rightarrow> DisKV \<Rightarrow> DisKV \<times> string" where
  "dk_PutAppend args kv = (kv, '''')"

definition dk_tick :: "DisKV \<Rightarrow> DisKV" where
  "dk_tick kv = kv"

definition dk_kill :: "DisKV \<Rightarrow> DisKV" where
  "dk_kill kv = (kill kv)\<lparr>dk_px := px_Kill (dk_px kv)\<rparr>"

definition dk_isdead :: "DisKV \<Rightarrow> bool" where
  "dk_isdead = isdead"

definition dk_Setunreliable :: "bool \<Rightarrow> DisKV \<Rightarrow> DisKV" where
  "dk_Setunreliable = setunreliable"

definition dk_isunreliable :: "DisKV \<Rightarrow> bool" where
  "dk_isunreliable = isunreliable"

lemmas dk_flags = dk_isdead_def dk_Setunreliable_def dk_isunreliable_def

text \<open>
  \<open>StartServer\<close>: \<open>can addr\<close> tells whether \<open>net.Listen\<close> succeeds on the socket \<open>addr\<close>; if not, the error is fatal, \<open>None\<close>, as is
  an index outside \<open>servers\<close>. The code takes \<open>restart\<close> and does not use it.
\<close>

definition dk_server :: "int \<Rightarrow> string list \<Rightarrow> string list \<Rightarrow> int \<Rightarrow> string \<Rightarrow> DisKV" where
  "dk_server gid shardmasters servers i dir =
     listen \<lparr>listening = False, dead = 0, unreliable = 0, dk_me = i, dk_sm = shardmasters,
             dk_px = px_Make servers i False, dk_dir = dir, dk_gid = gid\<rparr>"

definition dk_StartServer ::
  "(string \<Rightarrow> bool) \<Rightarrow> int \<Rightarrow> string list \<Rightarrow> string list \<Rightarrow> int \<Rightarrow> string \<Rightarrow> bool \<Rightarrow> DisKV option" where
  "dk_StartServer can gid shardmasters servers i dir restart =
     do { addr \<leftarrow> go_nth servers i;
          if can addr then Some (dk_server gid shardmasters servers i dir) else None }"

definition dk_accept :: "bool \<Rightarrow> int \<Rightarrow> int \<Rightarrow> DisKV \<Rightarrow> DisKV \<times> action" where
  "dk_accept = accept_turn dk_kill"

definition dk_ticks :: "(DisKV \<Rightarrow> DisKV) list \<Rightarrow> DisKV \<Rightarrow> nat \<times> DisKV" where
  "dk_ticks = tick_loop dk_isdead dk_tick"

lemma dk_px_frame [simp]: "dead (s\<lparr>dk_px := p\<rparr>) = dead s"
  by (cases s) simp

lemma dk_kill_dead: "isdead (dk_kill s)" "isdead (dk_px (dk_kill s))"
  unfolding dk_kill_def by (simp_all add: isdead_def) (simp_all add: kill_def px.dead_die [unfolded px_flags isdead_def])

interpretation dk: failing_server dk_isdead dk_accept dk_kill dk_Setunreliable dk_isunreliable
  unfolding dk_accept_def dk_flags by (rule accept_turn_server) (rule dk_kill_dead)

lemma killed_diskv_ticks_no_more: "fst (dk_ticks (fs @ dk_kill # fs') kv) \<le> length fs + 1"
  unfolding dk_ticks_def by (rule dk.ticks_end)

subsection \<open>The contents of a shard\<close>

text \<open>The abstraction: what the files of a shard's directory say about each key.\<close>

definition contents :: "DisKV \<Rightarrow> int \<Rightarrow> fs \<Rightarrow> (string \<rightharpoonup> string)" where
  "contents kv shard fs = (\<lambda>key. ReadFile (shard_name kv shard) (''key-'' @ encodeKey kv key) fs)"

definition own_name :: "string \<Rightarrow> bool" where
  "own_name n \<longleftrightarrow> (\<exists>key. n = ''key-'' @ EncodeToString key \<or> n = ''temp-'' @ EncodeToString key)"

text \<open>The data directory exists, and the shard directories hold only files this code has written.\<close>

definition fs_ok :: "DisKV \<Rightarrow> fs \<Rightarrow> bool" where
  "fs_ok kv fs \<longleftrightarrow> fs (dk_dir kv) \<noteq> None \<and>
     (\<forall>shard tab. fs (shard_name kv shard) = Some tab \<longrightarrow> (\<forall>n \<in> fst ` set tab. own_name n))"

lemma shard_name_inject [simp]: "shard_name kv s = shard_name kv t \<longleftrightarrow> s = t"
  by (simp add: shard_name_def)

lemma shard_name_not_dir [simp]: "shard_name kv s \<noteq> dk_dir kv" "dk_dir kv \<noteq> shard_name kv s"
  by (simp_all add: shard_name_def)

lemma shardDir_ok:
  assumes "fs_ok kv fs"
  obtains fs' tab where "shardDir kv shard fs = Some (fs', shard_name kv shard)" "fs_ok kv fs'"
    "fs' (shard_name kv shard) = Some tab" "\<And>s. contents kv s fs' = contents kv s fs"
    "\<And>d. d \<noteq> shard_name kv shard \<Longrightarrow> fs' d = fs d"
proof (cases "fs (shard_name kv shard)")
  case None
  let ?fs = "fs(shard_name kv shard \<mapsto> [])"
  have "fs_ok kv ?fs" using assms by (auto simp: fs_ok_def)
  moreover have "contents kv s ?fs = contents kv s fs" for s
    using None by (auto simp: contents_def ReadFile_def fun_eq_iff)
  ultimately show ?thesis
    using None assms by (intro that [of ?fs "[]"]) (auto simp: shardDir_def Mkdir_def fs_ok_def Let_def)
next
  case (Some tab)
  then show ?thesis using assms by (intro that [of fs tab]) (simp_all add: shardDir_def Let_def)
qed

lemma shardDir_present:
  "fs (shard_name kv shard) = Some tab \<Longrightarrow> shardDir kv shard fs = Some (fs, shard_name kv shard)"
  by (simp add: shardDir_def Let_def)

text \<open>Replacing the table of one directory.\<close>

lemma fs_ok_upd:
  assumes "fs_ok kv fs" and "\<forall>n \<in> fst ` set tab. own_name n"
  shows "fs_ok kv (fs(shard_name kv shard \<mapsto> tab))"
  using assms by (auto simp: fs_ok_def)

lemma contents_upd:
  "contents kv s (fs(shard_name kv shard \<mapsto> tab)) =
     (if s = shard then (\<lambda>key. map_of tab (''key-'' @ EncodeToString key)) else contents kv s fs)"
  by (auto simp: contents_def ReadFile_def encodeKey_def fun_eq_iff)

lemma contents_tab:
  "fs (shard_name kv shard) = Some tab \<Longrightarrow> contents kv shard fs key = map_of tab (''key-'' @ EncodeToString key)"
  by (simp add: contents_def ReadFile_def encodeKey_def)

lemma fs_okD:
  "fs_ok kv fs \<Longrightarrow> fs (shard_name kv shard) = Some tab \<Longrightarrow> n \<in> fst ` set tab \<Longrightarrow> own_name n"
  by (auto simp: fs_ok_def)

lemma filePut_temp_ok:
  assumes "fs_ok kv fs"
  obtains fs3 tab where
    "filePut_temp kv shard key content fs = Some (fs3, shard_name kv shard, ''temp-'' @ EncodeToString key, True)"
    "fs_ok kv fs3" "\<And>s. contents kv s fs3 = contents kv s fs"
    "fs3 (shard_name kv shard) = Some tab" "map_of tab (''temp-'' @ EncodeToString key) = Some content"
proof -
  let ?d = "shard_name kv shard" and ?t = "''temp-'' @ EncodeToString key"
  obtain fs1 tab1 where 1: "shardDir kv shard fs = Some (fs1, ?d)" "fs_ok kv fs1" "fs1 ?d = Some tab1"
    "\<And>s. contents kv s fs1 = contents kv s fs" by (rule shardDir_ok [OF assms, of shard]) blast
  let ?tab = "AList.update ?t content tab1"
  have "filePut_temp kv shard key content fs = Some (fs1(?d \<mapsto> ?tab), ?d, ?t, True)"
    using 1(1,3) by (simp add: filePut_temp_def shardDir_present WriteFile_def encodeKey_def Let_def)
  moreover have "fs_ok kv (fs1(?d \<mapsto> ?tab))"
    using 1(2) fs_okD [OF 1(2,3)] by (intro fs_ok_upd) (auto simp: AList.dom_update own_name_def)
  moreover have "contents kv s (fs1(?d \<mapsto> ?tab)) = contents kv s fs" for s
    using contents_tab [of fs1 kv shard tab1, OF 1(3)] 1(4) [of s] by (auto simp: contents_upd update_conv' fun_eq_iff)
  moreover have "map_of ?tab ?t = Some content" by (simp add: update_conv')
  ultimately show thesis by (intro that [of "fs1(?d \<mapsto> ?tab)" ?tab]) simp_all
qed

lemma filePut_ok:
  assumes "fs_ok kv fs"
  obtains fs4 where "filePut kv shard key content fs = Some (fs4, True)" "fs_ok kv fs4"
    "contents kv shard fs4 = (contents kv shard fs)(key \<mapsto> content)"
    "\<And>s. s \<noteq> shard \<Longrightarrow> contents kv s fs4 = contents kv s fs"
proof -
  let ?d = "shard_name kv shard" and ?t = "''temp-'' @ EncodeToString key" and ?k = "''key-'' @ EncodeToString key"
  obtain fs3 tab where 3: "filePut_temp kv shard key content fs = Some (fs3, ?d, ?t, True)"
    "fs_ok kv fs3" "\<And>s. contents kv s fs3 = contents kv s fs"
    "fs3 ?d = Some tab" "map_of tab ?t = Some content" by (rule filePut_temp_ok [OF assms, of shard key content]) blast
  let ?tab = "AList.update ?k content (AList.delete ?t tab)"
  have "filePut kv shard key content fs = Some (fs3(?d \<mapsto> ?tab), True)"
    using 3(1,4,5) by (simp add: filePut_def Rename_def encodeKey_def)
  moreover have "fs_ok kv (fs3(?d \<mapsto> ?tab))"
    using 3(2) fs_okD [OF 3(2,4)] by (intro fs_ok_upd) (auto simp: AList.dom_update own_name_def AList.delete_eq)
  moreover have "contents kv shard (fs3(?d \<mapsto> ?tab)) = (contents kv shard fs)(key \<mapsto> content)"
    using contents_tab [of fs3 kv shard tab, OF 3(4)] 3(3) [of shard] by (auto simp: contents_upd update_conv' delete_conv' fun_eq_iff)
  moreover have "contents kv s (fs3(?d \<mapsto> ?tab)) = contents kv s fs" if "s \<noteq> shard" for s
    using that 3(3) [of s] by (simp add: contents_upd)
  ultimately show thesis by (intro that)
qed

subsection \<open>Reading and replacing a shard\<close>

lemma own_names_read:
  assumes "\<forall>n \<in> set ns. own_name n" and "fs_ok kv fs" and "fs (shard_name kv shard) = Some tab"
    and "set ns \<subseteq> fst ` set tab"
  shows "\<exists>m'. read_files kv shard ns fs m = Some (fs, m') \<and>
    (\<forall>key. m' key = (if ''key-'' @ EncodeToString key \<in> set ns then contents kv shard fs key else m key))"
  using assms(1,4)
proof (induction ns arbitrary: m)
  case (Cons n ns)
  note tabs = contents_tab [of fs kv shard tab, OF assms(3)]
  from Cons.prems(1) obtain key where "n = ''key-'' @ EncodeToString key \<or> n = ''temp-'' @ EncodeToString key"
    by (auto simp: own_name_def)
  then show ?case
  proof
    assume n: "n = ''key-'' @ EncodeToString key"
    then obtain c where c: "map_of tab n = Some c" using Cons.prems(2) by (metis insert_subset list.simps(15) map_of_eq_None_iff option.exhaust)
    have "fileGet kv shard key fs = Some (fs, Some c)"
      using assms(3) c n by (simp add: fileGet_def shardDir_present ReadFile_def encodeKey_def)
    then have eq: "read_files kv shard (n # ns) fs m = read_files kv shard ns fs (m(key \<mapsto> c))"
      using n by (simp add: go_take_def go_drop_def decodeKey_def decode_encode)
    have rest: "\<forall>n \<in> set ns. own_name n" "set ns \<subseteq> fst ` set tab" using Cons.prems by auto
    obtain m' where m': "read_files kv shard ns fs (m(key \<mapsto> c)) = Some (fs, m')"
      "\<forall>k. m' k = (if ''key-'' @ EncodeToString k \<in> set ns then contents kv shard fs k else (m(key \<mapsto> c)) k)"
      using Cons.IH [OF rest, of "m(key \<mapsto> c)"] by blast
    have "\<forall>k. m' k = (if ''key-'' @ EncodeToString k \<in> set (n # ns) then contents kv shard fs k else m k)"
      using m'(2) c n tabs [of key] by auto
    then show ?thesis unfolding eq using m'(1) by blast
  next
    assume n: "n = ''temp-'' @ EncodeToString key"
    then have "read_files kv shard (n # ns) fs m = read_files kv shard ns fs m" by (simp add: go_take_def)
    then show ?thesis using Cons n by auto
  qed
qed simp

lemma fileReadShard_ok:
  assumes "fs_ok kv fs"
  obtains fs' where "fileReadShard kv shard fs = Some (fs', contents kv shard fs)" "fs_ok kv fs'"
    "\<And>s. contents kv s fs' = contents kv s fs"
proof -
  obtain fs1 tab where 1: "shardDir kv shard fs = Some (fs1, shard_name kv shard)" "fs_ok kv fs1"
    "fs1 (shard_name kv shard) = Some tab" "\<And>s. contents kv s fs1 = contents kv s fs"
    by (rule shardDir_ok [OF assms, of shard]) blast
  have own: "\<forall>n \<in> set (map fst tab). own_name n" using fs_okD [OF 1(2,3)] by auto
  obtain m where m: "read_files kv shard (map fst tab) fs1 Map.empty = Some (fs1, m)"
    "\<forall>key. m key = (if ''key-'' @ EncodeToString key \<in> set (map fst tab) then contents kv shard fs1 key else None)"
    using own_names_read [OF own 1(2,3), of Map.empty] by auto
  have "m key = contents kv shard fs key" for key
    using m(2) contents_tab [of fs1 kv shard tab, OF 1(3), of key] 1(4) [of shard]
    by (metis list.set_map map_of_eq_None_iff)
  then have "m = contents kv shard fs" by blast
  with 1 m(1) show thesis by (intro that [of fs1]) (simp_all add: fileReadShard_def ReadDir_def)
qed

lemma put_all_ok:
  assumes "fs_ok kv fs"
  shows "\<exists>fs'. put_all kv shard m fs = Some fs' \<and> fs_ok kv fs' \<and>
    contents kv shard fs' = fold (\<lambda>(k, v) f. f(k \<mapsto> v)) m (contents kv shard fs) \<and>
    (\<forall>s. s \<noteq> shard \<longrightarrow> contents kv s fs' = contents kv s fs)"
  using assms
proof (induction m arbitrary: fs)
  case (Cons kv' m)
  obtain k v where kv': "kv' = (k, v)" by fastforce
  obtain fs1 where 1: "filePut kv shard k v fs = Some (fs1, True)" "fs_ok kv fs1"
    "contents kv shard fs1 = (contents kv shard fs)(k \<mapsto> v)"
    "\<And>s. s \<noteq> shard \<Longrightarrow> contents kv s fs1 = contents kv s fs"
    by (rule filePut_ok [OF Cons.prems, of shard k v]) blast
  from Cons.IH [OF 1(2)] show ?case using 1 kv' by auto
qed simp

lemma RemoveAll_ok:
  assumes "fs_ok kv fs"
  shows "fs_ok kv (RemoveAll (shard_name kv shard) fs)"
    and "contents kv s (RemoveAll (shard_name kv shard) fs) = (if s = shard then Map.empty else contents kv s fs)"
  using assms by (auto simp: RemoveAll_def fs_ok_def contents_def ReadFile_def fun_eq_iff)

lemma fold_upd_map_of: "distinct (map fst m) \<Longrightarrow> fold (\<lambda>(k, v) f. f(k \<mapsto> v)) m f = f ++ map_of m"
proof (induction m arbitrary: f)
  case (Cons kv m)
  obtain k v where "kv = (k, v)" by fastforce
  with Cons show ?case by (simp add: map_add_upd_left dom_map_of_conv_image_fst del: fun_upd_apply)
qed simp

text \<open>
  Every key can be read back from its file name, and two keys never share a file: decoding what
  \<open>encodeKey\<close> produced gives the key, for keys of any length and with any bytes.
\<close>
theorem key_name_roundtrip:
  "decodeKey kv (encodeKey kv key) = Some key \<and> (encodeKey kv key = encodeKey kv key' \<longleftrightarrow> key = key')"
  by (simp add: decodeKey_def encodeKey_def decode_encode)

text \<open>
  A write of a key's file is read back, and disturbs no other key and no other shard. It reports
  no error and does not stop the server.
\<close>
theorem file_put_get:
  assumes "fs_ok kv fs"
  shows "\<exists>fs'. filePut kv shard key content fs = Some (fs', True) \<and> fs_ok kv fs' \<and>
    (\<forall>s k. \<exists>fs''. fileGet kv s k fs' =
       Some (fs'', if s = shard \<and> k = key then Some content else contents kv s fs k))"
proof -
  obtain fs' where 1: "filePut kv shard key content fs = Some (fs', True)" "fs_ok kv fs'"
    "contents kv shard fs' = (contents kv shard fs)(key \<mapsto> content)"
    "\<And>s. s \<noteq> shard \<Longrightarrow> contents kv s fs' = contents kv s fs"
    by (rule filePut_ok [OF assms, of shard key content]) blast
  have "\<exists>fs''. fileGet kv s k fs' = Some (fs'', contents kv s fs' k)" for s k
  proof -
    obtain fs2 where 2: "shardDir kv s fs' = Some (fs2, shard_name kv s)" "contents kv s fs2 = contents kv s fs'"
      by (rule shardDir_ok [OF 1(2), of s]) blast
    have "fileGet kv s k fs' = Some (fs2, contents kv s fs2 k)"
      using 2(1) by (simp add: fileGet_def contents_def)
    then show ?thesis using 2(2) by simp
  qed
  moreover have "contents kv s fs' k = (if s = shard \<and> k = key then Some content else contents kv s fs k)" for s k
    using 1(3,4) by (cases "s = shard") auto
  ultimately show ?thesis using 1(1,2) by auto
qed

definition demo_kv :: DisKV where
  "demo_kv = the (dk_StartServer (\<lambda>addr. True) 1 [] [''s''] 0 ''/d'' False)"

definition demo_fs :: fs where
  "demo_fs = [''/d'' \<mapsto> []]"

lemma demo_ok: "fs_ok demo_kv demo_fs"
  by (auto simp: fs_ok_def demo_fs_def demo_kv_def dk_StartServer_def dk_server_def go_nth_def listen_def shard_name_def)

theorem file_put_get_witness:
  "\<exists>fs' fs''. filePut demo_kv 3 ''k/1'' ''v'' demo_fs = Some (fs', True) \<and> fileGet demo_kv 3 ''k/1'' fs' = Some (fs'', Some ''v'')"
proof -
  obtain fs' where "filePut demo_kv 3 ''k/1'' ''v'' demo_fs = Some (fs', True)"
    and all: "\<forall>s k. \<exists>fs''. fileGet demo_kv s k fs' =
      Some (fs'', if s = 3 \<and> k = ''k/1'' then Some ''v'' else contents demo_kv s demo_fs k)"
    using file_put_get [OF demo_ok, of 3 "''k/1''" "''v''"] by blast
  then show ?thesis using all [rule_format, of 3 "''k/1''"] by auto
qed

text \<open>
  C33: a crash in the middle of a write is harmless. After the temporary file has been written and
  before it is renamed, every read of every shard still gives what it gave before the write began.
\<close>
theorem file_put_crash:
  assumes "fs_ok kv fs" and "filePut_temp kv shard key content fs = Some (fs', d, n, b)"
  shows "fs_ok kv fs' \<and> (\<exists>fs''. fileReadShard kv s fs' = Some (fs'', contents kv s fs))"
proof -
  obtain fs3 tab where 3: "filePut_temp kv shard key content fs = Some (fs3, shard_name kv shard, ''temp-'' @ EncodeToString key, True)"
    "fs_ok kv fs3" "\<And>s. contents kv s fs3 = contents kv s fs"
    by (rule filePut_temp_ok [OF assms(1), of shard key content]) blast
  obtain fs4 where "fileReadShard kv s fs3 = Some (fs4, contents kv s fs3)"
    by (rule fileReadShard_ok [OF 3(2), of s]) blast
  then show ?thesis using 3 assms(2) by simp
qed

theorem file_put_crash_witness:
  "\<exists>fs' d n b fs''. filePut_temp demo_kv 3 ''k'' ''v'' demo_fs = Some (fs', d, n, b) \<and>
     fileReadShard demo_kv 3 fs' = Some (fs'', contents demo_kv 3 demo_fs)"
proof -
  obtain fs3 tab where "filePut_temp demo_kv 3 ''k'' ''v'' demo_fs =
      Some (fs3, shard_name demo_kv 3, ''temp-'' @ EncodeToString ''k'', True)"
    by (rule filePut_temp_ok [OF demo_ok, of 3 "''k''" "''v''"]) blast
  with file_put_crash [OF demo_ok this, of 3] show ?thesis by blast
qed

text \<open>
  C34: replacing a shard and reading it gives the new contents, in whatever order the entries are
  written, and leaves the other shards alone.
\<close>
theorem shard_replace_read:
  assumes "fs_ok kv fs" and "distinct (map fst m)"
  shows "\<exists>fs' fs''. fileReplaceShard kv shard m fs = Some fs' \<and>
    fileReadShard kv shard fs' = Some (fs'', map_of m) \<and>
    (\<forall>s. s \<noteq> shard \<longrightarrow> contents kv s fs' = contents kv s fs)"
proof -
  obtain fs1 tab where 1: "shardDir kv shard fs = Some (fs1, shard_name kv shard)" "fs_ok kv fs1"
    "\<And>s. contents kv s fs1 = contents kv s fs" by (rule shardDir_ok [OF assms(1), of shard]) blast
  let ?fs = "RemoveAll (shard_name kv shard) fs1"
  obtain fs2 where 2: "put_all kv shard m ?fs = Some fs2" "fs_ok kv fs2"
    "contents kv shard fs2 = fold (\<lambda>(k, v) f. f(k \<mapsto> v)) m (contents kv shard ?fs)"
    "\<forall>s. s \<noteq> shard \<longrightarrow> contents kv s fs2 = contents kv s ?fs"
    using put_all_ok [OF RemoveAll_ok(1) [OF 1(2)]] by blast
  have "contents kv shard fs2 = map_of m"
    using 2(3) RemoveAll_ok(2) [OF 1(2)] fold_upd_map_of [OF assms(2)] by simp
  moreover obtain fs3 where "fileReadShard kv shard fs2 = Some (fs3, contents kv shard fs2)"
    by (rule fileReadShard_ok [OF 2(2), of shard]) blast
  ultimately show ?thesis
    using 1 2(1,4) RemoveAll_ok(2) [OF 1(2)] by (simp add: fileReplaceShard_def)
qed

theorem shard_replace_read_witness:
  "\<exists>fs' fs''. fileReplaceShard demo_kv 3 [(''a'', ''1''), (''b'', ''2'')] demo_fs = Some fs' \<and>
     fileReadShard demo_kv 3 fs' = Some (fs'', [''a'' \<mapsto> ''1'', ''b'' \<mapsto> ''2''])"
  using shard_replace_read [OF demo_ok, of "[(''a'', ''1''), (''b'', ''2'')]" 3]
  by (auto simp: fun_upd_twist)

end
