(* ===== verification/MapReduce.thy ===== *)
theory MapReduce
  imports Prelude "HOL-Library.Word" "HOL-Library.AList" "HOL-Library.List_Lexorder" "HOL-Library.Char_ord"
begin

text \<open>
  The MapReduce library, \<^verbatim>\<open>src/mapreduce\<close>: the names of the intermediate files, the hash that
  partitions keys, the master with its merge and clean-up, and the worker loop. \<open>doMap\<close>, \<open>doReduce\<close> and
  the body of \<open>schedule\<close> are empty in this repository.

  A file is the list of the JSON values decoded from it. A fatal error is \<open>None\<close>.
\<close>

subsection \<open>Names and hashing\<close>

datatype jobPhase = mapPhase | reducePhase

record KeyValue =
  Key :: string
  Value :: string

definition reduceName :: "string \<Rightarrow> int \<Rightarrow> int \<Rightarrow> string" where
  "reduceName jobName mapTask reduceTask =
     ''mrtmp.'' @ jobName @ ''-'' @ Itoa mapTask @ ''-'' @ Itoa reduceTask"

definition mergeName :: "string \<Rightarrow> int \<Rightarrow> string" where
  "mergeName jobName reduceTask = ''mrtmp.'' @ jobName @ ''-res-'' @ Itoa reduceTask"

text \<open>\<open>fnv.New32a\<close>: the FNV-1a hash on 32-bit words.\<close>

definition fnv_step :: "32 word \<Rightarrow> char \<Rightarrow> 32 word" where
  "fnv_step h c = (xor h (of_nat (of_char c))) * 16777619"

definition ihash :: "string \<Rightarrow> 32 word" where
  "ihash s = foldl fnv_step 2166136261 s"

text \<open>The map and reduce workers, still to be written: they leave the files as they are.\<close>

type_synonym disk = "string \<rightharpoonup> KeyValue list"

definition doMap :: "string \<Rightarrow> int \<Rightarrow> string \<Rightarrow> int \<Rightarrow> (string \<Rightarrow> string \<Rightarrow> KeyValue list) \<Rightarrow> disk \<Rightarrow> disk" where
  "doMap jobName mapTaskNumber inFile nReduce mapF dsk = dsk"

definition doReduce :: "string \<Rightarrow> int \<Rightarrow> int \<Rightarrow> (string \<Rightarrow> string list \<Rightarrow> string) \<Rightarrow> disk \<Rightarrow> disk" where
  "doReduce jobName reduceTaskNumber nMap reduceF dsk = dsk"

subsection \<open>The master\<close>

record Master =
  address :: string
  registerChannel :: "string list"
  doneChannel :: "bool list"
  workers :: "string list"
  jobName :: string
  mfiles :: "string list"
  nReduce :: nat
  shutdown :: bool
  mlistening :: bool
  stats :: "int list"

definition newMaster :: "string \<Rightarrow> Master" where
  "newMaster master = \<lparr>address = master, registerChannel = [], doneChannel = [], workers = [], jobName = '''',
     mfiles = [], nReduce = 0, shutdown = False, mlistening = False, stats = []\<rparr>"

text \<open>\<open>Register\<close>; the goroutine that sends on \<open>registerChannel\<close> is the new element of the channel.\<close>

definition Register :: "string \<Rightarrow> Master \<Rightarrow> Master" where
  "Register worker mr = mr\<lparr>workers := workers mr @ [worker], registerChannel := registerChannel mr @ [worker]\<rparr>"

text \<open>\<open>killWorkers\<close>: \<open>rpc w\<close> is the number of tasks worker \<open>w\<close> replies, or \<open>None\<close> if the call fails.\<close>

fun kill_each :: "(string \<Rightarrow> int option) \<Rightarrow> string list \<Rightarrow> int list \<Rightarrow> int list" where
  "kill_each rpc [] ntasks = ntasks"
| "kill_each rpc (w # ws) ntasks =
     (case rpc w of None \<Rightarrow> kill_each rpc ws ntasks | Some n \<Rightarrow> kill_each rpc ws (ntasks @ [n]))"

definition killWorkers :: "(string \<Rightarrow> int option) \<Rightarrow> Master \<Rightarrow> int list" where
  "killWorkers rpc mr = kill_each rpc (workers mr) []"

text \<open>\<open>schedule\<close> computes how many tasks there are and returns.\<close>

definition schedule :: "jobPhase \<Rightarrow> Master \<Rightarrow> nat \<times> nat" where
  "schedule phase mr =
     (case phase of
        mapPhase \<Rightarrow> (length (mfiles mr), nReduce mr)
      | reducePhase \<Rightarrow> (nReduce mr, length (mfiles mr)))"

definition Shutdown :: "Master \<Rightarrow> Master option" where
  "Shutdown mr = (if shutdown mr then None else Some (mr\<lparr>shutdown := True, mlistening := False\<rparr>))"

definition startRPCServer :: "Master \<Rightarrow> Master" where
  "startRPCServer mr = mr\<lparr>mlistening := True\<rparr>"

text \<open>
  \<open>call\<close>, where \<open>dial\<close> stands for \<open>rpc.Dial\<close> and \<open>exchange\<close> for \<open>c.Call\<close>; and the shutdown of the master by a
  call to itself, which changes nothing if its server does not answer any more.
\<close>

definition mr_call :: "(string \<Rightarrow> 'c option) \<Rightarrow> ('c \<Rightarrow> string \<Rightarrow> 'a \<Rightarrow> 'r option) \<Rightarrow> string \<Rightarrow> string \<Rightarrow> 'a \<Rightarrow> 'r option" where
  "mr_call dial exchange srv rpcname args =
     (case dial srv of None \<Rightarrow> None | Some c \<Rightarrow> (case exchange c rpcname args of Some reply \<Rightarrow> Some reply | None \<Rightarrow> None))"

definition stopRPCServer :: "Master \<Rightarrow> Master" where
  "stopRPCServer mr = (case Shutdown mr of None \<Rightarrow> mr | Some mr' \<Rightarrow> mr')"

text \<open>One turn of the master's accept loop: whether the connection is served and the loop goes on.\<close>

definition master_accept :: "bool \<Rightarrow> Master \<Rightarrow> bool \<times> bool" where
  "master_accept err mr = (if shutdown mr then (False, False) else if \<not> err then (True, True) else (False, False))"

subsection \<open>Merging\<close>

text \<open>
  The decoded values of the result files, in order; opening a file that does not exist stops the
  program. The table \<open>kvs\<close> is an association list, so that its keys can be enumerated.
\<close>

fun read_results :: "string \<Rightarrow> nat list \<Rightarrow> disk \<Rightarrow> (string \<times> string) list \<Rightarrow> (string \<times> string) list option" where
  "read_results job [] dsk kvs = Some kvs"
| "read_results job (i # is) dsk kvs =
     do { vals \<leftarrow> dsk (mergeName job (int i));
          read_results job is dsk (fold (\<lambda>kv kvs. AList.update (Key kv) (Value kv) kvs) vals kvs) }"

definition print_line :: "string \<Rightarrow> string \<Rightarrow> string" where
  "print_line k v = k @ '': '' @ v @ [CHR 0x0A]"

text \<open>\<open>merge\<close>: the text of the output file \<open>mrtmp.<job>\<close>.\<close>

definition merge :: "disk \<Rightarrow> Master \<Rightarrow> string option" where
  "merge dsk mr =
     do { kvs \<leftarrow> read_results (jobName mr) [0..<nReduce mr] dsk [];
          let keys = sort (map fst kvs);
          Some (concat (map (\<lambda>k. print_line k (zget '''' (map_of kvs) k)) keys)) }"

text \<open>\<open>run\<close> after a job has been given: both phases, the statistics, the merge, the signal.\<close>

definition mr_run ::
  "string \<Rightarrow> string list \<Rightarrow> nat \<Rightarrow> (jobPhase \<Rightarrow> Master \<Rightarrow> disk \<Rightarrow> disk) \<Rightarrow> (Master \<Rightarrow> Master) \<Rightarrow> disk \<Rightarrow> Master \<Rightarrow>
   (Master \<times> disk \<times> string) option" where
  "mr_run job fls nreduce sched finish dsk mr =
     do { let mr1 = mr\<lparr>jobName := job, mfiles := fls, nReduce := nreduce\<rparr>;
          let dsk1 = sched mapPhase mr1 dsk;
          let dsk2 = sched reducePhase mr1 dsk1;
          let mr2 = finish mr1;
          out \<leftarrow> merge dsk2 mr2;
          Some (mr2\<lparr>doneChannel := doneChannel mr2 @ [True]\<rparr>, dsk2, out) }"

text \<open>The phases of \<open>Sequential\<close>, and the two ways to start a job.\<close>

definition seq_schedule ::
  "(string \<Rightarrow> string \<Rightarrow> KeyValue list) \<Rightarrow> (string \<Rightarrow> string list \<Rightarrow> string) \<Rightarrow> jobPhase \<Rightarrow> Master \<Rightarrow> disk \<Rightarrow> disk" where
  "seq_schedule mapF reduceF phase mr dsk =
     (case phase of
        mapPhase \<Rightarrow>
          fold (\<lambda>(i, f) d. doMap (jobName mr) (int i) f (int (nReduce mr)) mapF d) (enumerate 0 (mfiles mr)) dsk
      | reducePhase \<Rightarrow>
          fold (\<lambda>i d. doReduce (jobName mr) (int i) (int (length (mfiles mr))) reduceF d) [0..<nReduce mr] dsk)"

definition Sequential ::
  "string \<Rightarrow> string list \<Rightarrow> nat \<Rightarrow> (string \<Rightarrow> string \<Rightarrow> KeyValue list) \<Rightarrow> (string \<Rightarrow> string list \<Rightarrow> string) \<Rightarrow> disk \<Rightarrow>
   (Master \<times> disk \<times> string) option" where
  "Sequential job fls nreduce mapF reduceF dsk =
     mr_run job fls nreduce (seq_schedule mapF reduceF)
       (\<lambda>mr. mr\<lparr>stats := [int (length fls + nreduce)]\<rparr>) dsk (newMaster ''master'')"

definition Distributed :: "string \<Rightarrow> string list \<Rightarrow> nat \<Rightarrow> string \<Rightarrow> (string \<Rightarrow> int option) \<Rightarrow> disk \<Rightarrow> (Master \<times> disk \<times> string) option" where
  "Distributed job fls nreduce master rpc dsk =
     mr_run job fls nreduce (\<lambda>phase mr d. d)
       (\<lambda>mr. stopRPCServer (mr\<lparr>stats := killWorkers rpc mr\<rparr>))
       dsk (startRPCServer (newMaster master))"

subsection \<open>Cleaning up\<close>

definition removeFile :: "string \<Rightarrow> disk \<Rightarrow> disk option" where
  "removeFile n dsk = (if dsk n = None then None else Some (dsk(n := None)))"

fun remove_all :: "string list \<Rightarrow> disk \<Rightarrow> disk option" where
  "remove_all [] dsk = Some dsk"
| "remove_all (n # ns) dsk = do { d \<leftarrow> removeFile n dsk; remove_all ns d }"

definition cleanup_names :: "Master \<Rightarrow> string list" where
  "cleanup_names mr =
     concat (map (\<lambda>i. map (\<lambda>j. reduceName (jobName mr) (int i) (int j)) [0..<nReduce mr]) [0..<length (mfiles mr)]) @
     map (\<lambda>i. mergeName (jobName mr) (int i)) [0..<nReduce mr] @ [''mrtmp.'' @ jobName mr]"

definition CleanupFiles :: "Master \<Rightarrow> disk \<Rightarrow> disk option" where
  "CleanupFiles mr dsk = remove_all (cleanup_names mr) dsk"

subsection \<open>The worker\<close>

record Worker =
  wname :: string
  nRPC :: int
  nTasks :: int
  wlistening :: bool

record DoTaskArgs =
  dtJobName :: string
  dtFile :: string
  dtPhase :: jobPhase
  dtTaskNumber :: int
  dtNumOtherPhase :: int

definition DoTask ::
  "(string \<Rightarrow> string \<Rightarrow> KeyValue list) \<Rightarrow> (string \<Rightarrow> string list \<Rightarrow> string) \<Rightarrow> DoTaskArgs \<Rightarrow> disk \<Rightarrow> disk" where
  "DoTask mapF reduceF arg dsk =
     (case dtPhase arg of
        mapPhase \<Rightarrow> doMap (dtJobName arg) (dtTaskNumber arg) (dtFile arg) (dtNumOtherPhase arg) mapF dsk
      | reducePhase \<Rightarrow> doReduce (dtJobName arg) (dtTaskNumber arg) (dtNumOtherPhase arg) reduceF dsk)"

definition worker_Shutdown :: "Worker \<Rightarrow> Worker \<times> int" where
  "worker_Shutdown wk = (wk\<lparr>nRPC := 1, nTasks := nTasks wk - 1\<rparr>, nTasks wk)"

text \<open>
  The loop of \<open>RunWorker\<close>: one element per return of \<open>Accept\<close>, \<open>None\<close> for an error, \<open>Some s\<close> for a
  connection, where \<open>s\<close> tells that it carries a \<open>Shutdown\<close> call that is served before the loop counts
  the connection. The result is the worker when the loop has ended or the events are used up, and
  how many connections were served.
\<close>

fun worker_loop :: "bool option list \<Rightarrow> Worker \<Rightarrow> nat \<Rightarrow> Worker \<times> nat" where
  "worker_loop evs wk served =
     (if nRPC wk = 0 then (wk\<lparr>wlistening := False\<rparr>, served)
      else case evs of
             [] \<Rightarrow> (wk, served)
           | None # evs' \<Rightarrow> (wk\<lparr>wlistening := False\<rparr>, served)
           | Some s # evs' \<Rightarrow>
               let wk1 = wk\<lparr>nRPC := nRPC wk - 1\<rparr>;
                   wk2 = (if s then fst (worker_Shutdown wk1) else wk1)
               in worker_loop evs' (wk2\<lparr>nTasks := nTasks wk2 + 1\<rparr>) (served + 1))"

declare worker_loop.simps [simp del]

text \<open>
  \<open>register\<close> calls \<open>Master.Register\<close> at the address of the master; \<open>masters\<close> are the masters that answer, by
  address. If none answers there, the worker only prints an error and runs nevertheless.
\<close>

definition worker_register :: "string \<Rightarrow> Worker \<Rightarrow> (string \<rightharpoonup> Master) \<Rightarrow> (string \<rightharpoonup> Master)" where
  "worker_register master wk masters =
     (case masters master of None \<Rightarrow> masters | Some mr \<Rightarrow> masters(master \<mapsto> Register (wname wk) mr))"

definition RunWorker :: "string \<Rightarrow> string \<Rightarrow> int \<Rightarrow> bool option list \<Rightarrow> (string \<rightharpoonup> Master) \<Rightarrow> (Worker \<times> nat) \<times> (string \<rightharpoonup> Master)" where
  "RunWorker MasterAddress m rpcs evs masters =
     (let wk = \<lparr>wname = m, nRPC = rpcs, nTasks = 0, wlistening = True\<rparr>;
          masters' = worker_register MasterAddress wk masters
      in (worker_loop evs wk 0, masters'))"

subsection \<open>Properties\<close>

lemma ihash_known_value: "ihash ''a'' = 0xE40C292C"
  by code_simp

text \<open>The table that \<open>merge\<close> builds: one entry per key, with the value that came last.\<close>

lemma kvs_update:
  "distinct (map fst kvs) \<Longrightarrow>
   distinct (map fst (fold (\<lambda>kv kvs. AList.update (Key kv) (Value kv) kvs) es kvs)) \<and>
   fst ` set (fold (\<lambda>kv kvs. AList.update (Key kv) (Value kv) kvs) es kvs) = fst ` set kvs \<union> Key ` set es \<and>
   map_of (fold (\<lambda>kv kvs. AList.update (Key kv) (Value kv) kvs) es kvs) k =
     (if k \<in> Key ` set es then Some (Value (last (filter (\<lambda>kv. Key kv = k) es))) else map_of kvs k)"
proof (induction es arbitrary: kvs)
  case (Cons e es)
  have d: "distinct (map fst (AList.update (Key e) (Value e) kvs))" using Cons.prems by (rule distinct_update)
  have "filter (\<lambda>kv. Key kv = k) es \<noteq> [] \<longleftrightarrow> k \<in> Key ` set es" by (auto simp: filter_empty_conv)
  then show ?case using Cons.IH [OF d] by (auto simp: AList.dom_update update_conv')
qed simp

lemma read_results_fold:
  assumes "\<forall>i \<in> set is. dsk (mergeName job (int i)) = Some (vals i)"
  shows "read_results job is dsk kvs =
    Some (fold (\<lambda>kv kvs. AList.update (Key kv) (Value kv) kvs) (concat (map vals is)) kvs)"
  using assms by (induction "is" arbitrary: kvs) simp_all

text \<open>
  C40: the merge. If every reduce task has left its result file, the output has one line for each key
  that occurs in them, sorted by key, with the value that the last entry for the key gives.
\<close>
theorem merge_correct:
  assumes "\<forall>i < nReduce mr. dsk (mergeName (jobName mr) (int i)) = Some (vals i)"
  defines "es \<equiv> concat (map vals [0..<nReduce mr])"
  shows "\<exists>ks. merge dsk mr =
      Some (concat (map (\<lambda>k. print_line k (Value (last (filter (\<lambda>kv. Key kv = k) es)))) ks)) \<and>
    sorted ks \<and> distinct ks \<and> set ks = Key ` set es"
proof -
  let ?kvs = "fold (\<lambda>kv kvs. AList.update (Key kv) (Value kv) kvs) es []"
  note kvs = kvs_update [of "[]" es]
  have rd: "read_results (jobName mr) [0..<nReduce mr] dsk [] = Some ?kvs"
    using assms(1) by (simp add: es_def read_results_fold [where vals = vals])
  have st: "set (sort (map fst ?kvs)) = Key ` set es" using kvs by simp
  have "merge dsk mr = Some (concat (map (\<lambda>k. print_line k (zget '''' (map_of ?kvs) k)) (sort (map fst ?kvs))))"
    by (simp add: merge_def rd)
  also have "map (\<lambda>k. print_line k (zget '''' (map_of ?kvs) k)) (sort (map fst ?kvs)) =
      map (\<lambda>k. print_line k (Value (last (filter (\<lambda>kv. Key kv = k) es)))) (sort (map fst ?kvs))"
    using st kvs by (intro map_cong refl) (simp add: zget_def)
  finally show ?thesis
    using st kvs by (intro exI [of _ "sort (map fst ?kvs)"]) simp
qed

definition wc_master :: Master where
  "wc_master = (newMaster ''m'')\<lparr>jobName := ''wc'', mfiles := [''x''], nReduce := 2\<rparr>"

definition wc_disk :: disk where
  "wc_disk = [mergeName ''wc'' 0 \<mapsto> [\<lparr>Key = ''b'', Value = ''2''\<rparr>], mergeName ''wc'' 1 \<mapsto> [\<lparr>Key = ''a'', Value = ''1''\<rparr>],
     reduceName ''wc'' 0 0 \<mapsto> [], reduceName ''wc'' 0 1 \<mapsto> [], ''mrtmp.wc'' \<mapsto> []]"

theorem merge_correct_witness:
  "\<exists>ks. merge wc_disk wc_master = Some (concat (map (\<lambda>k. print_line k (if k = ''a'' then ''1'' else ''2'')) ks)) \<and>
     sorted ks \<and> distinct ks \<and> set ks = {''a'', ''b''}"
proof -
  let ?vals = "\<lambda>i :: nat. if i = 0 then [\<lparr>Key = ''b'', Value = ''2''\<rparr>] else [\<lparr>Key = ''a'', Value = ''1''\<rparr>]"
  have "\<forall>i < nReduce wc_master. wc_disk (mergeName (jobName wc_master) (int i)) = Some (?vals i)"
    by code_simp
  from merge_correct [OF this] obtain ks where ks: "sorted ks" "distinct ks"
    "set ks = Key ` set (concat (map ?vals [0..<nReduce wc_master]))"
    "merge wc_disk wc_master = Some (concat (map (\<lambda>k. print_line k
       (Value (last (filter (\<lambda>kv. Key kv = k) (concat (map ?vals [0..<nReduce wc_master])))))) ks))"
    by blast
  have es: "concat (map ?vals [0..<nReduce wc_master]) = [\<lparr>Key = ''b'', Value = ''2''\<rparr>, \<lparr>Key = ''a'', Value = ''1''\<rparr>]"
    by (simp add: wc_master_def upt_rec)
  have st: "set ks = {''a'', ''b''}" using ks(3) unfolding es by auto
  have eq: "map (\<lambda>k. print_line k (Value (last (filter (\<lambda>kv. Key kv = k) [\<lparr>Key = ''b'', Value = ''2''\<rparr>, \<lparr>Key = ''a'', Value = ''1''\<rparr>])))) ks =
      map (\<lambda>k. print_line k (if k = ''a'' then ''1'' else ''2'')) ks"
    using st by (intro map_cong refl) auto
  have "merge wc_disk wc_master = Some (concat (map (\<lambda>k. print_line k (if k = ''a'' then ''1'' else ''2'')) ks))"
    by (simp only: ks(4) [unfolded es] eq)
  then show ?thesis using ks(1,2) st by blast
qed

subsection \<open>File names\<close>

lemma reduceName_inject:
  "0 \<le> i \<Longrightarrow> 0 \<le> i' \<Longrightarrow> reduceName job i j = reduceName job i' j' \<longleftrightarrow> i = i' \<and> j = j'"
  by (simp add: reduceName_def append_sep_inject)

lemma mergeName_inject [simp]: "mergeName job i = mergeName job i' \<longleftrightarrow> i = i'"
  by (simp add: mergeName_def)

lemma reduce_not_merge:
  assumes "0 \<le> i"
  shows "reduceName job i j \<noteq> mergeName job k"
proof
  assume "reduceName job i j = mergeName job k"
  then have "Itoa i @ CHR ''-'' # Itoa j = ''res'' @ CHR ''-'' # Itoa k"
    by (simp add: reduceName_def mergeName_def)
  then have "Itoa i = ''res''" using assms by (subst (asm) append_sep_inject) simp_all
  then show False using Itoa_chars [of "CHR ''r''" i] by simp
qed

lemma final_not_tmp: "''mrtmp.'' @ job \<noteq> mergeName job k" "''mrtmp.'' @ job \<noteq> reduceName job i j"
  by (simp_all add: mergeName_def reduceName_def)

lemma cleanup_names_distinct: "distinct (cleanup_names mr)"
proof -
  let ?r = "\<lambda>i j. reduceName (jobName mr) (int i) (int j)"
  have "distinct (concat (map (\<lambda>i. map (?r i) [0..<nReduce mr]) is))" if "distinct is" for "is"
    using that by (induction "is") (auto simp: distinct_map inj_on_def reduceName_inject)
  moreover have "distinct (map (\<lambda>i. mergeName (jobName mr) (int i)) [0..<nReduce mr])"
    by (simp add: distinct_map inj_on_def)
  moreover have "x \<notin> set (map (\<lambda>i. mergeName (jobName mr) (int i)) [0..<nReduce mr] @ [''mrtmp.'' @ jobName mr])"
    if x: "x \<in> set (concat (map (\<lambda>i. map (?r i) [0..<nReduce mr]) [0..<length (mfiles mr)]))" for x
  proof -
    obtain i j where "x = ?r i j" using x by auto
    then have "x \<noteq> mergeName (jobName mr) k" for k by (simp add: reduce_not_merge)
    moreover have "x \<noteq> ''mrtmp.'' @ jobName mr" using \<open>x = ?r i j\<close> by (simp add: reduceName_def)
    ultimately show ?thesis by auto
  qed
  moreover have "''mrtmp.'' @ jobName mr \<notin> set (map (\<lambda>i. mergeName (jobName mr) (int i)) [0..<nReduce mr])"
    using final_not_tmp(1) [of "jobName mr"] by auto
  ultimately show ?thesis unfolding cleanup_names_def distinct_append by auto
qed

lemma remove_all_ok:
  "distinct ns \<Longrightarrow> \<forall>n \<in> set ns. dsk n \<noteq> None \<Longrightarrow>
   remove_all ns dsk = Some (\<lambda>n. if n \<in> set ns then None else dsk n)"
proof (induction ns arbitrary: dsk)
  case (Cons a ns)
  have "remove_all (a # ns) dsk = remove_all ns (dsk(a := None))" using Cons.prems by (auto simp: removeFile_def)
  also have "\<dots> = Some (\<lambda>n. if n \<in> set ns then None else (dsk(a := None)) n)"
    using Cons.prems by (intro Cons.IH) auto
  finally show ?case by (auto simp: fun_eq_iff)
qed simp

text \<open>
  The clean-up. If all intermediate files, the results and the output are there, \<open>CleanupFiles\<close>
  succeeds, removes exactly them, and never tries to remove a file twice: the names of the files are
  pairwise different, whatever the job is called.
\<close>
theorem cleanup_removes_all:
  assumes "\<forall>n \<in> set (cleanup_names mr). dsk n \<noteq> None"
  shows "distinct (cleanup_names mr) \<and>
    CleanupFiles mr dsk = Some (\<lambda>n. if n \<in> set (cleanup_names mr) then None else dsk n)"
  using assms cleanup_names_distinct by (simp add: CleanupFiles_def remove_all_ok)

theorem cleanup_removes_all_witness:
  "CleanupFiles wc_master (wc_disk(''other'' \<mapsto> [])) = Some (\<lambda>n. if n \<in> set (cleanup_names wc_master) then None else (wc_disk(''other'' \<mapsto> [])) n)"
proof -
  have "\<forall>n \<in> set (cleanup_names wc_master). (wc_disk(''other'' \<mapsto> [])) n \<noteq> None"
    by code_simp
  then show ?thesis using cleanup_removes_all by blast
qed

text \<open>
  A worker that was told to serve \<open>n\<close> requests and gets no shutdown serves exactly \<open>n\<close>, counts them,
  and stops listening.
\<close>

lemma worker_serves:
  "nRPC wk = int n \<Longrightarrow>
   worker_loop (replicate n (Some False) @ evs) wk k =
     (wk\<lparr>nRPC := 0, nTasks := nTasks wk + int n, wlistening := False\<rparr>, k + n)"
proof (induction n arbitrary: wk k)
  case 0
  then show ?case by (subst worker_loop.simps) simp
next
  case (Suc n)
  then show ?case by (subst worker_loop.simps) (simp add: Let_def)
qed

text \<open>
  A worker does not stop when it is shut down: \<open>Shutdown\<close> sets \<open>nRPC\<close> to 1 after the loop has counted the
  connection, so the loop waits for one more.
\<close>

lemma worker_after_shutdown:
  assumes "nRPC wk \<noteq> 0"
  shows "wlistening (fst (worker_loop [Some True] wk k)) = wlistening wk"
    and "worker_loop [Some True, Some False] wk k = (wk\<lparr>nRPC := 0, nTasks := nTasks wk + 1, wlistening := False\<rparr>, k + 2)"
proof -
  have *: "worker_loop (Some True # evs) wk k = worker_loop evs (wk\<lparr>nRPC := 1, nTasks := nTasks wk\<rparr>) (k + 1)" for evs
    using assms by (subst worker_loop.simps) (simp add: Let_def worker_Shutdown_def)
  show "wlistening (fst (worker_loop [Some True] wk k)) = wlistening wk"
    by (simp add: * worker_loop.simps [of "[]"])
  have "worker_loop (replicate 1 (Some False) @ []) (wk\<lparr>nRPC := 1, nTasks := nTasks wk\<rparr>) (k + 1) =
      (wk\<lparr>nRPC := 0, nTasks := nTasks wk + 1, wlistening := False\<rparr>, k + 2)"
    by (subst worker_serves) simp_all
  then show "worker_loop [Some True, Some False] wk k = (wk\<lparr>nRPC := 0, nTasks := nTasks wk + 1, wlistening := False\<rparr>, k + 2)"
    by (simp add: *)
qed

text \<open>Workers that start with the address of a running master are registered there in the order they start.\<close>

lemma workers_registered:
  assumes "masters addr = Some mr"
  shows "\<exists>mr'. fold (\<lambda>m. snd \<circ> RunWorker addr m rpcs evs) ms masters addr = Some mr' \<and>
    workers mr' = workers mr @ ms \<and> registerChannel mr' = registerChannel mr @ ms"
  using assms
proof (induction ms arbitrary: masters mr)
  case (Cons m ms)
  have "snd (RunWorker addr m rpcs evs masters) addr = Some (Register m mr)"
    using Cons.prems by (simp add: RunWorker_def worker_register_def)
  from Cons.IH [of "snd (RunWorker addr m rpcs evs masters)", OF this] show ?case by (simp add: Register_def)
qed simp

end
