(* ===== verification/Programs.thy ===== *)
theory Programs
  imports LockService View_PB DisKV MapReduce
begin

text \<open>
  The programs of \<^verbatim>\<open>src/main\<close> that start the servers and clients: \<^verbatim>\<open>diskvd\<close>, \<^verbatim>\<open>lockd\<close>, \<^verbatim>\<open>lockc\<close>, \<^verbatim>\<open>pbd\<close>,
  \<^verbatim>\<open>pbc\<close>, \<^verbatim>\<open>viewd\<close>, and the parsers of numbers that \<^verbatim>\<open>diskvd\<close> uses. A program gets \<open>os.Args\<close>; \<open>Usage\<close> is the
  exit with code 1 after the usage message, \<open>Fatal\<close> the exit after \<open>log.Fatal\<close>, \<open>Runs\<close> what it starts or prints.
\<close>

datatype 'a program = Usage | Fatal | Runs 'a

subsection \<open>\<open>strconv\<close>\<close>

text \<open>
  \<open>ParseInt\<close> in base 10 with 64 bits, and \<open>Atoi\<close>: the value and whether there was no error. After an error the
  value is 0 if the text is not a number, and the nearest 64-bit integer if it is out of range;
  \<open>ParseUint\<close> reports the range as soon as the digits read so far exceed it.
\<close>

datatype num_error = ErrSyntax | ErrRange

fun parse_digits :: "string \<Rightarrow> nat \<Rightarrow> num_error + nat" where
  "parse_digits [] n = Inr n"
| "parse_digits (c # cs) n =
     (if of_char c < (48 :: nat) \<or> (57 :: nat) < of_char c then Inl ErrSyntax
      else let n1 = 10 * n + digit_val c in if n1 \<ge> 2 ^ 64 then Inl ErrRange else parse_digits cs n1)"

definition ParseUint :: "string \<Rightarrow> num_error + nat" where
  "ParseUint s = (if s = [] then Inl ErrSyntax else parse_digits s 0)"

definition ParseInt :: "string \<Rightarrow> int \<times> bool" where
  "ParseInt s =
     (let (neg, ds) = (case s of
          c # cs \<Rightarrow> if c = CHR ''+'' then (False, cs) else if c = CHR ''-'' then (True, cs) else (False, s)
        | [] \<Rightarrow> (False, []))
      in case ParseUint ds of
           Inl ErrSyntax \<Rightarrow> (0, False)
         | Inl ErrRange \<Rightarrow> (if neg then - (2 ^ 63) else 2 ^ 63 - 1, False)
         | Inr un \<Rightarrow>
             if \<not> neg \<and> un \<ge> 2 ^ 63 then (2 ^ 63 - 1, False)
             else if neg \<and> un > 2 ^ 63 then (- (2 ^ 63), False)
             else (if neg then - int un else int un, True))"

definition ParseBool :: "string \<Rightarrow> bool \<times> bool" where
  "ParseBool s =
     (if s \<in> {''1'', ''t'', ''T'', ''true'', ''TRUE'', ''True''} then (True, True)
      else if s \<in> {''0'', ''f'', ''F'', ''false'', ''FALSE'', ''False''} then (False, True)
      else (False, False))"

definition FormatBool :: "bool \<Rightarrow> string" where
  "FormatBool b = (if b then ''true'' else ''false'')"

subsection \<open>\<^verbatim>\<open>diskvd\<close>\<close>

record diskvd_opts =
  o_gid :: int
  o_masters :: "string list"
  o_replicas :: "string list"
  o_me :: int
  o_unreliable :: bool
  o_dir :: string
  o_restart :: bool

definition diskvd_opts0 :: diskvd_opts where
  "diskvd_opts0 = \<lparr>o_gid = -1, o_masters = [], o_replicas = [], o_me = -1, o_unreliable = False, o_dir = '''', o_restart = False\<rparr>"

definition diskvd_option :: "string \<Rightarrow> string \<Rightarrow> diskvd_opts \<Rightarrow> diskvd_opts program" where
  "diskvd_option a0 a1 opts =
     (if a0 = ''-g'' then Runs (opts\<lparr>o_gid := fst (ParseInt a1)\<rparr>)
      else if a0 = ''-m'' then Runs (opts\<lparr>o_masters := o_masters opts @ [a1]\<rparr>)
      else if a0 = ''-s'' then Runs (opts\<lparr>o_replicas := o_replicas opts @ [a1]\<rparr>)
      else if a0 = ''-i'' then Runs (opts\<lparr>o_me := fst (ParseInt a1)\<rparr>)
      else if a0 = ''-u'' then Runs (opts\<lparr>o_unreliable := fst (ParseBool a1)\<rparr>)
      else if a0 = ''-d'' then Runs (opts\<lparr>o_dir := a1\<rparr>)
      else if a0 = ''-r'' then Runs (opts\<lparr>o_restart := fst (ParseBool a1)\<rparr>)
      else Usage)"

text \<open>The loop over \<open>os.Args[1:]\<close>, two at a time; a last argument without a partner is ignored.\<close>

fun diskvd_args :: "string list \<Rightarrow> diskvd_opts \<Rightarrow> diskvd_opts program" where
  "diskvd_args (a0 # a1 # rest) opts =
     (case diskvd_option a0 a1 opts of Usage \<Rightarrow> Usage | Fatal \<Rightarrow> Fatal | Runs opts' \<Rightarrow> diskvd_args rest opts')"
| "diskvd_args _ opts = Runs opts"

definition diskvd_main :: "(string \<Rightarrow> bool) \<Rightarrow> string list \<Rightarrow> DisKV program" where
  "diskvd_main can args =
     (case diskvd_args (drop 1 args) diskvd_opts0 of
        Usage \<Rightarrow> Usage
      | Fatal \<Rightarrow> Fatal
      | Runs opts \<Rightarrow>
          if o_gid opts < 0 \<or> o_me opts < 0 \<or> length (o_masters opts) < 1 \<or> o_me opts \<ge> int (length (o_replicas opts)) \<or>
             o_dir opts = '''' then Usage
          else case dk_StartServer can (o_gid opts) (o_masters opts) (o_replicas opts) (o_me opts) (o_dir opts) (o_restart opts) of
                 None \<Rightarrow> Fatal
               | Some srv \<Rightarrow> Runs (dk_Setunreliable (o_unreliable opts) srv))"

subsection \<open>Lock service\<close>

text \<open>\<open>rpc\<close> is the outcome of a call of the clerk; \<^verbatim>\<open>lockc\<close> prints the answer.\<close>

definition lockd_main :: "string list \<Rightarrow> (LockServer \<times> string) program" where
  "lockd_main args =
     (if length args = 4 \<and> args ! 1 = ''-p'' then Runs (StartServer (args ! 2) (args ! 3) True)
      else if length args = 4 \<and> args ! 1 = ''-b'' then Runs (StartServer (args ! 2) (args ! 3) False)
      else Usage)"

definition lockc_main :: "(string \<Rightarrow> LockArgs \<Rightarrow> LockReply option) \<Rightarrow> string list \<Rightarrow> bool program" where
  "lockc_main rpc args =
     (if length args = 5 then
        let ck = MakeClerk (args ! 2) (args ! 3) in
        if args ! 1 = ''-l'' then Runs (clerk_Lock rpc (args ! 4) ck)
        else if args ! 1 = ''-u'' then Runs (clerk_Unlock (args ! 4) ck)
        else Usage
      else Usage)"

subsection \<open>View service and primary/backup service\<close>

definition viewd_main :: "string list \<Rightarrow> ViewServer program" where
  "viewd_main args = (if length args \<noteq> 2 then Usage else Runs (vs_StartServer (args ! 1)))"

definition pbd_main :: "string list \<Rightarrow> PBServer program" where
  "pbd_main args = (if length args \<noteq> 3 then Usage else Runs (pb_StartServer (args ! 1) (args ! 2)))"

text \<open>\<^verbatim>\<open>pbc\<close> prints the value it got, or nothing after a put.\<close>

definition pbc_main :: "string list \<Rightarrow> string option program" where
  "pbc_main args =
     (if length args = 3 then Runs (Some (pbck_Get (args ! 2) (pb_MakeClerk (args ! 1) '''')))
      else if length args = 4 then
        let ck = pbck_Put (args ! 2) (args ! 3) (pb_MakeClerk (args ! 1) '''') in Runs None
      else Usage)"

subsection \<open>Word count and inverted index\<close>

text \<open>
  \<^verbatim>\<open>wc\<close> and \<^verbatim>\<open>ii\<close> differ in the name of their job only. Their \<open>mapF\<close> and \<open>reduceF\<close> have no body in the repository and are
  arguments here, as are the files, the outcomes of the calls to workers, the connections of a worker, and the
  masters it may reach.
\<close>

datatype mr_program = Message string | MasterRun "(Master \<times> disk \<times> string) option" | WorkerRun "(Worker \<times> nat) \<times> (string \<rightharpoonup> Master)"

definition mr_main ::
  "string \<Rightarrow> (string \<Rightarrow> string \<Rightarrow> KeyValue list) \<Rightarrow> (string \<Rightarrow> string list \<Rightarrow> string) \<Rightarrow> disk \<Rightarrow> (string \<Rightarrow> int option) \<Rightarrow>
   bool option list \<Rightarrow> (string \<rightharpoonup> Master) \<Rightarrow> string list \<Rightarrow> mr_program" where
  "mr_main job mapF reduceF dsk rpc evs masters args =
     (if length args < 4 then Message (args ! 0 @ '': see usage comments in file'')
      else if args ! 1 = ''master'' then
        (if args ! 2 = ''sequential'' then MasterRun (Sequential job (drop 3 args) 3 mapF reduceF dsk)
         else MasterRun (Distributed job (drop 3 args) 3 (args ! 2) rpc dsk))
      else WorkerRun (RunWorker (args ! 2) (args ! 3) 100 evs masters))"

definition wc_main where "wc_main = mr_main ''wcseq''"

definition ii_main where "ii_main = mr_main ''iiseq''"

text \<open>
  \<open>doMap\<close>, \<open>doReduce\<close> and \<open>schedule\<close> are still to be written, so no result files appear: unless they are there before,
  both kinds of master end with the fatal error of \<open>merge\<close>, whatever the two functions are.
\<close>

lemma fold_idle: "(\<And>x. f x d = d) \<Longrightarrow> fold f xs d = d"
  by (induction xs) simp_all

lemma seq_schedule_idle: "seq_schedule mapF reduceF phase mr dsk = dsk"
  by (cases phase) (auto simp: seq_schedule_def doMap_def doReduce_def intro!: fold_idle)

lemma merge_needs_results: "dsk (mergeName (jobName mr) 0) = None \<Longrightarrow> 0 < nReduce mr \<Longrightarrow> merge dsk mr = None"
  by (simp add: merge_def upt_conv_Cons)

lemma mr_main_fails:
  assumes "4 \<le> length args" and "args ! 1 = ''master''" and "dsk (mergeName job 0) = None"
  shows "mr_main job mapF reduceF dsk rpc evs masters args = MasterRun None"
  using assms
  by (simp add: mr_main_def Sequential_def Distributed_def mr_run_def seq_schedule_idle merge_needs_results
      stopRPCServer_def Shutdown_def newMaster_def startRPCServer_def)

subsection \<open>Numbers read back\<close>

lemma parse_digits_eq:
  "\<forall>c \<in> set cs. 48 \<le> (of_char c :: nat) \<and> (of_char c :: nat) < 58 \<Longrightarrow> atoi_nat cs n < 2 ^ 64 \<Longrightarrow> parse_digits cs n = Inr (atoi_nat cs n)"
proof (induction cs arbitrary: n)
  case (Cons c cs)
  have "m \<le> atoi_nat cs m" for m by (induction cs m rule: atoi_nat.induct) auto
  from le_less_trans [OF this] have "10 * n + digit_val c < 2 ^ 64" using Cons.prems(2) by simp
  then show ?case using Cons by (auto simp: Let_def)
qed simp

lemma itoa_nat_nonempty [simp]: "itoa_nat n \<noteq> []"
  by (subst itoa_nat.simps) simp

lemma ParseUint_itoa: "n < 2 ^ 64 \<Longrightarrow> ParseUint (itoa_nat n) = Inr n"
  using itoa_nat_digits by (simp add: ParseUint_def parse_digits_eq atoi_itoa_nat)

text \<open>Numbers survive: \<open>ParseInt\<close> reads what \<open>FormatInt\<close> or \<open>Itoa\<close> wrote, for every 64-bit integer.\<close>

lemma ParseInt_Itoa:
  assumes "- (2 ^ 63) \<le> i" and "i < 2 ^ 63"
  shows "ParseInt (Itoa i) = (i, True)"
proof (cases "i < 0")
  case True
  then have "ParseUint (itoa_nat (nat (- i))) = Inr (nat (- i))" using assms by (intro ParseUint_itoa) simp
  then show ?thesis using True assms by (simp add: Itoa_def ParseInt_def)
next
  case False
  have "ParseUint (itoa_nat (nat i)) = Inr (nat i)" using assms False by (intro ParseUint_itoa) simp
  moreover obtain c cs where c: "itoa_nat (nat i) = c # cs" by (cases "itoa_nat (nat i)") auto
  moreover have "c \<noteq> CHR ''+''" "c \<noteq> CHR ''-''" using itoa_nat_digits [of c "nat i"] c by auto
  ultimately show ?thesis using False assms by (simp add: Itoa_def ParseInt_def)
qed

lemma ParseBool_FormatBool: "ParseBool (FormatBool b) = (b, True)"
  by (simp add: ParseBool_def FormatBool_def)

subsection \<open>The command line of \<^verbatim>\<open>diskvd\<close>\<close>

text \<open>The command the tester of diskv builds to start a replica.\<close>

definition diskvd_command :: "int \<Rightarrow> string list \<Rightarrow> string list \<Rightarrow> nat \<Rightarrow> bool \<Rightarrow> string \<Rightarrow> bool \<Rightarrow> string list" where
  "diskvd_command gid masters replicas i unrel dir restart =
     [''../main/diskvd'', ''-g'', Itoa gid] @ concat (map (\<lambda>m. [''-m'', m]) masters) @ concat (map (\<lambda>s. [''-s'', s]) replicas) @
     [''-i'', Itoa (int i), ''-u'', FormatBool unrel, ''-d'', dir, ''-r'', FormatBool restart]"

lemma diskvd_args_masters:
  "diskvd_args (concat (map (\<lambda>m. [''-m'', m]) ms) @ rest) opts = diskvd_args rest (opts\<lparr>o_masters := o_masters opts @ ms\<rparr>)"
  by (induction ms arbitrary: opts) (simp_all add: diskvd_option_def)

lemma diskvd_args_replicas:
  "diskvd_args (concat (map (\<lambda>s. [''-s'', s]) ss) @ rest) opts = diskvd_args rest (opts\<lparr>o_replicas := o_replicas opts @ ss\<rparr>)"
  by (induction ss arbitrary: opts) (simp_all add: diskvd_option_def)

text \<open>
  C37: the command line is understood. The command that the tester builds for a replica makes \<^verbatim>\<open>diskvd\<close> start exactly
  this server, with the group, the masters, the replicas, the index, the directory and the reliability it was
  given, whatever the strings are, if it can listen on its socket; if it cannot, that is a fatal error.
\<close>
theorem diskvd_roundtrip:
  assumes "0 \<le> gid" and "gid < 2 ^ 63" and "masters \<noteq> []" and "i < length replicas" and "int i < 2 ^ 63" and "dir \<noteq> ''''"
  shows "diskvd_main can (diskvd_command gid masters replicas i unrel dir restart) =
    (if can (replicas ! i) then Runs (dk_Setunreliable unrel (dk_server gid masters replicas (int i) dir)) else Fatal)"
proof -
  have "ParseInt (Itoa gid) = (gid, True)" "ParseInt (Itoa (int i)) = (int i, True)"
    using assms by (simp_all add: ParseInt_Itoa)
  then have "diskvd_args (drop 1 (diskvd_command gid masters replicas i unrel dir restart)) diskvd_opts0 =
    Runs \<lparr>o_gid = gid, o_masters = masters, o_replicas = replicas, o_me = int i, o_unreliable = unrel, o_dir = dir, o_restart = restart\<rparr>"
    by (simp add: diskvd_command_def diskvd_option_def diskvd_args_masters diskvd_args_replicas ParseBool_FormatBool diskvd_opts0_def)
  then show ?thesis using assms by (simp add: diskvd_main_def dk_StartServer_def go_nth_def Suc_le_eq)
qed

theorem diskvd_roundtrip_witness:
  "diskvd_main (\<lambda>addr. addr = ''r1'') (diskvd_command 1001 [''m1''] [''r0'', ''r1''] 1 True ''/tmp/d'' False) =
    Runs (dk_Setunreliable True (dk_server 1001 [''m1''] [''r0'', ''r1''] 1 ''/tmp/d''))"
  using diskvd_roundtrip [of 1001 "[''m1'']" 1 "[''r0'', ''r1'']" "''/tmp/d''" "\<lambda>addr. addr = ''r1''" True False] by simp

text \<open>
  A command line that is accepted, whatever it is, names a valid replica: the index of the server is within
  the list of replicas, so that \<open>StartServer\<close> does not index out of range, and the group is not negative.
\<close>

lemma diskvd_valid:
  assumes "diskvd_main can args = Runs srv"
  shows "0 \<le> dk_me srv \<and> dk_me srv < int (length (px_peers (dk_px srv))) \<and> 0 \<le> dk_gid srv \<and> dk_sm srv \<noteq> [] \<and> dk_dir srv \<noteq> '''' \<and> \<not> isdead srv"
proof -
  obtain opts :: diskvd_opts where "\<not> (o_gid opts < 0 \<or> o_me opts < 0 \<or> length (o_masters opts) < 1 \<or> o_me opts \<ge> int (length (o_replicas opts)) \<or> o_dir opts = '''')"
    "srv = dk_Setunreliable (o_unreliable opts) (dk_server (o_gid opts) (o_masters opts) (o_replicas opts) (o_me opts) (o_dir opts))"
    using assms by (auto simp: diskvd_main_def dk_StartServer_def split: program.splits if_splits option.splits bind_splits)
  then show ?thesis by (auto simp: dk_flags setunreliable_def dk_server_def listen_def px_Make_def isdead_def)
qed

text \<open>Errors of the parsers are ignored: a group that is not a number is taken for group 0, which is accepted.\<close>

lemma diskvd_ignores_errors:
  "diskvd_main (\<lambda>addr. True) [''diskvd'', ''-g'', ''x'', ''-m'', ''m'', ''-s'', ''s'', ''-i'', ''y'', ''-d'', ''d''] =
    Runs (dk_Setunreliable False (dk_server 0 [''m''] [''s''] 0 ''d''))"
proof -
  have "ParseInt ''x'' = (0, False)" "ParseInt ''y'' = (0, False)" by (simp_all add: ParseInt_def ParseUint_def)
  then show ?thesis by (simp add: diskvd_main_def dk_StartServer_def go_nth_def diskvd_option_def diskvd_opts0_def)
qed

text \<open>
  The clerk of \<^verbatim>\<open>lockc\<close> finds the server of \<^verbatim>\<open>lockd\<close>: with the same two ports, \<^verbatim>\<open>lockc -l\<close> asks the server that
  \<^verbatim>\<open>lockd -p\<close> has started, and prints whether the lock was free.
\<close>

lemma lockc_asks_lockd:
  assumes "lockd_main [d, ''-p'', p, b] = Runs (ls0, port)"
    and "\<And>args. rpc port args = Some (snd (Lock args ls))"
  shows "lockc_main rpc [c, ''-l'', p, b, name] = Runs (\<not> zget False (locks ls) name)"
proof -
  have "port = p" using assms(1) by (simp add: lockd_main_def StartServer_def)
  then show ?thesis using assms(2) by (simp add: lockc_main_def clerk_Lock_def MakeClerk_def Lock_def Let_def)
qed

end
