(* ===== verification/Retry.thy ===== *)
theory Retry
  imports Prelude
begin

text \<open>
  The loops of the clerks that try again forever: \<open>for { ... return ... }\<close>. A round gets its number and
  the clerk's state and returns the new state with, if the loop returns, a result; a round that does
  not return itself is \<open>None\<close>, and so is a loop that never ends.
\<close>

partial_function (option) forever :: "(nat \<Rightarrow> 's \<Rightarrow> ('s \<times> 'r option) option) \<Rightarrow> nat \<Rightarrow> 's \<Rightarrow> ('s \<times> 'r) option" where
  "forever step k s =
     do { (s', r) \<leftarrow> step k s;
          (case r of Some v \<Rightarrow> Some (s', v) | None \<Rightarrow> forever step (k + 1) s') }"

text \<open>The first server of a list that gives an answer.\<close>

fun first_some :: "('a \<Rightarrow> 'b option) \<Rightarrow> 'a list \<Rightarrow> 'b option" where
  "first_some f [] = None"
| "first_some f (x # xs) = (case f x of Some y \<Rightarrow> Some y | None \<Rightarrow> first_some f xs)"

lemma first_some_None [simp]: "first_some f xs = None \<longleftrightarrow> (\<forall>x \<in> set xs. f x = None)"
  by (induction xs) (auto split: option.splits)

lemma first_some_Some:
  "first_some f xs = Some y \<Longrightarrow> \<exists>ys x zs. xs = ys @ x # zs \<and> f x = Some y \<and> (\<forall>x' \<in> set ys. f x' = None)"
proof (induction xs)
  case (Cons x xs)
  show ?case
  proof (cases "f x")
    case None
    with Cons obtain ys x' zs where "xs = ys @ x' # zs" "f x' = Some y" "\<forall>x'' \<in> set ys. f x'' = None" by auto
    with None show ?thesis by (intro exI [of _ "x # ys"] exI [of _ x'] exI [of _ zs]) simp
  next
    case (Some z)
    with Cons.prems show ?thesis by (intro exI [of _ "[]"] exI [of _ x] exI [of _ xs]) simp
  qed
qed simp

text \<open>A run of the loop: the states before the rounds, all but the last of which give no result.\<close>

fun tries :: "(nat \<Rightarrow> 's \<Rightarrow> ('s \<times> 'r option) option) \<Rightarrow> nat \<Rightarrow> 's \<Rightarrow> nat \<Rightarrow> 's \<Rightarrow> bool" where
  "tries step k s 0 t \<longleftrightarrow> s = t"
| "tries step k s (Suc m) t \<longleftrightarrow> (\<exists>s'. step k s = Some (s', None) \<and> tries step (k + 1) s' m t)"

lemma forever_returns:
  "tries step k s m t \<Longrightarrow> step (k + m) t = Some (s', Some v) \<Longrightarrow> forever step k s = Some (s', v)"
proof (induction step k s m t rule: tries.induct)
  case (1 step k s t)
  then show ?case by (subst forever.simps) simp
next
  case (2 step k s m t)
  then obtain s1 where s1: "step k s = Some (s1, None)" "tries step (k + 1) s1 m t" by auto
  then have "forever step (k + 1) s1 = Some (s', v)" using 2 by simp
  with s1 show ?case by (subst forever.simps) simp
qed

lemma forever_sound:
  assumes "forever step k s = Some r"
  shows "\<exists>m t. tries step k s m t \<and> step (k + m) t = Some (fst r, Some (snd r))"
proof (rule forever.raw_induct [OF _ assms, of "\<lambda>step k s r. \<exists>m t. tries step k s m t \<and> step (k + m) t = Some (fst r, Some (snd r))"])
  fix f step k s r
  assume IH: "\<And>step k s r. f step k s = Some r \<Longrightarrow> \<exists>m t. tries step k s m t \<and> step (k + m) t = Some (fst r, Some (snd r))"
    and body: "(step k s \<bind> (\<lambda>(s', r). case r of None \<Rightarrow> f step (k + 1) s' | Some v \<Rightarrow> Some (s', v))) = Some r"
  then obtain s1 r1 where st: "step k s = Some (s1, r1)" by (auto split: bind_splits)
  show "\<exists>m t. tries step k s m t \<and> step (k + m) t = Some (fst r, Some (snd r))"
  proof (cases r1)
    case None
    with body st have "f step (k + 1) s1 = Some r" by simp
    from IH [OF this] obtain m t where "tries step (k + 1) s1 m t" "step (k + 1 + m) t = Some (fst r, Some (snd r))" by blast
    with st None show ?thesis by (intro exI [of _ "Suc m"] exI [of _ t]) simp
  next
    case (Some v)
    with body st show ?thesis by (intro exI [of _ 0] exI [of _ s]) auto
  qed
qed

text \<open>
  A step contract: an invariant of the clerk's state that every round keeps, and a property that
  every result has. Then whatever the loop returns has that property.
\<close>

locale retry_contract =
  fixes step :: "nat \<Rightarrow> 's \<Rightarrow> ('s \<times> 'r option) option"
    and inv :: "'s \<Rightarrow> bool"
    and good :: "nat \<Rightarrow> 's \<Rightarrow> 'r \<Rightarrow> bool"
  assumes keeps: "inv s \<Longrightarrow> step k s = Some (s', None) \<Longrightarrow> inv s'"
    and result: "inv s \<Longrightarrow> step k s = Some (s', Some v) \<Longrightarrow> good k s v"
begin

lemma tries_inv: "inv s \<Longrightarrow> tries step k s m t \<Longrightarrow> inv t"
  by (induction m arbitrary: k s) (auto dest: keeps)

lemma forever_good:
  assumes "inv s" and "forever step k s = Some (s', v)"
  shows "\<exists>m t. inv t \<and> good (k + m) t v"
  using forever_sound [OF assms(2)] tries_inv [OF assms(1)] result by fastforce

text \<open>A loop none of whose rounds can have a result never returns.\<close>

lemma forever_never: "inv s \<Longrightarrow> (\<And>k t v. inv t \<Longrightarrow> \<not> good k t v) \<Longrightarrow> forever step k s = None"
  using forever_good by (metis not_Some_eq surj_pair)

end

end
