(* ===== verification/Persister.thy ===== *)
theory Persister
  imports Prelude
begin

text \<open>
  The stable storage of a Raft peer, \<^verbatim>\<open>src/raft/persister.go\<close>: two byte slices, one for Raft's
  own state and one for a service snapshot. The byte type is a parameter; a peer stores the
  stream of values that its gob encoder wrote. Every method runs under the persister's mutex, so
  each one is a single state transformer.
\<close>

record 'b Persister =
  raftstate :: "'b list"
  snapshot :: "'b list"

definition MakePersister :: "'b Persister" where
  "MakePersister = \<lparr>raftstate = [], snapshot = []\<rparr>"

definition Copy :: "'b Persister \<Rightarrow> 'b Persister" where
  "Copy ps = MakePersister\<lparr>raftstate := raftstate ps, snapshot := snapshot ps\<rparr>"

definition SaveRaftState :: "'b Persister \<Rightarrow> 'b list \<Rightarrow> 'b Persister" where
  "SaveRaftState ps data = ps\<lparr>raftstate := data\<rparr>"

definition ReadRaftState :: "'b Persister \<Rightarrow> 'b list" where
  "ReadRaftState ps = raftstate ps"

definition RaftStateSize :: "'b Persister \<Rightarrow> int" where
  "RaftStateSize ps = int (length (raftstate ps))"

definition SaveSnapshot :: "'b Persister \<Rightarrow> 'b list \<Rightarrow> 'b Persister" where
  "SaveSnapshot ps s = ps\<lparr>snapshot := s\<rparr>"

definition ReadSnapshot :: "'b Persister \<Rightarrow> 'b list" where
  "ReadSnapshot ps = snapshot ps"

lemmas Persister_defs = MakePersister_def Copy_def SaveRaftState_def ReadRaftState_def
  RaftStateSize_def SaveSnapshot_def ReadSnapshot_def

subsection \<open>The contract of a stable store\<close>

text \<open>
  What a client of the store relies on: a cell it writes is read back, the other cell is not
  disturbed, and a copy answers every read as the original does. Raft uses the first cell and
  the service above it the second one.
\<close>

locale stable_store =
  fixes fresh :: 's
    and copy :: "'s \<Rightarrow> 's"
    and save_state :: "'s \<Rightarrow> 'b list \<Rightarrow> 's"
    and read_state :: "'s \<Rightarrow> 'b list"
    and save_snap :: "'s \<Rightarrow> 'b list \<Rightarrow> 's"
    and read_snap :: "'s \<Rightarrow> 'b list"
  assumes fresh_state: "read_state fresh = []"
    and fresh_snap: "read_snap fresh = []"
    and state_state: "read_state (save_state s d) = d"
    and state_snap: "read_state (save_snap s d) = read_state s"
    and snap_snap: "read_snap (save_snap s d) = d"
    and snap_state: "read_snap (save_state s d) = read_snap s"
    and copy_state: "read_state (copy s) = read_state s"
    and copy_snap: "read_snap (copy s) = read_snap s"
begin

lemma copy_after_saves:
  "read_state (copy (save_snap (save_state s d) e)) = d"
  "read_snap (copy (save_snap (save_state s d) e)) = e"
  by (simp_all add: copy_state copy_snap state_snap state_state snap_snap)

text \<open>The tester's restart path copies, discards the snapshot and saves the state again.\<close>

lemma crash_restart_state: "read_state (save_state fresh (read_state (copy s))) = read_state s"
  by (simp add: state_state copy_state)

end

interpretation ps: stable_store MakePersister Copy SaveRaftState ReadRaftState SaveSnapshot ReadSnapshot
  by unfold_locales (simp_all add: Persister_defs)

end
