(* ===== verification/Raft.thy ===== *)
theory Raft
  imports Persister
begin

text \<open>
  One Raft peer, \<^verbatim>\<open>src/raft/raft.go\<close>. The record \<open>Raft\<close> is the struct of the same name; every
  critical section of the code (the stretch of a method or goroutine that runs under \<open>rf.mu\<close>) is
  one definition that maps the peer's state to its new state and results. The clock and the random
  timeouts are arguments. Messages that a peer sends on \<open>applyCh\<close> are appended to the field
  \<open>applyCh\<close>. A panic of the code is \<open>None\<close>.
\<close>

subsection \<open>Data\<close>

record 'c entry =
  ecommand :: 'c
  eterm :: int

record 'c ApplyMsg =
  Index :: int
  Command :: 'c
  UseSnapshot :: bool

text \<open>
  A gob stream is the list of the values encoded into it. Decoding reads the next value; at the
  end of the stream, or at a value of another type, the decoder reports an error, leaves the
  variable as it was and reads nothing more. The code ignores the error.
\<close>

datatype 'c gobval = GInt int | GLogs "'c entry list"

record 'c Raft =
  npeers :: nat
  persister :: "'c gobval Persister"
  me :: int
  applyCh :: "'c ApplyMsg list"
  currentTerm :: int
  votedFor :: int
  logs :: "'c entry list"
  commitIndex :: int
  lastApplied :: int
  nextIndex :: "int list"
  matchIndex :: "int list"
  role :: int
  electionTimeout :: int
  heartBeatTimeout :: int
  lastHeart :: int
  running :: bool
  counter :: int

record RequestVoteArgs =
  rvTerm :: int
  CandidateId :: int
  LastLogIndex :: int
  LastLogTerm :: int

record RequestVoteReply =
  rvrTerm :: int
  VoteGranted :: bool

record 'c AppendEntriesArgs =
  aeTerm :: int
  LeaderId :: int
  PrevLogIndex :: int
  PrevLogTerm :: int
  Entries :: "'c entry list"
  LeaderCommit :: int

record AppendEntriesReply =
  aerTerm :: int
  Success :: bool
  Len :: int

text \<open>
  \<open>GetState\<close> and \<open>GetState2\<close> take no lock: each field they return is read at a moment of its own, and
  a critical section may begin or be half done between two of them. Their arguments are the struct as it
  is at those moments, in the order of the reads; \<open>still rf\<close> and \<open>still2 rf\<close> are reads whose moments coincide.
\<close>

type_synonym 'c reading = "'c Raft \<times> 'c Raft"

definition GetState :: "'c reading \<Rightarrow> int \<times> bool" where
  "GetState m = (currentTerm (fst m), role (snd m) = 2)"

type_synonym 'c moments = "'c Raft \<times> 'c Raft \<times> 'c Raft"

definition GetState2 :: "'c moments \<Rightarrow> bool \<times> 'c entry list \<times> int" where
  "GetState2 m = (role (fst m) = 2, logs (fst (snd m)), commitIndex (snd (snd m)))"

abbreviation still :: "'c Raft \<Rightarrow> 'c reading" where
  "still rf \<equiv> (rf, rf)"

abbreviation still2 :: "'c Raft \<Rightarrow> 'c moments" where
  "still2 rf \<equiv> (rf, rf, rf)"

abbreviation logs_at :: "'c moments \<Rightarrow> 'c entry list" where
  "logs_at m \<equiv> logs (fst (snd m))"

abbreviation commit_at :: "'c moments \<Rightarrow> int" where
  "commit_at m \<equiv> commitIndex (snd (snd m))"

subsection \<open>Persistence\<close>

definition encode_state :: "int \<Rightarrow> int \<Rightarrow> 'c entry list \<Rightarrow> 'c gobval list" where
  "encode_state t v l = [GInt t] @ [GInt v] @ [GLogs l]"

fun decode_int :: "int \<Rightarrow> 'c gobval list \<Rightarrow> int \<times> 'c gobval list" where
  "decode_int old (GInt n # r) = (n, r)"
| "decode_int old r = (old, [])"

fun decode_logs :: "'c entry list \<Rightarrow> 'c gobval list \<Rightarrow> 'c entry list \<times> 'c gobval list" where
  "decode_logs old (GLogs l # r) = (l, r)"
| "decode_logs old r = (old, [])"

definition persist :: "'c Raft \<Rightarrow> 'c Raft" where
  "persist rf = rf\<lparr>persister :=
     SaveRaftState (persister rf) (encode_state (currentTerm rf) (votedFor rf) (logs rf))\<rparr>"

definition readPersist :: "'c gobval list \<Rightarrow> 'c Raft \<Rightarrow> 'c Raft" where
  "readPersist data rf =
     (let (t, r1) = decode_int (currentTerm rf) data;
          (v, r2) = decode_int (votedFor rf) r1;
          (l, r3) = decode_logs (logs rf) r2
      in rf\<lparr>currentTerm := t, votedFor := v, logs := l\<rparr>)"

subsection \<open>RequestVote\<close>

definition lastTerm :: "'c entry list \<Rightarrow> int" where
  "lastTerm l = (if 0 < length l then eterm (l ! (length l - 1)) else 0)"

definition RequestVote ::
  "int \<Rightarrow> RequestVoteArgs \<Rightarrow> 'c Raft \<Rightarrow> 'c Raft \<times> RequestVoteReply" where
  "RequestVote now args rf =
     (let (rf2, granted) =
        (if rvTerm args < currentTerm rf then (rf, False)
         else
           let rf1 = (if rvTerm args > currentTerm rf
                      then rf\<lparr>role := 0, votedFor := -1, currentTerm := rvTerm args\<rparr> else rf);
               lastLogTerm = lastTerm (logs rf1)
           in if (votedFor rf1 = -1 \<or> votedFor rf1 = CandidateId args) \<and>
                 (lastLogTerm < LastLogTerm args \<or>
                  lastLogTerm = LastLogTerm args \<and> int (length (logs rf1)) \<le> LastLogIndex args)
              then (rf1\<lparr>role := 0, votedFor := CandidateId args, lastHeart := now\<rparr>, True)
              else (rf1, False));
          rf3 = persist rf2
      in (rf3, \<lparr>rvrTerm = currentTerm rf3, VoteGranted = granted\<rparr>))"

text \<open>The critical section that both senders enter when a reply carries a higher term.\<close>

definition step_down :: "int \<Rightarrow> 'c Raft \<Rightarrow> 'c Raft" where
  "step_down t rf = persist (rf\<lparr>currentTerm := t, role := 0, votedFor := -1\<rparr>)"

text \<open>
  \<open>sendRequestVote\<close> from the moment \<open>Call\<close> returns: \<open>None\<close> is a failed call. The test of the
  reply's term reads \<open>currentTerm\<close> before the lock is taken; here both happen in one go, and
  \<open>Raft_System\<close> separates them.
\<close>

definition sendRequestVote :: "RequestVoteReply option \<Rightarrow> 'c Raft \<Rightarrow> 'c Raft \<times> bool" where
  "sendRequestVote rep rf =
     (case rep of
        None \<Rightarrow> (rf, False)
      | Some reply \<Rightarrow>
          ((if rvrTerm reply > currentTerm rf then step_down (rvrTerm reply) rf else rf),
           VoteGranted reply))"

subsection \<open>AppendEntries\<close>

text \<open>The loop that applies the entries from \<open>iter\<close> to \<open>hi\<close>.\<close>

function apply_range :: "'c entry list \<Rightarrow> int \<Rightarrow> int \<Rightarrow> 'c ApplyMsg list option" where
  "apply_range l iter hi =
     (if iter < hi then
        do { e \<leftarrow> go_nth l iter;
             ms \<leftarrow> apply_range l (iter + 1) hi;
             Some (\<lparr>Index = iter + 1, Command = ecommand e, UseSnapshot = False\<rparr> # ms) }
      else Some [])"
  by pat_completeness auto
termination
  by (relation "measure (\<lambda>(l, iter, hi). nat (hi - iter))") auto

declare apply_range.simps [simp del]

definition AppendEntries ::
  "int \<Rightarrow> 'c AppendEntriesArgs \<Rightarrow> 'c Raft \<Rightarrow> ('c Raft \<times> AppendEntriesReply) option" where
  "AppendEntries now args rf =
     do { (rf1, success, len) \<leftarrow>
            (if aeTerm args < currentTerm rf then Some (rf, False, 0)
             else
               let rf0 = rf\<lparr>currentTerm := aeTerm args, role := 0, votedFor := LeaderId args\<rparr>
               in if PrevLogIndex args > 0 then
                    (if int (length (logs rf0)) \<ge> PrevLogIndex args then
                       do { e \<leftarrow> go_nth (logs rf0) (PrevLogIndex args - 1);
                            if eterm e = PrevLogTerm args then Some (rf0, True, 0)
                            else Some (rf0\<lparr>lastHeart := now\<rparr>, False, int (length (logs rf0))) }
                     else Some (rf0\<lparr>lastHeart := now\<rparr>, False, int (length (logs rf0))))
                  else Some (rf0, True, 0));
          rf2 \<leftarrow>
            (if success then
               do { kept \<leftarrow> go_take (logs rf1) (PrevLogIndex args);
                    let l = kept @ Entries args;
                    ms \<leftarrow> apply_range l (commitIndex rf1) (LeaderCommit args);
                    Some (rf1\<lparr>logs := l, applyCh := applyCh rf1 @ ms,
                              commitIndex := LeaderCommit args, lastHeart := now\<rparr>) }
             else Some rf1);
          Some (persist rf2, \<lparr>aerTerm = currentTerm rf1, Success = success, Len = len\<rparr>) }"

text \<open>
  The unlocked tail of \<open>sendAppendEntries\<close>: a leader whose entries were refused moves the
  follower's \<open>nextIndex\<close> by two or three assignments, of which the last wins. Nothing keeps the other
  goroutines of the peer from running between two of them. \<open>next_writes\<close> lists what is assigned, in order;
  \<open>adjust_next\<close> is the block when it is not interrupted.
\<close>

definition next_writes :: "'c AppendEntriesArgs \<Rightarrow> AppendEntriesReply \<Rightarrow> int list" where
  "next_writes args reply =
     [PrevLogIndex args] @ (if Len reply < PrevLogIndex args then [Len reply + 1] else []) @ [1]"

definition write_next :: "int \<Rightarrow> int \<Rightarrow> 'c Raft \<Rightarrow> 'c Raft option" where
  "write_next server v rf = do { n1 \<leftarrow> go_upd (nextIndex rf) server v; Some (rf\<lparr>nextIndex := n1\<rparr>) }"

fun write_all :: "int \<Rightarrow> int list \<Rightarrow> 'c Raft \<Rightarrow> 'c Raft option" where
  "write_all server [] rf = Some rf"
| "write_all server (v # vs) rf = do { rf1 \<leftarrow> write_next server v rf; write_all server vs rf1 }"

definition adjust_next ::
  "int \<Rightarrow> 'c AppendEntriesArgs \<Rightarrow> AppendEntriesReply \<Rightarrow> 'c Raft \<Rightarrow> 'c Raft option" where
  "adjust_next server args reply rf =
     (if role rf = 2 \<and> \<not> Success reply then write_all server (next_writes args reply) rf else Some rf)"

definition sendAppendEntries ::
  "int \<Rightarrow> 'c AppendEntriesArgs \<Rightarrow> AppendEntriesReply option \<Rightarrow> 'c Raft \<Rightarrow> ('c Raft \<times> bool) option" where
  "sendAppendEntries server args rep rf =
     (case rep of
        None \<Rightarrow> Some (rf, False)
      | Some reply \<Rightarrow>
          do { let rf1 = (if aerTerm reply > currentTerm rf then step_down (aerTerm reply) rf else rf);
               rf2 \<leftarrow> adjust_next server args reply rf1;
               Some (rf2, Success reply) })"

subsection \<open>Start, Kill and Make\<close>

definition Start :: "'c \<Rightarrow> 'c Raft \<Rightarrow> 'c Raft \<times> int \<times> int \<times> bool" where
  "Start cmd rf =
     (let index = int (length (logs rf)) + 1;
          rf1 = (if role rf = 2
                 then persist (rf\<lparr>logs := logs rf @ [\<lparr>ecommand = cmd, eterm = currentTerm rf\<rparr>]\<rparr>)
                 else rf)
      in (rf1, index, currentTerm rf1, role rf1 = 2))"

definition Kill :: "'c Raft \<Rightarrow> 'c Raft" where
  "Kill rf = rf\<lparr>running := False\<rparr>"

text \<open>
  \<open>Make\<close>: the zero value of the struct, the persisted state, then the volatile fields. The
  arguments \<open>rnd1\<close>, \<open>rnd2\<close> are the results of \<open>rand.Intn(100)\<close> and \<open>rand.Intn(50)\<close>.
\<close>

definition Make :: "nat \<Rightarrow> int \<Rightarrow> 'c gobval Persister \<Rightarrow> int \<Rightarrow> int \<Rightarrow> int \<Rightarrow> 'c Raft" where
  "Make n i ps now rnd1 rnd2 =
     (let rf0 = \<lparr>npeers = n, persister = ps, me = i, applyCh = [], currentTerm = 0, votedFor = 0,
                 logs = [], commitIndex = 0, lastApplied = 0, nextIndex = [], matchIndex = [],
                 role = 0, electionTimeout = 0, heartBeatTimeout = 0, lastHeart = 0,
                 running = True, counter = 0\<rparr>;
          rf1 = readPersist (ReadRaftState ps) rf0
      in rf1\<lparr>electionTimeout := rnd1 + 100, heartBeatTimeout := rnd2 + 50, counter := 0,
             lastHeart := now, role := 0, commitIndex := 0, lastApplied := 0\<rparr>)"

subsection \<open>Elections\<close>

text \<open>The critical section of the election loop in \<open>Make\<close>.\<close>

definition become_candidate :: "int \<Rightarrow> 'c Raft \<Rightarrow> 'c Raft" where
  "become_candidate rnd rf =
     persist (rf\<lparr>electionTimeout := rnd + 100, currentTerm := currentTerm rf + 1,
                 votedFor := me rf, role := 1\<rparr>)"

text \<open>
  One turn of the election loop after its sleep: \<open>now1\<close> and \<open>now2\<close> are the two readings of the
  clock. The result tells whether \<open>doVote\<close> is called.
\<close>

definition election_turn :: "int \<Rightarrow> int \<Rightarrow> int \<Rightarrow> 'c Raft \<Rightarrow> 'c Raft \<times> bool" where
  "election_turn now1 now2 rnd rf =
     (let vote = (role rf \<noteq> 2 \<and> now1 - lastHeart rf \<ge> electionTimeout rf);
          rf1 = (if vote then become_candidate rnd rf else rf);
          rf2 = (if now2 - lastHeart rf1 \<ge> electionTimeout rf1 then rf1\<lparr>lastHeart := now2\<rparr> else rf1)
      in (rf2, vote))"

definition doVote :: "'c Raft \<Rightarrow> (int \<times> RequestVoteArgs) list" where
  "doVote rf =
     (let index = int (length (logs rf)); t = lastTerm (logs rf)
      in map (\<lambda>i. (i, \<lparr>rvTerm = currentTerm rf, CandidateId = me rf,
                       LastLogIndex = index, LastLogTerm = t\<rparr>))
           (filter (\<lambda>i. i \<noteq> me rf) (map int [0..<npeers rf])))"

text \<open>
  The critical section of the vote goroutine: \<open>ok\<close> is the result of \<open>sendRequestVote\<close> and
  \<open>agreed\<close> the counter the goroutines of one \<open>doVote\<close> share. The last component tells whether
  the peer starts \<open>doSubmit\<close>.
\<close>

definition become_leader :: "'c Raft \<Rightarrow> 'c Raft" where
  "become_leader rf =
     persist (rf\<lparr>role := 2,
                 nextIndex := replicate (npeers rf) (int (length (logs rf)) + 1),
                 matchIndex := replicate (npeers rf) 0\<rparr>)"

definition count_vote :: "RequestVoteArgs \<Rightarrow> bool \<Rightarrow> int \<Rightarrow> 'c Raft \<Rightarrow> 'c Raft \<times> int \<times> bool" where
  "count_vote args ok agreed rf =
     (if ok \<and> rvTerm args = currentTerm rf \<and> role rf = 1 then
        let agreed' = agreed + 1
        in if agreed' * 2 > int (npeers rf) then (become_leader rf, agreed', True)
           else (rf, agreed', False)
      else (rf, agreed, False))"

subsection \<open>Log replication\<close>

text \<open>\<open>doSubmit\<close> lets only one heartbeat loop run: the guard on \<open>counter\<close>.\<close>

definition doSubmit_enter :: "'c Raft \<Rightarrow> 'c Raft \<times> bool" where
  "doSubmit_enter rf =
     (let rf1 = rf\<lparr>counter := counter rf + 1\<rparr>
      in if counter rf1 > 1 then (rf1\<lparr>counter := counter rf1 - 1\<rparr>, False) else (rf1, True))"

text \<open>What one tick of the heartbeat loop does: stop, or start one sender per other peer.\<close>

definition doSubmit_tick :: "'c Raft \<Rightarrow> 'c Raft \<times> int list option" where
  "doSubmit_tick rf =
     (if \<not> running rf \<or> role rf \<noteq> 2 then (rf\<lparr>counter := counter rf - 1\<rparr>, None)
      else (rf, Some (filter (\<lambda>i. i \<noteq> me rf) (map int [0..<npeers rf]))))"

definition build_append :: "int \<Rightarrow> 'c Raft \<Rightarrow> ('c Raft \<times> 'c AppendEntriesArgs) option" where
  "build_append peer rf =
     do { index \<leftarrow> go_nth (nextIndex rf) peer;
          entries \<leftarrow> (if int (length (logs rf)) \<ge> index then go_drop (logs rf) (index - 1) else Some []);
          t \<leftarrow> (if index > 1 then map_option eterm (go_nth (logs rf) (index - 2)) else Some 0);
          let args = \<lparr>aeTerm = currentTerm rf, LeaderId = me rf, PrevLogIndex = index - 1,
                      PrevLogTerm = t, Entries = entries, LeaderCommit = commitIndex rf\<rparr>;
          nx \<leftarrow> go_upd (nextIndex rf) peer (PrevLogIndex args + int (length entries) + 1);
          Some (rf\<lparr>nextIndex := nx\<rparr>, args) }"

text \<open>
  How many peers are known to hold the entry at position \<open>iter\<close>: the peer itself and every other
  one whose \<open>matchIndex\<close> is beyond it.
\<close>

fun count_match :: "'c Raft \<Rightarrow> int \<Rightarrow> nat list \<Rightarrow> int \<Rightarrow> int option" where
  "count_match rf iter [] cnt = Some cnt"
| "count_match rf iter (j # js) cnt =
     (if int j \<noteq> me rf then
        do { m \<leftarrow> go_nth (matchIndex rf) (int j);
             count_match rf iter js (if m > iter then cnt + 1 else cnt) }
      else count_match rf iter js cnt)"

text \<open>The loop that advances \<open>commitIndex\<close>; entries of older terms are passed over.\<close>

function commit_loop :: "int \<Rightarrow> 'c Raft \<Rightarrow> 'c Raft option" where
  "commit_loop iter rf =
     (if iter < int (length (logs rf)) then
        do { e \<leftarrow> go_nth (logs rf) iter;
             if eterm e < currentTerm rf then commit_loop (iter + 1) rf
             else
               do { cnt \<leftarrow> count_match rf iter [0..<npeers rf] 1;
                    if cnt * 2 > int (npeers rf) then
                      do { ms \<leftarrow> apply_range (logs rf) (commitIndex rf) (iter + 1);
                           commit_loop (iter + 1)
                             (rf\<lparr>commitIndex := (if commitIndex rf \<le> iter then iter + 1 else commitIndex rf),
                                 applyCh := applyCh rf @ ms\<rparr>) }
                    else Some rf } }
      else Some rf)"
  by pat_completeness auto
termination
  by (relation "measure (\<lambda>(iter, rf). nat (int (length (logs rf)) - iter))") auto

declare commit_loop.simps [simp del]

definition submit_reply ::
  "int \<Rightarrow> 'c AppendEntriesArgs \<Rightarrow> bool \<Rightarrow> 'c Raft \<Rightarrow> 'c Raft option" where
  "submit_reply peer args ok rf =
     (if ok \<and> aeTerm args = currentTerm rf \<and> role rf = 2 then
        do { mx \<leftarrow> go_upd (matchIndex rf) peer (PrevLogIndex args + int (length (Entries args)));
             let rf1 = rf\<lparr>matchIndex := mx\<rparr>;
             commit_loop (commitIndex rf1) rf1 }
      else Some rf)"

subsection \<open>Frame lemmas\<close>

text \<open>What \<open>persist\<close> leaves alone, and when the stored stream is the current state.\<close>

lemma persist_simps [simp]:
  "npeers (persist rf) = npeers rf" "me (persist rf) = me rf"
  "applyCh (persist rf) = applyCh rf" "currentTerm (persist rf) = currentTerm rf"
  "votedFor (persist rf) = votedFor rf" "logs (persist rf) = logs rf"
  "commitIndex (persist rf) = commitIndex rf" "lastApplied (persist rf) = lastApplied rf"
  "nextIndex (persist rf) = nextIndex rf" "matchIndex (persist rf) = matchIndex rf"
  "role (persist rf) = role rf" "lastHeart (persist rf) = lastHeart rf"
  "running (persist rf) = running rf" "counter (persist rf) = counter rf"
  "electionTimeout (persist rf) = electionTimeout rf"
  by (simp_all add: persist_def)

definition persisted :: "'c Raft \<Rightarrow> bool" where
  "persisted rf \<longleftrightarrow>
     ReadRaftState (persister rf) = encode_state (currentTerm rf) (votedFor rf) (logs rf)"

lemma persisted_persist [simp]: "persisted (persist rf)"
  by (simp add: persisted_def ps.state_state) (simp add: persist_def ps.state_state)

lemma persisted_cong:
  "persister rf' = persister rf \<Longrightarrow> currentTerm rf' = currentTerm rf \<Longrightarrow>
   votedFor rf' = votedFor rf \<Longrightarrow> logs rf' = logs rf \<Longrightarrow> persisted rf' = persisted rf"
  by (simp add: persisted_def)

lemma step_down_simps [simp]:
  "npeers (step_down t rf) = npeers rf" "me (step_down t rf) = me rf"
  "currentTerm (step_down t rf) = t" "votedFor (step_down t rf) = -1"
  "role (step_down t rf) = 0" "logs (step_down t rf) = logs rf"
  "commitIndex (step_down t rf) = commitIndex rf"
  "nextIndex (step_down t rf) = nextIndex rf" "matchIndex (step_down t rf) = matchIndex rf"
  "persisted (step_down t rf)" "applyCh (step_down t rf) = applyCh rf"
  by (simp_all add: step_down_def)

lemma become_candidate_simps [simp]:
  "npeers (become_candidate r rf) = npeers rf" "me (become_candidate r rf) = me rf"
  "currentTerm (become_candidate r rf) = currentTerm rf + 1"
  "votedFor (become_candidate r rf) = me rf" "role (become_candidate r rf) = 1"
  "logs (become_candidate r rf) = logs rf" "commitIndex (become_candidate r rf) = commitIndex rf"
  "nextIndex (become_candidate r rf) = nextIndex rf"
  "matchIndex (become_candidate r rf) = matchIndex rf" "persisted (become_candidate r rf)"
  "applyCh (become_candidate r rf) = applyCh rf"
  by (simp_all add: become_candidate_def)

lemma become_leader_simps [simp]:
  "npeers (become_leader rf) = npeers rf" "me (become_leader rf) = me rf"
  "currentTerm (become_leader rf) = currentTerm rf" "votedFor (become_leader rf) = votedFor rf"
  "role (become_leader rf) = 2" "logs (become_leader rf) = logs rf"
  "commitIndex (become_leader rf) = commitIndex rf"
  "nextIndex (become_leader rf) = replicate (npeers rf) (int (length (logs rf)) + 1)"
  "matchIndex (become_leader rf) = replicate (npeers rf) 0" "persisted (become_leader rf)"
  "applyCh (become_leader rf) = applyCh rf"
  by (simp_all add: become_leader_def)

subsection \<open>The vote handler\<close>

lemma write_all_frame: "write_all j vs rf = Some rf' \<Longrightarrow> \<exists>l. rf' = rf\<lparr>nextIndex := l\<rparr>"
proof (induction j vs rf rule: write_all.induct)
  case (1 server rf)
  then show ?case by (intro exI [of _ "nextIndex rf"]) simp
qed (fastforce simp: write_next_def split: bind_splits)

lemma adjust_next_same: "adjust_next j args reply rf = Some rf' \<Longrightarrow> \<exists>l. rf' = rf\<lparr>nextIndex := l\<rparr>"
  by (cases "role rf = 2 \<and> \<not> Success reply")
    (auto simp: adjust_next_def dest: write_all_frame intro: exI [of _ "nextIndex rf"])

lemma adjust_next_eq:
  assumes "j < length (nextIndex rf)" and "role rf = 2" and "\<not> Success reply"
  shows "adjust_next (int j) args reply rf = Some (rf\<lparr>nextIndex := (nextIndex rf)[j := 1]\<rparr>)"
  using assms by (simp add: adjust_next_def next_writes_def write_next_def go_upd_def)

lemma RequestVote_frame:
  assumes "RequestVote now args rf = (rf', rep)"
  shows "npeers rf' = npeers rf" "me rf' = me rf" "logs rf' = logs rf"
    "commitIndex rf' = commitIndex rf" "nextIndex rf' = nextIndex rf"
    "matchIndex rf' = matchIndex rf" "applyCh rf' = applyCh rf" "persisted rf'"
    "rvrTerm rep = currentTerm rf'"
  using assms by (auto simp: RequestVote_def Let_def split: if_splits)

text \<open>
  The three outcomes of the handler: a stale request changes nothing; otherwise the peer is in the
  request's term, and either the vote is granted or at most the term moves on.
\<close>

lemma RequestVote_cases:
  assumes "RequestVote now args rf = (rf', rep)"
  obtains (stale) "rvTerm args < currentTerm rf" "\<not> VoteGranted rep"
      "currentTerm rf' = currentTerm rf" "votedFor rf' = votedFor rf" "role rf' = role rf"
  | (grant) "currentTerm rf \<le> rvTerm args" "VoteGranted rep" "currentTerm rf' = rvTerm args"
      "votedFor rf' = CandidateId args" "role rf' = 0"
      "currentTerm rf < rvTerm args \<or> votedFor rf = -1 \<or> votedFor rf = CandidateId args"
      "lastTerm (logs rf) < LastLogTerm args \<or>
       lastTerm (logs rf) = LastLogTerm args \<and> int (length (logs rf)) \<le> LastLogIndex args"
  | (newer) "currentTerm rf < rvTerm args" "\<not> VoteGranted rep" "currentTerm rf' = rvTerm args"
      "votedFor rf' = -1" "role rf' = 0"
  | (same) "currentTerm rf = rvTerm args" "\<not> VoteGranted rep" "currentTerm rf' = currentTerm rf"
      "votedFor rf' = votedFor rf" "role rf' = role rf"
proof -
  consider "rvTerm args < currentTerm rf" | "rvTerm args = currentTerm rf" | "currentTerm rf < rvTerm args"
    by linarith
  then show thesis
  proof cases
    case 1
    then show ?thesis using assms stale by (auto simp: RequestVote_def Let_def)
  next
    case 2
    then show ?thesis using assms grant same
      by (auto simp: RequestVote_def Let_def split: if_splits)
  next
    case 3
    then show ?thesis using assms grant newer
      by (auto simp: RequestVote_def Let_def split: if_splits)
  qed
qed

subsection \<open>Applying a range of entries\<close>

definition apply_msg :: "'c entry list \<Rightarrow> int \<Rightarrow> 'c ApplyMsg" where
  "apply_msg l i = \<lparr>Index = i, Command = ecommand (l ! nat (i - 1)), UseSnapshot = False\<rparr>"

text \<open>
  Within the log, the loop emits the entries \<open>lo + 1 .. hi\<close> in order; it panics exactly when the
  range is not empty and leaves the log.
\<close>

lemma apply_range_eq:
  "0 \<le> lo \<Longrightarrow> hi \<le> int (length l) \<Longrightarrow>
   apply_range l lo hi = Some (map (apply_msg l) [lo + 1..hi])"
proof (induction l lo hi rule: apply_range.induct)
  case (1 l lo hi)
  show ?case
  proof (cases "lo < hi")
    case True
    then have "go_nth l lo = Some (l ! nat lo)"
      using "1.prems" by (simp add: go_nth_def)
    moreover have "apply_range l (lo + 1) hi = Some (map (apply_msg l) [lo + 1 + 1..hi])"
      using "1.IH" [OF True \<open>go_nth l lo = Some (l ! nat lo)\<close>] "1.prems" True by simp
    moreover have "[lo + 1..hi] = (lo + 1) # [lo + 1 + 1..hi]"
      using True by (simp add: upto.simps)
    ultimately show ?thesis
      using True by (simp add: apply_range.simps [of l lo hi] apply_msg_def)
  next
    case False
    then show ?thesis by (simp add: apply_range.simps [of l lo hi])
  qed
qed

lemma apply_range_bounds:
  "apply_range l lo hi = Some ms \<Longrightarrow> lo < hi \<Longrightarrow> 0 \<le> lo \<and> hi \<le> int (length l)"
proof (induction l lo hi arbitrary: ms rule: apply_range.induct)
  case (1 l lo hi)
  then obtain ms' where nth: "0 \<le> lo" "lo < int (length l)"
    and rec: "apply_range l (lo + 1) hi = Some ms'"
    by (auto simp: apply_range.simps [of l lo hi] go_panic split: bind_splits)
  then show ?case
    using "1.IH" [OF \<open>lo < hi\<close> _ rec] by (cases "lo + 1 < hi") (auto simp: go_nth_def)
qed

subsection \<open>The append handler\<close>

text \<open>Whether the consistency check on the entry before the new ones passes.\<close>

definition prev_matches :: "'c AppendEntriesArgs \<Rightarrow> 'c entry list \<Rightarrow> bool" where
  "prev_matches args l \<longleftrightarrow>
     PrevLogIndex args \<le> 0 \<or>
     PrevLogIndex args \<le> int (length l) \<and> eterm (l ! nat (PrevLogIndex args - 1)) = PrevLogTerm args"

lemma AppendEntries_stale:
  "aeTerm args < currentTerm rf \<Longrightarrow>
   AppendEntries now args rf =
     Some (persist rf, \<lparr>aerTerm = currentTerm rf, Success = False, Len = 0\<rparr>)"
  by (simp add: AppendEntries_def)

lemma AppendEntries_refuse:
  "currentTerm rf \<le> aeTerm args \<Longrightarrow> \<not> prev_matches args (logs rf) \<Longrightarrow>
   AppendEntries now args rf =
     Some (persist (rf\<lparr>currentTerm := aeTerm args, role := 0, votedFor := LeaderId args, lastHeart := now\<rparr>),
           \<lparr>aerTerm = aeTerm args, Success = False, Len = int (length (logs rf))\<rparr>)"
  by (auto simp: AppendEntries_def prev_matches_def Let_def go_nth_def)

lemma AppendEntries_accept:
  assumes "currentTerm rf \<le> aeTerm args" and "prev_matches args (logs rf)"
    and "0 \<le> PrevLogIndex args" and "0 \<le> commitIndex rf"
    and "LeaderCommit args \<le> PrevLogIndex args + int (length (Entries args))"
  defines "l \<equiv> take (nat (PrevLogIndex args)) (logs rf) @ Entries args"
  shows "AppendEntries now args rf =
     Some (persist (rf\<lparr>currentTerm := aeTerm args, role := 0, votedFor := LeaderId args, logs := l,
              applyCh := applyCh rf @ map (apply_msg l) [commitIndex rf + 1..LeaderCommit args],
              commitIndex := LeaderCommit args, lastHeart := now\<rparr>),
           \<lparr>aerTerm = aeTerm args, Success = True, Len = 0\<rparr>)"
proof -
  have le: "PrevLogIndex args \<le> int (length (logs rf))"
    using assms(2,3) by (auto simp: prev_matches_def)
  have "int (length l) = PrevLogIndex args + int (length (Entries args))"
    using le assms(3) by (simp add: l_def)
  then have "apply_range l (commitIndex rf) (LeaderCommit args) =
      Some (map (apply_msg l) [commitIndex rf + 1..LeaderCommit args])"
    using assms(4,5) by (intro apply_range_eq) simp_all
  moreover have "go_take (logs rf) (PrevLogIndex args) = Some (take (nat (PrevLogIndex args)) (logs rf))"
    using le assms(3) by (simp add: go_take_def)
  ultimately show ?thesis
    using assms(1-3) le
    by (auto simp: AppendEntries_def prev_matches_def Let_def go_nth_def l_def)
qed

text \<open>Every successful run of the handler is one of three shapes.\<close>

lemma AppendEntries_cases:
  assumes "AppendEntries now args rf = Some (rf', rep)"
  obtains (stale) "aeTerm args < currentTerm rf" "rf' = persist rf" "\<not> Success rep"
      "aerTerm rep = currentTerm rf"
  | (refuse) "currentTerm rf \<le> aeTerm args" "\<not> prev_matches args (logs rf)" "\<not> Success rep"
      "aerTerm rep = aeTerm args" "Len rep = int (length (logs rf))"
      "rf' = persist (rf\<lparr>currentTerm := aeTerm args, role := 0, votedFor := LeaderId args, lastHeart := now\<rparr>)"
  | (accept) ms where "currentTerm rf \<le> aeTerm args" "prev_matches args (logs rf)" "Success rep"
      "aerTerm rep = aeTerm args" "0 \<le> PrevLogIndex args" "PrevLogIndex args \<le> int (length (logs rf))"
      "rf' = persist (rf\<lparr>currentTerm := aeTerm args, role := 0, votedFor := LeaderId args,
              logs := take (nat (PrevLogIndex args)) (logs rf) @ Entries args,
              applyCh := applyCh rf @ ms, commitIndex := LeaderCommit args, lastHeart := now\<rparr>)"
proof -
  consider "aeTerm args < currentTerm rf"
    | "currentTerm rf \<le> aeTerm args" "\<not> prev_matches args (logs rf)"
    | "currentTerm rf \<le> aeTerm args" "prev_matches args (logs rf)"
    by linarith
  then show thesis
  proof cases
    case 1
    then show ?thesis using assms stale by (auto simp: AppendEntries_stale)
  next
    case 2
    then show ?thesis using assms refuse by (auto simp: AppendEntries_refuse)
  next
    case 3
    then show ?thesis using assms accept
      by (auto simp: AppendEntries_def prev_matches_def Let_def go_panic split: bind_splits if_splits)
  qed
qed

lemma AppendEntries_frame:
  assumes "AppendEntries now args rf = Some (rf', rep)"
  shows "npeers rf' = npeers rf" "me rf' = me rf" "nextIndex rf' = nextIndex rf"
    "matchIndex rf' = matchIndex rf" "persisted rf'" "currentTerm rf \<le> currentTerm rf'"
  using assms by (cases rule: AppendEntries_cases; simp)+

subsection \<open>The commit rule\<close>

text \<open>How many peers, by \<open>matchIndex\<close>, hold the entry at position \<open>iter\<close>.\<close>

definition holders :: "'c Raft \<Rightarrow> int \<Rightarrow> nat" where
  "holders rf iter =
     1 + length (filter (\<lambda>j. int j \<noteq> me rf \<and> iter < matchIndex rf ! j) [0..<npeers rf])"

definition replicated :: "'c Raft \<Rightarrow> int \<Rightarrow> bool" where
  "replicated rf iter \<longleftrightarrow> npeers rf < 2 * holders rf iter"

lemma count_match_eq:
  "\<forall>j \<in> set js. j < length (matchIndex rf) \<Longrightarrow>
   count_match rf iter js cnt =
     Some (cnt + int (length (filter (\<lambda>j. int j \<noteq> me rf \<and> iter < matchIndex rf ! j) js)))"
  by (induction js arbitrary: cnt) simp_all

lemma count_match_holders:
  "npeers rf \<le> length (matchIndex rf) \<Longrightarrow>
   count_match rf iter [0..<npeers rf] 1 = Some (int (holders rf iter))"
  by (subst count_match_eq) (auto simp: holders_def)

lemma length_filter_mono: "(\<And>x. P x \<Longrightarrow> Q x) \<Longrightarrow> length (filter P xs) \<le> length (filter Q xs)"
  by (induction xs) auto

lemma replicated_antimono:
  assumes "replicated rf k" and "k' \<le> k"
  shows "replicated rf k'"
proof -
  have "holders rf k \<le> holders rf k'"
    using assms(2) unfolding holders_def by (intro add_mono length_filter_mono) auto
  with assms(1) show ?thesis by (simp add: replicated_def)
qed

lemma replicated_commit [simp]:
  "replicated (rf\<lparr>commitIndex := c, applyCh := ms\<rparr>) k = replicated rf k"
  by (simp add: replicated_def holders_def)

text \<open>
  The commit rule: \<open>c\<close> is the largest index such that the entry just below it belongs to the
  current term (or a later one) and is replicated on a majority, or the old commit index if there
  is none. The loop delivers the entries up to \<open>c\<close> once each and in order.
\<close>

definition commit_point :: "'c Raft \<Rightarrow> int \<Rightarrow> int \<Rightarrow> bool" where
  "commit_point rf iter c \<longleftrightarrow>
     (c = commitIndex rf \<or>
      iter < c \<and> c \<le> int (length (logs rf)) \<and> currentTerm rf \<le> eterm (logs rf ! nat (c - 1)) \<and>
      replicated rf (c - 1)) \<and>
     (\<forall>k. iter \<le> k \<longrightarrow> c \<le> k \<longrightarrow> k < int (length (logs rf)) \<longrightarrow>
        currentTerm rf \<le> eterm (logs rf ! nat k) \<longrightarrow> \<not> replicated rf k)"

definition committed :: "'c Raft \<Rightarrow> int \<Rightarrow> 'c Raft" where
  "committed rf c =
     rf\<lparr>commitIndex := c, applyCh := applyCh rf @ map (apply_msg (logs rf)) [commitIndex rf + 1..c]\<rparr>"

lemma committed_same [simp]: "committed rf (commitIndex rf) = rf"
  by (simp add: committed_def)

lemma committed_trans:
  "commitIndex rf \<le> c \<Longrightarrow> c \<le> d \<Longrightarrow> committed (committed rf c) d = committed rf d"
  using upto_split2 [of "commitIndex rf + 1" c d]
  by (cases "commitIndex rf = c") (simp_all add: committed_def)

lemma commit_loop_end: "\<not> iter < int (length (logs rf)) \<Longrightarrow> commit_loop iter rf = Some rf"
  by (simp add: commit_loop.simps)

lemma commit_loop_old:
  "0 \<le> iter \<Longrightarrow> iter < int (length (logs rf)) \<Longrightarrow> eterm (logs rf ! nat iter) < currentTerm rf \<Longrightarrow>
   commit_loop iter rf = commit_loop (iter + 1) rf"
  by (subst commit_loop.simps) (simp add: go_nth_def)

lemma commit_loop_stop:
  "0 \<le> iter \<Longrightarrow> iter < int (length (logs rf)) \<Longrightarrow> currentTerm rf \<le> eterm (logs rf ! nat iter) \<Longrightarrow>
   npeers rf \<le> length (matchIndex rf) \<Longrightarrow> \<not> replicated rf iter \<Longrightarrow>
   commit_loop iter rf = Some rf"
  by (subst commit_loop.simps) (simp add: go_nth_def count_match_holders replicated_def)

lemma commit_loop_advance:
  assumes "0 \<le> commitIndex rf" "commitIndex rf \<le> iter" "iter < int (length (logs rf))"
    "currentTerm rf \<le> eterm (logs rf ! nat iter)" "npeers rf \<le> length (matchIndex rf)" "replicated rf iter"
  shows "commit_loop iter rf = commit_loop (iter + 1) (committed rf (iter + 1))"
proof -
  have "apply_range (logs rf) (commitIndex rf) (iter + 1) =
      Some (map (apply_msg (logs rf)) [commitIndex rf + 1..iter + 1])"
    using assms(1,3) by (intro apply_range_eq) simp_all
  moreover have "int (npeers rf) < int (holders rf iter) * 2"
    using assms(6) by (simp add: replicated_def)
  ultimately show ?thesis
    using assms by (subst commit_loop.simps) (simp add: go_nth_def count_match_holders committed_def)
qed

lemma commit_point_old:
  assumes "commit_point rf (iter + 1) c" and "eterm (logs rf ! nat iter) < currentTerm rf"
  shows "commit_point rf iter c"
  unfolding commit_point_def
proof (intro conjI allI impI)
  show "c = commitIndex rf \<or> iter < c \<and> c \<le> int (length (logs rf)) \<and>
     currentTerm rf \<le> eterm (logs rf ! nat (c - 1)) \<and> replicated rf (c - 1)"
    using assms(1) by (auto simp: commit_point_def)
  fix k assume k: "iter \<le> k" "c \<le> k" "k < int (length (logs rf))" "currentTerm rf \<le> eterm (logs rf ! nat k)"
  with assms(2) have "iter \<noteq> k" by auto
  with k assms(1) show "\<not> replicated rf k" by (auto simp: commit_point_def)
qed

lemma commit_loop_correct:
  assumes "0 \<le> commitIndex rf" and "commitIndex rf \<le> iter" and "npeers rf \<le> length (matchIndex rf)"
  shows "\<exists>c. commit_loop iter rf = Some (committed rf c) \<and> commit_point rf iter c \<and> commitIndex rf \<le> c"
  using assms
proof (induction iter rf rule: commit_loop.induct)
  case (1 iter rf)
  note c0 = "1.prems"(1) and ci = "1.prems"(2) and len = "1.prems"(3)
  consider (fin) "\<not> iter < int (length (logs rf))"
    | (old) "iter < int (length (logs rf))" "eterm (logs rf ! nat iter) < currentTerm rf"
    | (yes) "iter < int (length (logs rf))" "currentTerm rf \<le> eterm (logs rf ! nat iter)" "replicated rf iter"
    | (no) "iter < int (length (logs rf))" "currentTerm rf \<le> eterm (logs rf ! nat iter)" "\<not> replicated rf iter"
    by linarith
  then show ?case
  proof cases
    case fin
    then show ?thesis
      by (intro exI [of _ "commitIndex rf"]) (simp add: commit_loop_end commit_point_def)
  next
    case old
    then have "\<exists>c. commit_loop (iter + 1) rf = Some (committed rf c) \<and> commit_point rf (iter + 1) c \<and> commitIndex rf \<le> c"
      using "1.IH"(1) c0 ci len by (simp add: go_nth_def)
    then show ?thesis
      using old c0 ci by (auto simp: commit_loop_old intro: commit_point_old)
  next
    case no
    then show ?thesis
      using c0 ci len replicated_antimono
      by (intro exI [of _ "commitIndex rf"]) (auto simp: commit_loop_stop commit_point_def)
  next
    case yes
    let ?rf = "committed rf (iter + 1)"
    have "int (npeers rf) < int (holders rf iter) * 2" using yes by (simp add: replicated_def)
    then have "\<exists>c. commit_loop (iter + 1) ?rf = Some (committed ?rf c) \<and> commit_point ?rf (iter + 1) c \<and> iter + 1 \<le> c"
      using "1.IH"(2) [OF yes(1), of "logs rf ! nat iter" "int (holders rf iter)" "map (apply_msg (logs rf)) [commitIndex rf + 1..iter + 1]"]
        apply_range_eq [of "commitIndex rf" "iter + 1" "logs rf"] yes c0 ci len
      by (simp add: go_nth_def count_match_holders committed_def)
    then obtain c where c: "commit_loop (iter + 1) ?rf = Some (committed ?rf c)"
      "commit_point ?rf (iter + 1) c" "iter + 1 \<le> c" by blast
    have "commit_point rf iter c"
      using c yes c0 ci by (auto simp: commit_point_def committed_def)
    then show ?thesis
      using c commit_loop_advance [OF c0 ci yes(1,2) len yes(3)] committed_trans [of rf "iter + 1" c] ci by auto
  qed
qed

lemma committed_simps [simp]:
  "npeers (committed rf c) = npeers rf" "me (committed rf c) = me rf"
  "persister (committed rf c) = persister rf" "currentTerm (committed rf c) = currentTerm rf"
  "votedFor (committed rf c) = votedFor rf" "logs (committed rf c) = logs rf"
  "commitIndex (committed rf c) = c" "nextIndex (committed rf c) = nextIndex rf"
  "matchIndex (committed rf c) = matchIndex rf" "role (committed rf c) = role rf"
  by (simp_all add: committed_def)

end
