(* ===== verification/Shards.thy ===== *)
theory Shards
  imports Retry Raft Paxos_Servers
begin

text \<open>
  Sharding: the configurations, the shard masters and the clerks. Two generations of the code exist,
  one on labrpc and Raft (\<^verbatim>\<open>src/shardmaster\<close>, \<^verbatim>\<open>src/shardkv\<close>) and one on sockets and Paxos
  (\<^verbatim>\<open>src/paxos-shardmaster\<close>, \<^verbatim>\<open>src/paxos-shardkv\<close>, \<^verbatim>\<open>src/diskv\<close>). The clerks are complete; the request
  handlers of the servers are empty.

  \<open>net k srv args\<close> is the outcome of a call to server \<open>srv\<close> in round \<open>k\<close> of a clerk's loop.
\<close>

subsection \<open>Configurations and the shard master on Raft\<close>

definition OK :: string where "OK = ''OK''"
definition ErrNoKey :: string where "ErrNoKey = ''ErrNoKey''"
definition ErrWrongGroup :: string where "ErrWrongGroup = ''ErrWrongGroup''"

record Config =
  Num :: int
  Shards :: "int list"
  Groups :: "int \<rightharpoonup> string list"

definition config0 :: Config where
  "config0 = \<lparr>Num = 0, Shards = replicate NShards 0, Groups = Map.empty\<rparr>"

definition wf_config :: "Config \<Rightarrow> bool" where
  "wf_config c \<longleftrightarrow> length (Shards c) = NShards"

record JoinArgs =
  jServers :: "int \<rightharpoonup> string list"

record LeaveArgs =
  lGIDs :: "int list"

record MoveArgs =
  mShard :: int
  mGID :: int

record QueryArgs =
  qNum :: int

record SMReply =
  smWrongLeader :: bool
  smErr :: string

record QueryReply = SMReply +
  qConfig :: Config

record ShardMaster =
  sm_me :: int
  sm_rf :: "unit Raft"
  configs :: "Config list"

definition smreply0 :: SMReply where
  "smreply0 = \<lparr>smWrongLeader = False, smErr = ''''\<rparr>"

definition Join :: "JoinArgs \<Rightarrow> ShardMaster \<Rightarrow> ShardMaster \<times> SMReply" where
  "Join args sm = (sm, smreply0)"

definition Leave :: "LeaveArgs \<Rightarrow> ShardMaster \<Rightarrow> ShardMaster \<times> SMReply" where
  "Leave args sm = (sm, smreply0)"

definition Move :: "MoveArgs \<Rightarrow> ShardMaster \<Rightarrow> ShardMaster \<times> SMReply" where
  "Move args sm = (sm, smreply0)"

definition Query :: "QueryArgs \<Rightarrow> ShardMaster \<Rightarrow> ShardMaster \<times> QueryReply" where
  "Query args sm = (sm, \<lparr>smWrongLeader = False, smErr = '''', qConfig = config0\<rparr>)"

definition sm_Kill :: "ShardMaster \<Rightarrow> ShardMaster" where
  "sm_Kill sm = sm\<lparr>sm_rf := Raft.Kill (sm_rf sm)\<rparr>"

definition sm_Raft :: "ShardMaster \<Rightarrow> unit Raft" where
  "sm_Raft sm = sm_rf sm"

definition sm_StartServer :: "nat \<Rightarrow> int \<Rightarrow> unit gobval Persister \<Rightarrow> int \<Rightarrow> int \<Rightarrow> int \<Rightarrow> ShardMaster" where
  "sm_StartServer n i ps now r1 r2 =
     \<lparr>sm_me = i, sm_rf = Make n i ps now r1 r2, configs = [config0]\<rparr>"

subsection \<open>The clerks of the shard masters\<close>

text \<open>The clerk on labrpc: a reply counts unless it says that its sender does not lead.\<close>

definition sm_accept :: "('r SMReply_scheme) option \<Rightarrow> ('r SMReply_scheme) option" where
  "sm_accept rep = (case rep of Some r \<Rightarrow> if smWrongLeader r = False then Some r else None | None \<Rightarrow> None)"

record SMClerk =
  sm_servers :: "string list"

definition sm_MakeClerk :: "string list \<Rightarrow> SMClerk" where
  "sm_MakeClerk servers = \<lparr>sm_servers = servers\<rparr>"

definition sm_round ::
  "(nat \<Rightarrow> string \<Rightarrow> 'a \<Rightarrow> ('r SMReply_scheme) option) \<Rightarrow> 'a \<Rightarrow> nat \<Rightarrow> string list \<Rightarrow>
   (string list \<times> ('r SMReply_scheme) option) option" where
  "sm_round net args k srvs = Some (srvs, first_some (\<lambda>srv. sm_accept (net k srv args)) srvs)"

definition ck_Query :: "(nat \<Rightarrow> string \<Rightarrow> QueryArgs \<Rightarrow> QueryReply option) \<Rightarrow> int \<Rightarrow> string list \<Rightarrow> Config option" where
  "ck_Query net num srvs = map_option (qConfig \<circ> snd) (forever (sm_round net \<lparr>qNum = num\<rparr>) 0 srvs)"

definition ck_Join :: "(nat \<Rightarrow> string \<Rightarrow> JoinArgs \<Rightarrow> SMReply option) \<Rightarrow> (int \<rightharpoonup> string list) \<Rightarrow> string list \<Rightarrow> unit option" where
  "ck_Join net groups srvs = map_option (\<lambda>r. ()) (forever (sm_round net \<lparr>jServers = groups\<rparr>) 0 srvs)"

definition ck_Leave :: "(nat \<Rightarrow> string \<Rightarrow> LeaveArgs \<Rightarrow> SMReply option) \<Rightarrow> int list \<Rightarrow> string list \<Rightarrow> unit option" where
  "ck_Leave net gids srvs = map_option (\<lambda>r. ()) (forever (sm_round net \<lparr>lGIDs = gids\<rparr>) 0 srvs)"

definition ck_Move :: "(nat \<Rightarrow> string \<Rightarrow> MoveArgs \<Rightarrow> SMReply option) \<Rightarrow> int \<Rightarrow> int \<Rightarrow> string list \<Rightarrow> unit option" where
  "ck_Move net shard gid srvs =
     map_option (\<lambda>r. ()) (forever (sm_round net \<lparr>mShard = shard, mGID = gid\<rparr>) 0 srvs)"

text \<open>The clerk on sockets: any reply counts.\<close>

text \<open>The clerk holds the names of the masters; \<open>dial\<close> stands for \<open>rpc.Dial\<close> and \<open>exchange\<close> for \<open>c.Call\<close>.\<close>

record PSMClerk =
  psm_servers :: "string list"

definition psm_MakeClerk :: "string list \<Rightarrow> PSMClerk" where
  "psm_MakeClerk servers = \<lparr>psm_servers = servers\<rparr>"

definition psm_call :: "(string \<Rightarrow> 'c option) \<Rightarrow> ('c \<Rightarrow> string \<Rightarrow> 'a \<Rightarrow> 'r option) \<Rightarrow> string \<Rightarrow> string \<Rightarrow> 'a \<Rightarrow> 'r option" where
  "psm_call dial exchange srv rpcname args =
     (case dial srv of None \<Rightarrow> None | Some c \<Rightarrow> (case exchange c rpcname args of Some reply \<Rightarrow> Some reply | None \<Rightarrow> None))"

definition psm_round ::
  "(nat \<Rightarrow> string \<Rightarrow> 'a \<Rightarrow> 'r option) \<Rightarrow> 'a \<Rightarrow> nat \<Rightarrow> string list \<Rightarrow> (string list \<times> 'r option) option" where
  "psm_round net args k srvs = Some (srvs, first_some (\<lambda>srv. net k srv args) srvs)"

definition pck_Query :: "(nat \<Rightarrow> string \<Rightarrow> PQueryArgs \<Rightarrow> PQueryReply option) \<Rightarrow> int \<Rightarrow> string list \<Rightarrow> PConfig option" where
  "pck_Query net num srvs = map_option (pqConfig \<circ> snd) (forever (psm_round net \<lparr>pqNum = num\<rparr>) 0 srvs)"

definition pck_Join :: "(nat \<Rightarrow> string \<Rightarrow> PJoinArgs \<Rightarrow> unit option) \<Rightarrow> int \<Rightarrow> string list \<Rightarrow> string list \<Rightarrow> unit option" where
  "pck_Join net gid grp srvs = map_option snd (forever (psm_round net \<lparr>pjGID = gid, pjServers = grp\<rparr>) 0 srvs)"

definition pck_Leave :: "(nat \<Rightarrow> string \<Rightarrow> PLeaveArgs \<Rightarrow> unit option) \<Rightarrow> int \<Rightarrow> string list \<Rightarrow> unit option" where
  "pck_Leave net gid srvs = map_option snd (forever (psm_round net \<lparr>plGID = gid\<rparr>) 0 srvs)"

definition pck_Move :: "(nat \<Rightarrow> string \<Rightarrow> PMoveArgs \<Rightarrow> unit option) \<Rightarrow> int \<Rightarrow> int \<Rightarrow> string list \<Rightarrow> unit option" where
  "pck_Move net shard gid srvs = map_option snd (forever (psm_round net \<lparr>pmShard = shard, pmGID = gid\<rparr>) 0 srvs)"

subsection \<open>The sharded key/value service\<close>

definition key2shard :: "string \<Rightarrow> int" where
  "key2shard key =
     (let shard = (if length key > 0 then int (of_char (key ! 0)) else 0) in shard mod int NShards)"

record SKPutAppendArgs =
  skKey :: string
  skValue :: string
  skOp :: string

record SKPutAppendReply =
  skWrongLeader :: bool
  skErr :: string

record SKGetReply =
  skgWrongLeader :: bool
  skgErr :: string
  skgValue :: string

record ShardKV =
  skv_me :: int
  skv_rf :: "unit Raft"
  skv_gid :: int
  skv_masters :: "string list"
  skv_maxraftstate :: int

definition skv_Get :: "string \<Rightarrow> ShardKV \<Rightarrow> ShardKV \<times> SKGetReply" where
  "skv_Get key kv = (kv, \<lparr>skgWrongLeader = False, skgErr = '''', skgValue = ''''\<rparr>)"

definition skv_PutAppend :: "SKPutAppendArgs \<Rightarrow> ShardKV \<Rightarrow> ShardKV \<times> SKPutAppendReply" where
  "skv_PutAppend args kv = (kv, \<lparr>skWrongLeader = False, skErr = ''''\<rparr>)"

definition skv_Kill :: "ShardKV \<Rightarrow> ShardKV" where
  "skv_Kill kv = kv\<lparr>skv_rf := Raft.Kill (skv_rf kv)\<rparr>"

definition skv_StartServer ::
  "nat \<Rightarrow> int \<Rightarrow> unit gobval Persister \<Rightarrow> int \<Rightarrow> int \<Rightarrow> string list \<Rightarrow> int \<Rightarrow> int \<Rightarrow> int \<Rightarrow> ShardKV" where
  "skv_StartServer n i ps mx gid masters now r1 r2 =
     \<lparr>skv_me = i, skv_rf = Make n i ps now r1 r2, skv_gid = gid, skv_masters = masters, skv_maxraftstate = mx\<rparr>"

text \<open>
  One pass over the servers of a group: a server that serves the shard ends the search with its
  answer, one that says it is the wrong group ends it without, the others are passed over.
\<close>

fun group_get :: "(string \<Rightarrow> SKGetReply option) \<Rightarrow> string list \<Rightarrow> string option" where
  "group_get rpc [] = None"
| "group_get rpc (srv # srvs) =
     (case rpc srv of
        Some rep \<Rightarrow>
          if skgWrongLeader rep = False \<and> (skgErr rep = OK \<or> skgErr rep = ErrNoKey)
          then Some (skgValue rep)
          else if skgErr rep = ErrWrongGroup then None
          else group_get rpc srvs
      | None \<Rightarrow> group_get rpc srvs)"

fun group_put :: "(string \<Rightarrow> SKPutAppendReply option) \<Rightarrow> string list \<Rightarrow> unit option" where
  "group_put rpc [] = None"
| "group_put rpc (srv # srvs) =
     (case rpc srv of
        Some rep \<Rightarrow>
          if skWrongLeader rep = False \<and> skErr rep = OK then Some ()
          else if skErr rep = ErrWrongGroup then None
          else group_put rpc srvs
      | None \<Rightarrow> group_put rpc srvs)"

text \<open>
  A round of the loop of \<open>Get\<close> and \<open>PutAppend\<close>: the group that the clerk's configuration assigns to
  the key's shard is tried; without an answer the clerk asks the shard master for its latest
  configuration. \<open>master k\<close> is the outcome of that query in round \<open>k\<close>.
\<close>

definition shard_group :: "string \<Rightarrow> Config \<Rightarrow> string list option" where
  "shard_group key cfg = Groups cfg (Shards cfg ! nat (key2shard key))"

text \<open>The clerk of the sharded service; ends are named, so \<open>make_end\<close> is the identity. A new clerk knows no group yet.\<close>

record SKClerk =
  skck_sm :: SMClerk
  skck_config :: Config

definition skck_MakeClerk :: "string list \<Rightarrow> SKClerk" where
  "skck_MakeClerk masters = \<lparr>skck_sm = sm_MakeClerk masters, skck_config = config0\<rparr>"

lemma new_clerk_knows_no_group: "shard_group key (skck_config (skck_MakeClerk masters)) = None"
  by (simp add: shard_group_def skck_MakeClerk_def config0_def)

definition shard_round ::
  "(nat \<Rightarrow> string list \<Rightarrow> 'r option) \<Rightarrow> (nat \<Rightarrow> Config option) \<Rightarrow> string \<Rightarrow> nat \<Rightarrow> Config \<Rightarrow> (Config \<times> 'r option) option" where
  "shard_round try_group master key k cfg =
     (case (case shard_group key cfg of Some srvs \<Rightarrow> try_group k srvs | None \<Rightarrow> None) of
        Some v \<Rightarrow> Some (cfg, Some v)
      | None \<Rightarrow> do { cfg' \<leftarrow> master k; Some (cfg', None) })"

definition skck_Get ::
  "(nat \<Rightarrow> string \<Rightarrow> string \<Rightarrow> SKGetReply option) \<Rightarrow> (nat \<Rightarrow> Config option) \<Rightarrow> string \<Rightarrow> Config \<Rightarrow> (Config \<times> string) option" where
  "skck_Get net master key cfg =
     forever (shard_round (\<lambda>k. group_get (\<lambda>srv. net k srv key)) master key) 0 cfg"

definition skck_PutAppend ::
  "(nat \<Rightarrow> string \<Rightarrow> SKPutAppendArgs \<Rightarrow> SKPutAppendReply option) \<Rightarrow> (nat \<Rightarrow> Config option) \<Rightarrow>
   string \<Rightarrow> string \<Rightarrow> string \<Rightarrow> Config \<Rightarrow> Config option" where
  "skck_PutAppend net master key val op cfg =
     map_option fst (forever (shard_round
       (\<lambda>k. group_put (\<lambda>srv. net k srv \<lparr>skKey = key, skValue = val, skOp = op\<rparr>)) master key) 0 cfg)"

definition skck_Put where
  "skck_Put net master key val cfg = skck_PutAppend net master key val ''Put'' cfg"

definition skck_Append where
  "skck_Append net master key val cfg = skck_PutAppend net master key val ''Append'' cfg"

subsection \<open>Properties\<close>

lemma key2shard_bounds: "0 \<le> key2shard key \<and> key2shard key < int NShards"
  by (simp add: key2shard_def Let_def NShards_def)

lemma group_get_Some:
  "group_get rpc srvs = Some v \<Longrightarrow>
   \<exists>srv \<in> set srvs. \<exists>rep. rpc srv = Some rep \<and> skgValue rep = v \<and> \<not> skgWrongLeader rep \<and> (skgErr rep = OK \<or> skgErr rep = ErrNoKey)"
  by (induction srvs) (auto split: option.splits if_splits)

lemma shard_round_result:
  "shard_round tg master key k cfg = Some (cfg', Some v) \<Longrightarrow>
   \<exists>srvs. shard_group key cfg = Some srvs \<and> tg k srvs = Some v"
  by (auto simp: shard_round_def split: option.splits bind_splits)

lemma shard_round_none:
  "shard_round tg master key k cfg = Some (cfg', None) \<Longrightarrow> master k = Some cfg'"
  by (auto simp: shard_round_def split: option.splits bind_splits)

text \<open>
  The contract of the clerk's rounds: the clerk holds its first configuration or one that the master
  has handed out, and a result comes from the group that this configuration makes responsible.
\<close>

interpretation sk: retry_contract "shard_round tg master key"
  "\<lambda>cfg. cfg = cfg0 \<or> (\<exists>k. master k = Some cfg)"
  "\<lambda>k cfg v. \<exists>srvs. shard_group key cfg = Some srvs \<and> tg k srvs = Some v"
  for tg master key cfg0
  by unfold_locales (auto dest: shard_round_none shard_round_result)

text \<open>
  C35: a read of the sharded service is answered by the responsible group. If \<open>Get\<close> returns, then
  under the clerk's first configuration, or one the shard master has handed out, the value was
  returned without error by a server of the group to which the key's shard is assigned, one that did not say it
  was the wrong leader; the shard is a valid index, so looking it up does not panic.
\<close>
theorem shard_get_responsible:
  assumes "wf_config cfg0" and "\<forall>k c. master k = Some c \<longrightarrow> wf_config c"
    and "skck_Get net master key cfg0 = Some (cfg', v)"
  shows "\<exists>cfg gid srvs srv rep k. (cfg = cfg0 \<or> (\<exists>j. master j = Some cfg)) \<and>
    nat (key2shard key) < length (Shards cfg) \<and> gid = Shards cfg ! nat (key2shard key) \<and>
    Groups cfg gid = Some srvs \<and> srv \<in> set srvs \<and> net k srv key = Some rep \<and>
    \<not> skgWrongLeader rep \<and> skgValue rep = v \<and> skgErr rep \<in> {OK, ErrNoKey}"
proof -
  obtain m t srvs where t: "t = cfg0 \<or> (\<exists>k. master k = Some t)" "shard_group key t = Some srvs"
    "group_get (\<lambda>srv. net m srv key) srvs = Some v"
    using sk.forever_good [OF _ assms(3) [unfolded skck_Get_def], of cfg0] by auto
  then have "nat (key2shard key) < length (Shards t)"
    using assms(1,2) key2shard_bounds [of key] by (auto simp: wf_config_def)
  moreover obtain srv rep where "srv \<in> set srvs" "net m srv key = Some rep" "skgValue rep = v" "\<not> skgWrongLeader rep"
    "skgErr rep = OK \<or> skgErr rep = ErrNoKey" using group_get_Some [OF t(3)] by blast
  ultimately show ?thesis using t(1,2)
    by (intro exI [of _ t] exI [of _ "Shards t ! nat (key2shard key)"] exI [of _ srvs] exI [of _ srv]
        exI [of _ rep] exI [of _ m]) (simp add: shard_group_def)
qed

definition one_group :: Config where
  "one_group = \<lparr>Num = 1, Shards = replicate NShards 7, Groups = [7 \<mapsto> [''s1'', ''s2'']]\<rparr>"

theorem shard_get_responsible_witness:
  "\<exists>cfg' cfg srvs. skck_Get (\<lambda>k srv key. if srv = ''s2'' then Some \<lparr>skgWrongLeader = False, skgErr = OK, skgValue = ''v''\<rparr> else None)
      (\<lambda>k. Some one_group) ''key'' config0 = Some (cfg', ''v'') \<and> (cfg = config0 \<or> cfg = one_group) \<and>
      Groups cfg (Shards cfg ! nat (key2shard ''key'')) = Some srvs \<and> ''s2'' \<in> set srvs"
proof -
  let ?net = "\<lambda>(k :: nat) srv (key :: string). if srv = ''s2'' then Some \<lparr>skgWrongLeader = False, skgErr = OK, skgValue = ''v''\<rparr> else None"
  let ?step = "shard_round (\<lambda>k. group_get (\<lambda>srv. ?net k srv ''key'')) (\<lambda>k. Some one_group) ''key''"
  have ks: "nat (key2shard ''key'') = 7" by code_simp
  have "?step 0 config0 = Some (one_group, None)"
    by (simp add: shard_round_def shard_group_def config0_def)
  moreover have "?step 1 one_group = Some (one_group, Some ''v'')"
    by (simp add: shard_round_def shard_group_def one_group_def ks NShards_def)
  ultimately have *: "skck_Get ?net (\<lambda>k. Some one_group) ''key'' config0 = Some (one_group, ''v'')"
    unfolding skck_Get_def by (intro forever_returns [of _ 0 config0 1 one_group]) simp_all
  have "wf_config config0" "wf_config one_group" by (simp_all add: wf_config_def config0_def one_group_def)
  then have "\<exists>cfg srvs. (cfg = config0 \<or> cfg = one_group) \<and>
      Groups cfg (Shards cfg ! nat (key2shard ''key'')) = Some srvs \<and> ''s2'' \<in> set srvs"
    using shard_get_responsible [OF _ _ *] by (auto split: if_splits)
  then show ?thesis using * by blast
qed

text \<open>
  With the shard masters of this repository the clerks of the sharded service never return. The
  master's \<open>Query\<close> answers with an empty configuration whatever was joined before, so a clerk that
  starts without groups finds none, whatever the servers would answer.
\<close>
theorem shard_get_never_returns:
  "skck_Get net (\<lambda>k. Some (qConfig (snd (Query \<lparr>qNum = -1\<rparr> sm)))) key config0 = None"
proof -
  let ?master = "\<lambda>k :: nat. Some (qConfig (snd (Query \<lparr>qNum = -1\<rparr> sm)))"
  have "shard_group key cfg = None" if "cfg = config0 \<or> (\<exists>k. ?master k = Some cfg)" for cfg
    using that by (auto simp: shard_group_def Query_def config0_def)
  then show ?thesis
    unfolding skck_Get_def by (intro sk.forever_never [where ?cfg0.0 = config0]) auto
qed

text \<open>The clerks of the shard masters return the first reply that counts.\<close>

lemma ck_Query_returns:
  assumes "\<forall>j < m. \<forall>srv \<in> set srvs. sm_accept (net j srv \<lparr>qNum = num\<rparr>) = None"
    and "srvs = ys @ srv # zs" and "\<forall>s \<in> set ys. sm_accept (net m s \<lparr>qNum = num\<rparr>) = None"
    and "net m srv \<lparr>qNum = num\<rparr> = Some rep" and "smWrongLeader rep = False"
  shows "ck_Query net num srvs = Some (qConfig rep)"
proof -
  have "tries (sm_round net \<lparr>qNum = num\<rparr>) k srvs n srvs" if "k + n \<le> m" for k n
    using that assms(1) by (induction n arbitrary: k) (auto simp: sm_round_def)
  moreover have "first_some (\<lambda>srv. sm_accept (net m srv \<lparr>qNum = num\<rparr>)) srvs = Some rep"
    unfolding assms(2) using assms(3-5) by (induction ys) (simp_all add: sm_accept_def)
  ultimately have "forever (sm_round net \<lparr>qNum = num\<rparr>) 0 srvs = Some (srvs, rep)"
    by (intro forever_returns [of _ 0 srvs m srvs]) (simp_all add: sm_round_def)
  then show ?thesis by (simp add: ck_Query_def)
qed

end
