(* ===== verification/Paxos_Clerks.thy ===== *)
theory Paxos_Clerks
  imports Shards DisKV
begin

text \<open>
  The clerks of the sharded services on sockets: \<^verbatim>\<open>src/paxos-shardkv/client.go\<close> and its copy
  \<^verbatim>\<open>src/diskv/client.go\<close>, which differs in the name of the service only. The clerk asks the shard masters
  through their own clerk, \<open>pck_Query\<close>, which may itself never return.

  \<open>net k srv name args\<close> is the outcome of \<open>call\<close> to server \<open>srv\<close> in round \<open>k\<close> of the clerk's loop, and
  \<open>mnet k j srv args\<close> that of the call to master \<open>srv\<close> in round \<open>j\<close> of the query that round \<open>k\<close> makes; \<open>None\<close> is
  a call that returns false.
\<close>

subsection \<open>Messages and calls\<close>

record PSKPutAppendArgs =
  pskKey :: string
  pskValue :: string
  pskOp :: string

record PSKPutAppendReply =
  pskErr :: string

record PSKGetArgs =
  pskgKey :: string

record PSKGetReply =
  pskgErr :: string
  pskgValue :: string

text \<open>\<open>dial\<close> stands for \<open>rpc.Dial\<close> and \<open>exchange\<close> for \<open>c.Call\<close>, which may fail too.\<close>

definition psk_call :: "(string \<Rightarrow> 'c option) \<Rightarrow> ('c \<Rightarrow> string \<Rightarrow> 'a \<Rightarrow> 'r option) \<Rightarrow> string \<Rightarrow> string \<Rightarrow> 'a \<Rightarrow> 'r option" where
  "psk_call dial exchange srv rpcname args =
     (case dial srv of None \<Rightarrow> None | Some c \<Rightarrow> (case exchange c rpcname args of Some reply \<Rightarrow> Some reply | None \<Rightarrow> None))"

subsection \<open>The clerk\<close>

record PSKClerk =
  psk_sm :: "string list"
  psk_config :: PConfig

definition pskck_MakeClerk :: "string list \<Rightarrow> PSKClerk" where
  "pskck_MakeClerk shardmasters = \<lparr>psk_sm = psm_servers (psm_MakeClerk shardmasters), psk_config = pconfig0\<rparr>"

definition pkey2shard :: "string \<Rightarrow> int" where
  "pkey2shard key =
     (let shard = (if length key > 0 then int (of_char (key ! 0)) else 0) in shard mod int NShards)"

fun try_get :: "(string \<Rightarrow> PSKGetReply option) \<Rightarrow> string list \<Rightarrow> string option" where
  "try_get rpc [] = None"
| "try_get rpc (srv # servers) =
     (case rpc srv of
        Some reply \<Rightarrow>
          if pskgErr reply = OK \<or> pskgErr reply = ErrNoKey then Some (pskgValue reply)
          else if pskgErr reply = ErrWrongGroup then None
          else try_get rpc servers
      | None \<Rightarrow> try_get rpc servers)"

fun try_put :: "(string \<Rightarrow> PSKPutAppendReply option) \<Rightarrow> string list \<Rightarrow> unit option" where
  "try_put rpc [] = None"
| "try_put rpc (srv # servers) =
     (case rpc srv of
        Some reply \<Rightarrow>
          if pskErr reply = OK then Some ()
          else if pskErr reply = ErrWrongGroup then None
          else try_put rpc servers
      | None \<Rightarrow> try_put rpc servers)"

text \<open>
  A round of the loop of \<open>Get\<close> and \<open>PutAppend\<close>. An index outside \<open>Shards\<close> would panic, which is \<open>None\<close> like a
  query that does not return.
\<close>

definition psk_round ::
  "(nat \<Rightarrow> string list \<Rightarrow> 'r option) \<Rightarrow> (nat \<Rightarrow> string list \<Rightarrow> PConfig option) \<Rightarrow> string \<Rightarrow> nat \<Rightarrow> PSKClerk \<Rightarrow>
   (PSKClerk \<times> 'r option) option" where
  "psk_round attempt query key k ck =
     do { gid \<leftarrow> go_nth (pShards (psk_config ck)) (pkey2shard key);
          (case (case pGroups (psk_config ck) gid of Some servers \<Rightarrow> attempt k servers | None \<Rightarrow> None) of
             Some v \<Rightarrow> Some (ck, Some v)
           | None \<Rightarrow> do { config \<leftarrow> query k (psk_sm ck); Some (ck\<lparr>psk_config := config\<rparr>, None) }) }"

definition sock_Get ::
  "string \<Rightarrow> (nat \<Rightarrow> string \<Rightarrow> string \<Rightarrow> PSKGetArgs \<Rightarrow> PSKGetReply option) \<Rightarrow>
   (nat \<Rightarrow> nat \<Rightarrow> string \<Rightarrow> PQueryArgs \<Rightarrow> PQueryReply option) \<Rightarrow> string \<Rightarrow> PSKClerk \<Rightarrow> (PSKClerk \<times> string) option" where
  "sock_Get svc net mnet key ck =
     forever (psk_round (\<lambda>k. try_get (\<lambda>srv. net k srv (svc @ ''.Get'') \<lparr>pskgKey = key\<rparr>))
       (\<lambda>k. pck_Query (mnet k) (-1)) key) 0 ck"

definition sock_PutAppend ::
  "string \<Rightarrow> (nat \<Rightarrow> string \<Rightarrow> string \<Rightarrow> PSKPutAppendArgs \<Rightarrow> PSKPutAppendReply option) \<Rightarrow>
   (nat \<Rightarrow> nat \<Rightarrow> string \<Rightarrow> PQueryArgs \<Rightarrow> PQueryReply option) \<Rightarrow> string \<Rightarrow> string \<Rightarrow> string \<Rightarrow> PSKClerk \<Rightarrow> PSKClerk option" where
  "sock_PutAppend svc net mnet key val op ck =
     map_option fst (forever (psk_round
       (\<lambda>k. try_put (\<lambda>srv. net k srv (svc @ ''.PutAppend'') \<lparr>pskKey = key, pskValue = val, pskOp = op\<rparr>))
       (\<lambda>k. pck_Query (mnet k) (-1)) key) 0 ck)"

definition pskck_Get where "pskck_Get = sock_Get ''ShardKV''"
definition pskck_PutAppend where "pskck_PutAppend = sock_PutAppend ''ShardKV''"
definition pskck_Put where "pskck_Put net mnet key val = pskck_PutAppend net mnet key val ''Put''"
definition pskck_Append where "pskck_Append net mnet key val = pskck_PutAppend net mnet key val ''Append''"

text \<open>The clerk of \<^verbatim>\<open>diskv\<close>.\<close>

definition dk_call :: "(string \<Rightarrow> 'c option) \<Rightarrow> ('c \<Rightarrow> string \<Rightarrow> 'a \<Rightarrow> 'r option) \<Rightarrow> string \<Rightarrow> string \<Rightarrow> 'a \<Rightarrow> 'r option" where
  "dk_call = psk_call"

definition dkck_MakeClerk :: "string list \<Rightarrow> PSKClerk" where
  "dkck_MakeClerk shardmasters = \<lparr>psk_sm = psm_servers (psm_MakeClerk shardmasters), psk_config = pconfig0\<rparr>"

definition dk_key2shard :: "string \<Rightarrow> int" where
  "dk_key2shard = pkey2shard"

definition dkck_Get where "dkck_Get = sock_Get ''DisKV''"
definition dkck_PutAppend where "dkck_PutAppend = sock_PutAppend ''DisKV''"
definition dkck_Put where "dkck_Put net mnet key val = dkck_PutAppend net mnet key val ''Put''"
definition dkck_Append where "dkck_Append net mnet key val = dkck_PutAppend net mnet key val ''Append''"

subsection \<open>What an answer means\<close>

lemma pkey2shard_bounds: "0 \<le> pkey2shard key" "pkey2shard key < int NShards"
  by (simp_all add: pkey2shard_def Let_def NShards_def)

definition p_wf :: "PConfig \<Rightarrow> bool" where
  "p_wf c \<longleftrightarrow> length (pShards c) = NShards"

definition responsible :: "string \<Rightarrow> PConfig \<Rightarrow> string list option" where
  "responsible key c = pGroups c (pShards c ! nat (pkey2shard key))"

lemma psk_round_wf:
  assumes "p_wf (psk_config ck)"
  shows "psk_round attempt query key k ck =
    (case (case responsible key (psk_config ck) of Some servers \<Rightarrow> attempt k servers | None \<Rightarrow> None) of
       Some v \<Rightarrow> Some (ck, Some v)
     | None \<Rightarrow> do { config \<leftarrow> query k (psk_sm ck); Some (ck\<lparr>psk_config := config\<rparr>, None) })"
proof -
  have "go_nth (pShards (psk_config ck)) (pkey2shard key) = Some (pShards (psk_config ck) ! nat (pkey2shard key))"
    using assms pkey2shard_bounds [of key] by (simp add: go_nth_def p_wf_def)
  then show ?thesis by (simp add: psk_round_def responsible_def)
qed

lemma try_get_Some:
  "try_get rpc srvs = Some v \<Longrightarrow> \<exists>srv \<in> set srvs. \<exists>rep. rpc srv = Some rep \<and> pskgErr rep \<in> {OK, ErrNoKey} \<and> pskgValue rep = v"
  by (induction srvs) (auto split: option.splits if_splits)

lemma try_put_Some:
  "try_put rpc srvs = Some u \<Longrightarrow> \<exists>srv \<in> set srvs. \<exists>rep. rpc srv = Some rep \<and> pskErr rep = OK"
  by (induction srvs) (auto split: option.splits if_splits)

lemma psm_round_answer:
  "psm_round net args k srvs = Some (srvs', Some rep) \<Longrightarrow> \<exists>srv \<in> set srvs. net k srv args = Some rep"
  by (auto simp: psm_round_def dest!: first_some_Some)

interpretation pq: retry_contract "psm_round net args" "\<lambda>srvs. srvs = srvs0" "\<lambda>k srvs rep. \<exists>srv \<in> set srvs. net k srv args = Some rep"
  for net args srvs0
  by unfold_locales (simp add: psm_round_def, rule psm_round_answer, blast)

lemma pck_Query_answer:
  assumes "pck_Query net num srvs = Some c"
  obtains j srv rep where "srv \<in> set srvs" "net j srv \<lparr>pqNum = num\<rparr> = Some rep" "pqConfig rep = c"
proof -
  from assms obtain srvs' rep where "forever (psm_round net \<lparr>pqNum = num\<rparr>) 0 srvs = Some (srvs', rep)" and c: "pqConfig rep = c"
    by (auto simp: pck_Query_def)
  from pq.forever_good [OF refl this(1)] obtain m srv where "srv \<in> set srvs" "net m srv \<lparr>pqNum = num\<rparr> = Some rep" by auto
  then show thesis using c by (rule that)
qed

text \<open>
  The configurations a clerk can hold: the one it starts with, and those that a master of its list has
  answered to \<open>Query(-1)\<close>.
\<close>

definition handed_out :: "(nat \<Rightarrow> nat \<Rightarrow> string \<Rightarrow> PQueryArgs \<Rightarrow> PQueryReply option) \<Rightarrow> PSKClerk \<Rightarrow> PConfig \<Rightarrow> bool" where
  "handed_out mnet ck c \<longleftrightarrow> c = psk_config ck \<or>
     (\<exists>k j. \<exists>srv \<in> set (psk_sm ck). \<exists>rep. mnet k j srv \<lparr>pqNum = -1\<rparr> = Some rep \<and> pqConfig rep = c)"

lemma psk_round_sm:
  "psk_round attempt query key k ck = Some (ck', None) \<Longrightarrow> \<exists>c. query k (psk_sm ck) = Some c \<and> ck' = ck\<lparr>psk_config := c\<rparr>"
  by (auto simp: psk_round_def split: bind_splits option.splits)

lemma psk_round_value:
  assumes "psk_round attempt query key k ck = Some (ck', Some v)"
  shows "\<exists>srvs. responsible key (psk_config ck) = Some srvs \<and> attempt k srvs = Some v"
  using assms by (auto simp: psk_round_def responsible_def go_panic split: bind_splits option.splits)

interpretation pk: retry_contract "psk_round attempt (\<lambda>k. pck_Query (mnet k) (-1)) key"
  "\<lambda>ck. psk_sm ck = psk_sm ck0 \<and> handed_out mnet ck0 (psk_config ck)"
  "\<lambda>k ck v. \<exists>srvs. responsible key (psk_config ck) = Some srvs \<and> attempt k srvs = Some v"
  for attempt mnet key ck0
proof (unfold_locales, goal_cases)
  case (1 ck k ck')
  from psk_round_sm [OF 1(2)] obtain c where c: "pck_Query (mnet k) (-1) (psk_sm ck) = Some c" "ck' = ck\<lparr>psk_config := c\<rparr>" by blast
  from c(1) have "handed_out mnet ck0 c" using 1(1) by (elim pck_Query_answer) (auto simp: handed_out_def)
  then show ?case using c(2) 1(1) by simp
qed (rule psk_round_value)

text \<open>
  An acknowledged write. When \<open>PutAppend\<close> of the diskv clerk returns, a server of the group that some
  configuration makes responsible for the key's shard has answered \<open>OK\<close> to exactly this write, and the
  configuration is the clerk's own or one that a master of its list has handed out.
\<close>
theorem dk_put_responsible:
  assumes "dkck_PutAppend net mnet key val op ck = Some ck'"
  shows "\<exists>c srvs srv rep k. handed_out mnet ck c \<and> responsible key c = Some srvs \<and> srv \<in> set srvs \<and>
    net k srv ''DisKV.PutAppend'' \<lparr>pskKey = key, pskValue = val, pskOp = op\<rparr> = Some rep \<and> pskErr rep = OK"
proof -
  let ?rpc = "\<lambda>k srv. net k srv ''DisKV.PutAppend'' \<lparr>pskKey = key, pskValue = val, pskOp = op\<rparr>"
  from assms obtain u where f: "forever (psk_round (\<lambda>k. try_put (?rpc k)) (\<lambda>k. pck_Query (mnet k) (-1)) key) 0 ck = Some (ck', u)"
    by (auto simp: dkck_PutAppend_def sock_PutAppend_def)
  have h: "psk_sm ck = psk_sm ck \<and> handed_out mnet ck (psk_config ck)" by (simp add: handed_out_def)
  obtain m srvs and t :: PSKClerk where
    t: "handed_out mnet ck (psk_config t)" "responsible key (psk_config t) = Some srvs" "try_put (?rpc m) srvs = Some u"
    using pk.forever_good [OF h f, unfolded add_0] by blast
  then show ?thesis using try_put_Some [OF t(3)] by blast
qed

subsection \<open>When the clerk returns\<close>

lemma forever_within:
  assumes "\<And>k s. ok k s \<Longrightarrow> \<exists>s' r. step k s = Some (s', r) \<and> (r = None \<longrightarrow> ok (Suc k) s')"
    and "\<And>s. ok (k + m) s \<Longrightarrow> \<exists>s' v. step (k + m) s = Some (s', Some v)" and "ok k s"
  shows "\<exists>s' v. forever step k s = Some (s', v)"
  using assms(2,3)
proof (induction m arbitrary: k s)
  case 0
  then show ?case by (subst forever.simps) fastforce
next
  case (Suc m)
  obtain s' r where s': "step k s = Some (s', r)" "r = None \<longrightarrow> ok (Suc k) s'" using assms(1) [OF Suc.prems(2)] by blast
  show ?case
  proof (cases r)
    case None
    with s' have "ok (Suc k) s'" by simp
    then have "\<exists>s'' v. forever step (Suc k) s' = Some (s'', v)" using Suc.prems(1) by (intro Suc.IH) simp_all
    then show ?thesis using s'(1) None by (subst forever.simps) simp
  next
    case (Some v)
    then show ?thesis using s'(1) by (subst forever.simps) simp
  qed
qed

lemma pck_Query_returns:
  assumes "srv \<in> set srvs" and "net j srv \<lparr>pqNum = num\<rparr> \<noteq> None"
  shows "\<exists>c. pck_Query net num srvs = Some c"
proof -
  have "\<exists>s' v. forever (psm_round net \<lparr>pqNum = num\<rparr>) 0 srvs = Some (s', v)"
    by (rule forever_within [where ok = "\<lambda>k s. s = srvs" and m = j]) (use assms in \<open>auto simp: psm_round_def simp flip: not_None_eq\<close>)
  then show ?thesis by (auto simp: pck_Query_def)
qed

lemma try_get_total:
  assumes "srv \<in> set srvs" and "rpc srv = Some rep" and "pskgErr rep \<in> {OK, ErrNoKey}"
    and "\<forall>s \<in> set srvs. \<forall>rep. rpc s = Some rep \<longrightarrow> pskgErr rep \<noteq> ErrWrongGroup"
  shows "\<exists>v. try_get rpc srvs = Some v"
  using assms by (induction srvs) (auto split: option.splits)

text \<open>
  C36: a read finds its group. Let every round's query reach some master at some time, and let the masters answer
  the query of round \<open>M\<close> with configurations in which a server of the responsible group is up and
  serves the key, and none denies the shard. Then \<open>Get\<close> of the diskv clerk returns, after at most \<open>M + 1\<close> queries,
  whatever happened before.
\<close>
theorem dk_get_returns:
  assumes masters: "\<And>k. \<exists>j. \<exists>s \<in> set (psk_sm ck). mnet k j s \<lparr>pqNum = -1\<rparr> \<noteq> None"
    and wf: "p_wf (psk_config ck)" "\<And>k j s rep. mnet k j s \<lparr>pqNum = -1\<rparr> = Some rep \<Longrightarrow> p_wf (pqConfig rep)"
    and up: "\<And>j s rep. mnet M j s \<lparr>pqNum = -1\<rparr> = Some rep \<Longrightarrow>
      \<exists>srvs srv r. responsible key (pqConfig rep) = Some srvs \<and> srv \<in> set srvs \<and>
        net (Suc M) srv ''DisKV.Get'' \<lparr>pskgKey = key\<rparr> = Some r \<and> pskgErr r \<in> {OK, ErrNoKey} \<and>
        (\<forall>s \<in> set srvs. \<forall>r. net (Suc M) s ''DisKV.Get'' \<lparr>pskgKey = key\<rparr> = Some r \<longrightarrow> pskgErr r \<noteq> ErrWrongGroup)"
  shows "\<exists>ck' v. dkck_Get net mnet key ck = Some (ck', v)"
proof -
  let ?rpc = "\<lambda>k srv. net k srv ''DisKV.Get'' \<lparr>pskgKey = key\<rparr>"
  let ?step = "psk_round (\<lambda>k. try_get (?rpc k)) (\<lambda>k. pck_Query (mnet k) (-1)) key"
  define ok where "ok k t \<longleftrightarrow> psk_sm t = psk_sm ck \<and> p_wf (psk_config t) \<and>
    (k = Suc M \<longrightarrow> (\<exists>j s rep. mnet M j s \<lparr>pqNum = -1\<rparr> = Some rep \<and> psk_config t = pqConfig rep))" for k and t :: PSKClerk
  have "\<exists>t' r. ?step k t = Some (t', r) \<and> (r = None \<longrightarrow> ok (Suc k) t')" if i: "ok k t" for k t
  proof -
    have t: "psk_sm t = psk_sm ck" "p_wf (psk_config t)" using i by (simp_all add: ok_def)
    obtain c where c: "pck_Query (mnet k) (-1) (psk_sm ck) = Some c" using masters [of k] pck_Query_returns [of _ _ "mnet k"] by blast
    then have "p_wf c \<and> (k = M \<longrightarrow> (\<exists>j s rep. mnet M j s \<lparr>pqNum = -1\<rparr> = Some rep \<and> c = pqConfig rep))"
      using wf(2) by (elim pck_Query_answer) blast
    then have "ok (Suc k) (t\<lparr>psk_config := c\<rparr>)" using t by (auto simp: ok_def)
    then show ?thesis using t c by (auto simp: psk_round_wf split: option.splits)
  qed
  moreover have "\<exists>t' v. ?step (0 + Suc M) t = Some (t', Some v)" if i: "ok (0 + Suc M) t" for t
  proof -
    obtain j s rep where q: "mnet M j s \<lparr>pqNum = -1\<rparr> = Some rep" "psk_config t = pqConfig rep" using i by (auto simp: ok_def)
    from up [OF q(1)] obtain srvs srv r where *: "responsible key (psk_config t) = Some srvs" "srv \<in> set srvs" "?rpc (Suc M) srv = Some r"
      "pskgErr r \<in> {OK, ErrNoKey}" "\<forall>s \<in> set srvs. \<forall>r. ?rpc (Suc M) s = Some r \<longrightarrow> pskgErr r \<noteq> ErrWrongGroup"
      unfolding q(2) by blast
    from try_get_total [OF *(2-5)] obtain v where "try_get (?rpc (Suc M)) srvs = Some v" by blast
    then show ?thesis using i * by (simp add: psk_round_wf ok_def)
  qed
  moreover have "ok 0 ck" using wf(1) by (simp add: ok_def)
  ultimately have "\<exists>t v. forever ?step 0 ck = Some (t, v)" by (rule forever_within)
  then show ?thesis by (simp add: dkck_Get_def sock_Get_def)
qed

subsection \<open>Examples\<close>

text \<open>
  Two masters, of which the first never answers. The first query yields a configuration whose group has no server up; the
  second one whose group has one server down and one that serves the key.
\<close>

definition demo_groups :: "nat \<Rightarrow> PConfig" where
  "demo_groups k = \<lparr>pNum = int k, pShards = replicate NShards 7, pGroups = [7 \<mapsto> if k = 0 then [''a''] else [''b'', ''c'']]\<rparr>"

definition demo_master :: "nat \<Rightarrow> nat \<Rightarrow> string \<Rightarrow> PQueryArgs \<Rightarrow> PQueryReply option" where
  "demo_master k j srv args = (if srv = ''m2'' \<and> j = 1 then Some \<lparr>pqConfig = demo_groups k\<rparr> else None)"

definition demo_get :: "nat \<Rightarrow> string \<Rightarrow> string \<Rightarrow> PSKGetArgs \<Rightarrow> PSKGetReply option" where
  "demo_get k srv name args = (if srv = ''c'' then Some \<lparr>pskgErr = OK, pskgValue = ''v''\<rparr> else None)"

definition demo_put :: "nat \<Rightarrow> string \<Rightarrow> string \<Rightarrow> PSKPutAppendArgs \<Rightarrow> PSKPutAppendReply option" where
  "demo_put k srv name args = (if srv = ''c'' then Some \<lparr>pskErr = OK\<rparr> else None)"

lemma demo_group: "responsible key (demo_groups k) = Some (if k = 0 then [''a''] else [''b'', ''c''])"
  using pkey2shard_bounds [of key] by (simp add: responsible_def demo_groups_def)

lemma demo_wf: "p_wf (demo_groups k)" "p_wf pconfig0"
  by (simp_all add: p_wf_def demo_groups_def pconfig0_def)

theorem dk_get_returns_witness:
  "\<exists>ck' v. dkck_Get demo_get demo_master ''key'' (dkck_MakeClerk [''m1'', ''m2'']) = Some (ck', v)"
proof (rule dk_get_returns [where M = 1], goal_cases)
  case (1 k)
  show ?case by (rule exI [of _ 1]) (simp add: dkck_MakeClerk_def psm_MakeClerk_def demo_master_def)
next
  case (4 j s rep)
  then have "rep = \<lparr>pqConfig = demo_groups 1\<rparr>" by (simp add: demo_master_def split: if_splits)
  then show ?case by (auto simp: demo_group demo_get_def OK_def ErrWrongGroup_def)
qed (auto simp: demo_wf demo_master_def dkck_MakeClerk_def psm_MakeClerk_def split: if_splits)

lemma demo_put_result:
  "dkck_PutAppend demo_put demo_master ''key'' ''v'' ''Put'' (dkck_MakeClerk [''m1'', ''m2'']) =
     Some \<lparr>psk_sm = [''m1'', ''m2''], psk_config = demo_groups 1\<rparr>"
proof -
  let ?ck = "\<lambda>c. \<lparr>psk_sm = [''m1'', ''m2''], psk_config = c\<rparr>"
  let ?step = "psk_round (\<lambda>k. try_put (\<lambda>srv. demo_put k srv ''DisKV.PutAppend'' \<lparr>pskKey = ''key'', pskValue = ''v'', pskOp = ''Put''\<rparr>))
    (\<lambda>k. pck_Query (demo_master k) (-1)) ''key''"
  have q: "pck_Query (demo_master k) (-1) [''m1'', ''m2''] = Some (demo_groups k)" for k
  proof -
    have "forever (psm_round (demo_master k) \<lparr>pqNum = -1\<rparr>) 0 [''m1'', ''m2''] = Some ([''m1'', ''m2''], \<lparr>pqConfig = demo_groups k\<rparr>)"
      by (rule forever_returns [where m = 1 and t = "[''m1'', ''m2'']"]) (simp_all add: psm_round_def demo_master_def)
    then show ?thesis by (simp add: pck_Query_def)
  qed
  have "?step 0 (?ck pconfig0) = Some (?ck (demo_groups 0), None)"
    "?step 1 (?ck (demo_groups 0)) = Some (?ck (demo_groups 1), None)"
    "?step 2 (?ck (demo_groups 1)) = Some (?ck (demo_groups 1), Some ())"
    by (simp_all add: psk_round_wf demo_wf demo_group q demo_put_def OK_def) (simp add: responsible_def pconfig0_def q)
  then have "forever ?step 0 (?ck pconfig0) = Some (?ck (demo_groups 1), ())"
    by (intro forever_returns [where m = 2 and t = "?ck (demo_groups 1)"]) (simp_all add: numeral_2_eq_2)
  then show ?thesis by (simp add: dkck_PutAppend_def sock_PutAppend_def dkck_MakeClerk_def psm_MakeClerk_def)
qed

theorem dk_put_responsible_witness:
  "\<exists>c srvs. handed_out demo_master (dkck_MakeClerk [''m1'', ''m2'']) c \<and> responsible ''key'' c = Some srvs \<and> ''c'' \<in> set srvs"
proof -
  obtain c srvs srv rep k where c: "handed_out demo_master (dkck_MakeClerk [''m1'', ''m2'']) c" "responsible ''key'' c = Some srvs" "srv \<in> set srvs"
    "demo_put k srv ''DisKV.PutAppend'' \<lparr>pskKey = ''key'', pskValue = ''v'', pskOp = ''Put''\<rparr> = Some rep"
    using dk_put_responsible [OF demo_put_result] by blast
  then have "srv = ''c''" by (simp add: demo_put_def split: if_splits)
  then show ?thesis using c by blast
qed

end
