(* ===== verification/Labrpc.thy ===== *)
theory Labrpc
  imports Prelude
begin

text \<open>
  The simulated network, \<^verbatim>\<open>src/labrpc/labrpc.go\<close>: client ends, servers with their services, and the
  delivery of one request with its losses. Server objects have an identity (the code compares
  pointers to find out whether a server was replaced), so a server is an address into \<open>objs\<close>. The
  random numbers and the events that happen while a handler runs are arguments. \<open>gob\<close> moves values
  unchanged. A fatal error or panic is \<open>None\<close>.
\<close>

subsection \<open>Messages, services and servers\<close>

record ('e, 'a) reqMsg =
  rq_endname :: 'e
  svcMeth :: string
  rq_args :: 'a

record 'b replyMsg =
  ok :: bool
  reply :: "'b option"

definition failed :: "'b replyMsg" where
  "failed = \<lparr>ok = False, reply = None\<rparr>"

text \<open>A method as reflection sees it, and a service with its receiver.\<close>

record ('a, 'b, 'r) Method =
  mname :: string
  PkgPath :: string
  NumIn :: int
  In2Ptr :: bool
  NumOut :: int
  Func :: "'r \<Rightarrow> 'a \<Rightarrow> 'r \<times> 'b"

record ('a, 'b, 'r) Service =
  svc_name :: string
  rcvr :: 'r
  methods :: "string \<rightharpoonup> ('a, 'b, 'r) Method"

definition suitable :: "('a, 'b, 'r) Method \<Rightarrow> bool" where
  "suitable m \<longleftrightarrow> \<not> (PkgPath m \<noteq> '''' \<or> NumIn m \<noteq> 3 \<or> \<not> In2Ptr m \<or> NumOut m \<noteq> 0)"

definition MakeService :: "string \<Rightarrow> 'r \<Rightarrow> ('a, 'b, 'r) Method list \<Rightarrow> ('a, 'b, 'r) Service" where
  "MakeService name r ms =
     \<lparr>svc_name = name, rcvr = r,
      methods = fold (\<lambda>m tab. if suitable m then tab(mname m \<mapsto> m) else tab) ms Map.empty\<rparr>"

definition Service_dispatch ::
  "string \<Rightarrow> ('e, 'a) reqMsg \<Rightarrow> ('a, 'b, 'r) Service \<Rightarrow> (('a, 'b, 'r) Service \<times> 'b replyMsg) option" where
  "Service_dispatch methname req svc =
     (case methods svc methname of
        Some m \<Rightarrow>
          let (r', rep) = Func m (rcvr svc) (rq_args req)
          in Some (svc\<lparr>rcvr := r'\<rparr>, \<lparr>ok = True, reply = Some rep\<rparr>)
      | None \<Rightarrow> None)"

record ('a, 'b, 'r) Server =
  services :: "string \<rightharpoonup> ('a, 'b, 'r) Service"
  count :: int

definition MakeServer :: "('a, 'b, 'r) Server" where
  "MakeServer = \<lparr>services = Map.empty, count = 0\<rparr>"

definition AddService :: "('a, 'b, 'r) Service \<Rightarrow> ('a, 'b, 'r) Server \<Rightarrow> ('a, 'b, 'r) Server" where
  "AddService svc rs = rs\<lparr>services := (services rs)(svc_name svc \<mapsto> svc)\<rparr>"

text \<open>\<open>strings.LastIndex\<close> for one character.\<close>

fun last_index_from :: "int \<Rightarrow> char \<Rightarrow> string \<Rightarrow> int \<Rightarrow> int" where
  "last_index_from i c [] found = found"
| "last_index_from i c (x # xs) found = last_index_from (i + 1) c xs (if x = c then i else found)"

definition LastIndex :: "string \<Rightarrow> char \<Rightarrow> int" where
  "LastIndex s c = last_index_from 0 c s (-1)"

definition Server_dispatch ::
  "('e, 'a) reqMsg \<Rightarrow> ('a, 'b, 'r) Server \<Rightarrow> (('a, 'b, 'r) Server \<times> 'b replyMsg) option" where
  "Server_dispatch req rs =
     do { let rs1 = rs\<lparr>count := count rs + 1\<rparr>;
          let dot = LastIndex (svcMeth req) (CHR ''.'');
          serviceName \<leftarrow> go_take (svcMeth req) dot;
          methodName \<leftarrow> go_drop (svcMeth req) (dot + 1);
          service \<leftarrow> services rs1 serviceName;
          (svc', rep) \<leftarrow> Service_dispatch methodName req service;
          Some (rs1\<lparr>services := (services rs1)(serviceName \<mapsto> svc')\<rparr>, rep) }"

definition Server_GetCount :: "('a, 'b, 'r) Server \<Rightarrow> int" where
  "Server_GetCount rs = count rs"

subsection \<open>The network\<close>

record ('e, 's, 'a, 'b, 'r) Network =
  reliable :: bool
  longDelays :: bool
  longReordering :: bool
  ends :: "'e \<rightharpoonup> 'e"
  enabled :: "'e \<rightharpoonup> bool"
  servers :: "'s \<rightharpoonup> nat option"
  connections :: "'e \<rightharpoonup> 's option"
  objs :: "nat \<rightharpoonup> ('a, 'b, 'r) Server"

definition MakeNetwork :: "('e, 's, 'a, 'b, 'r) Network" where
  "MakeNetwork = \<lparr>reliable = True, longDelays = False, longReordering = False, ends = Map.empty,
     enabled = Map.empty, servers = Map.empty, connections = Map.empty, objs = Map.empty\<rparr>"

definition Reliable :: "bool \<Rightarrow> ('e, 's, 'a, 'b, 'r) Network \<Rightarrow> ('e, 's, 'a, 'b, 'r) Network" where
  "Reliable yes rn = rn\<lparr>reliable := yes\<rparr>"

definition LongReordering :: "bool \<Rightarrow> ('e, 's, 'a, 'b, 'r) Network \<Rightarrow> ('e, 's, 'a, 'b, 'r) Network" where
  "LongReordering yes rn = rn\<lparr>longReordering := yes\<rparr>"

definition LongDelays :: "bool \<Rightarrow> ('e, 's, 'a, 'b, 'r) Network \<Rightarrow> ('e, 's, 'a, 'b, 'r) Network" where
  "LongDelays yes rn = rn\<lparr>longDelays := yes\<rparr>"

definition ReadEndnameInfo ::
  "'e \<Rightarrow> ('e, 's, 'a, 'b, 'r) Network \<Rightarrow> bool \<times> 's option \<times> nat option \<times> bool \<times> bool" where
  "ReadEndnameInfo endname rn =
     (let en = zget False (enabled rn) endname;
          servername = zget None (connections rn) endname;
          server = (case servername of None \<Rightarrow> None | Some s \<Rightarrow> zget None (servers rn) s)
      in (en, servername, server, reliable rn, longReordering rn))"

definition IsServerDead :: "'e \<Rightarrow> 's \<Rightarrow> nat \<Rightarrow> ('e, 's, 'a, 'b, 'r) Network \<Rightarrow> bool" where
  "IsServerDead endname servername server rn \<longleftrightarrow>
     zget False (enabled rn) endname = False \<or> zget None (servers rn) servername \<noteq> Some server"

definition MakeEnd :: "'e \<Rightarrow> ('e, 's, 'a, 'b, 'r) Network \<Rightarrow> ('e, 's, 'a, 'b, 'r) Network option" where
  "MakeEnd endname rn =
     (if ends rn endname \<noteq> None then None
      else Some (rn\<lparr>ends := (ends rn)(endname \<mapsto> endname),
                    enabled := (enabled rn)(endname \<mapsto> False),
                    connections := (connections rn)(endname \<mapsto> None)\<rparr>))"

definition AddServer :: "'s \<Rightarrow> nat \<Rightarrow> ('e, 's, 'a, 'b, 'r) Network \<Rightarrow> ('e, 's, 'a, 'b, 'r) Network" where
  "AddServer servername rs rn = rn\<lparr>servers := (servers rn)(servername \<mapsto> Some rs)\<rparr>"

definition DeleteServer :: "'s \<Rightarrow> ('e, 's, 'a, 'b, 'r) Network \<Rightarrow> ('e, 's, 'a, 'b, 'r) Network" where
  "DeleteServer servername rn = rn\<lparr>servers := (servers rn)(servername \<mapsto> None)\<rparr>"

definition Connect :: "'e \<Rightarrow> 's \<Rightarrow> ('e, 's, 'a, 'b, 'r) Network \<Rightarrow> ('e, 's, 'a, 'b, 'r) Network" where
  "Connect endname servername rn = rn\<lparr>connections := (connections rn)(endname \<mapsto> Some servername)\<rparr>"

definition Enable :: "'e \<Rightarrow> bool \<Rightarrow> ('e, 's, 'a, 'b, 'r) Network \<Rightarrow> ('e, 's, 'a, 'b, 'r) Network" where
  "Enable endname b rn = rn\<lparr>enabled := (enabled rn)(endname \<mapsto> b)\<rparr>"

definition GetCount :: "'s \<Rightarrow> ('e, 's, 'a, 'b, 'r) Network \<Rightarrow> int option" where
  "GetCount servername rn =
     do { p \<leftarrow> zget None (servers rn) servername; svr \<leftarrow> objs rn p; Some (Server_GetCount svr) }"

subsection \<open>Processing a request\<close>

text \<open>
  The decisions of \<open>ProcessReq\<close> before the handler runs. \<open>r1\<close> is \<open>rand.Int() % 1000\<close>. The result
  carries what the goroutine remembers: the server and the two flags it has read.
\<close>

datatype 's admission =
    Unreachable
  | Dropped
  | Admitted 's nat bool bool

definition admit :: "int \<Rightarrow> 'e \<Rightarrow> ('e, 's, 'a, 'b, 'r) Network \<Rightarrow> 's admission" where
  "admit r1 endname rn =
     (case ReadEndnameInfo endname rn of
        (True, Some servername, Some server, rel, reo) \<Rightarrow>
          if rel = False \<and> r1 < 100 then Dropped else Admitted servername server rel reo
      | _ \<Rightarrow> Unreachable)"

text \<open>
  The waiting loop: \<open>Done\<close> is the arrival of the handler's reply, \<open>Poll\<close> the timer, at which the
  network is in the given state. \<open>None\<close> is a loop that is still waiting when the events end.
\<close>

datatype ('e, 's, 'a, 'b, 'r) wait_event = Done | Poll "('e, 's, 'a, 'b, 'r) Network"

fun wait_reply ::
  "'e \<Rightarrow> 's \<Rightarrow> nat \<Rightarrow> ('e, 's, 'a, 'b, 'r) wait_event list \<Rightarrow> bool option" where
  "wait_reply endname servername server [] = None"
| "wait_reply endname servername server (Done # evs) = Some True"
| "wait_reply endname servername server (Poll rn # evs) =
     (if IsServerDead endname servername server rn then Some False
      else wait_reply endname servername server evs)"

text \<open>
  The decision about the reply: \<open>r2\<close> is \<open>rand.Int() % 1000\<close> and \<open>r3\<close> is \<open>rand.Intn(900)\<close>. The flag
  tells whether the reply is delayed.
\<close>

definition finish ::
  "int \<Rightarrow> int \<Rightarrow> 'e \<Rightarrow> 's \<Rightarrow> nat \<Rightarrow> bool \<Rightarrow> bool \<Rightarrow> bool \<Rightarrow> 'b replyMsg \<Rightarrow>
   ('e, 's, 'a, 'b, 'r) Network \<Rightarrow> 'b replyMsg \<times> bool" where
  "finish r2 r3 endname servername server rel reo replyOK rep rn =
     (if replyOK = False \<or> IsServerDead endname servername server rn then (failed, False)
      else if rel = False \<and> r2 < 100 then (failed, False)
      else if reo = True \<and> r3 < 600 then (rep, True)
      else (rep, False))"

text \<open>
  The whole of \<open>ProcessReq\<close>: \<open>rn\<close> is the network when the request is read, \<open>rn1\<close> when the handler is
  called, \<open>evs\<close> what happens while it runs, \<open>rn2\<close> the network at the end. The result is the network
  with the served object updated, and the reply. The handler runs whether or not its reply is used.
\<close>

definition serve :: "nat \<Rightarrow> ('e, 'a) reqMsg \<Rightarrow> ('e, 's, 'a, 'b, 'r) Network \<Rightarrow>
    (('e, 's, 'a, 'b, 'r) Network \<times> 'b replyMsg) option" where
  "serve server req rn =
     do { rs \<leftarrow> objs rn server;
          (rs', rep) \<leftarrow> Server_dispatch req rs;
          Some (rn\<lparr>objs := (objs rn)(server \<mapsto> rs')\<rparr>, rep) }"

definition ProcessReq ::
  "int \<Rightarrow> int \<Rightarrow> int \<Rightarrow> ('e, 'a) reqMsg \<Rightarrow> ('e, 's, 'a, 'b, 'r) Network \<Rightarrow> ('e, 's, 'a, 'b, 'r) Network \<Rightarrow>
   ('e, 's, 'a, 'b, 'r) wait_event list \<Rightarrow> ('e, 's, 'a, 'b, 'r) Network \<Rightarrow>
   (('e, 's, 'a, 'b, 'r) Network \<times> 'b replyMsg) option" where
  "ProcessReq r1 r2 r3 req rn rn1 evs rn2 =
     (case admit r1 (rq_endname req) rn of
        Unreachable \<Rightarrow> Some (rn1, failed)
      | Dropped \<Rightarrow> Some (rn1, failed)
      | Admitted servername server rel reo \<Rightarrow>
          do { (rn1', rep) \<leftarrow> serve server req rn1;
               replyOK \<leftarrow> wait_reply (rq_endname req) servername server evs;
               Some (rn1', fst (finish r2 r3 (rq_endname req) servername server rel reo replyOK rep rn2)) })"

text \<open>\<open>ClientEnd.Call\<close>: the reply the caller decodes, or \<open>None\<close> when the call failed.\<close>

definition Call_result :: "'b replyMsg \<Rightarrow> 'b option" where
  "Call_result rep = (if ok rep then reply rep else None)"

definition Call_request :: "'e \<Rightarrow> string \<Rightarrow> 'a \<Rightarrow> ('e, 'a) reqMsg" where
  "Call_request endname meth args = \<lparr>rq_endname = endname, svcMeth = meth, rq_args = args\<rparr>"

subsection \<open>Routing\<close>

lemma last_index_append:
  "c \<notin> set ys \<Longrightarrow> last_index_from i c (xs @ c # ys) f = i + int (length xs)"
proof (induction xs arbitrary: i f)
  case Nil
  have "last_index_from j c ys g = g" for j g
    using Nil by (induction ys arbitrary: j) auto
  then show ?case by simp
qed simp

lemma last_index_none: "c \<notin> set xs \<Longrightarrow> last_index_from i c xs f = f"
  by (induction xs arbitrary: i) auto

lemma LastIndex_split: "c \<notin> set ys \<Longrightarrow> LastIndex (xs @ c # ys) c = int (length xs)"
  by (simp add: LastIndex_def last_index_append)

lemma split_name:
  assumes "CHR ''.'' \<notin> set m"
  shows "go_take (s @ ''.'' @ m) (LastIndex (s @ ''.'' @ m) (CHR ''.'')) = Some s"
    and "go_drop (s @ ''.'' @ m) (LastIndex (s @ ''.'' @ m) (CHR ''.'') + 1) = Some m"
  using LastIndex_split [OF assms, of s] by (simp_all add: go_take_def go_drop_def nat_add_distrib)

text \<open>
  Routing. A request for \<open>service.method\<close> reaches the method of that name in the service of that
  name, also when the service's name contains dots; the server counts it, the receiver is the one the
  method returns, and no other service changes.
\<close>
theorem dispatch_routes:
  assumes "svcMeth req = s @ ''.'' @ m" and "CHR ''.'' \<notin> set m"
    and "services rs s = Some svc" and "methods svc m = Some meth"
    and "Func meth (rcvr svc) (rq_args req) = (r', rep)"
  shows "\<exists>rs'. Server_dispatch req rs = Some (rs', \<lparr>ok = True, reply = Some rep\<rparr>) \<and>
    count rs' = count rs + 1 \<and> map_option rcvr (services rs' s) = Some r' \<and>
    (\<forall>s'. s' \<noteq> s \<longrightarrow> services rs' s' = services rs s')"
  using assms split_name [OF assms(2), of s]
  by (simp add: Server_dispatch_def Service_dispatch_def)

definition echo_method :: "(int, int, int) Method" where
  "echo_method = \<lparr>mname = ''Add'', PkgPath = '''', NumIn = 3, In2Ptr = True, NumOut = 0,
     Func = (\<lambda>r a. (r + a, r))\<rparr>"

definition echo_server :: "(int, int, int) Server" where
  "echo_server = AddService (MakeService ''a.b'' 5 [echo_method]) MakeServer"

theorem dispatch_routes_witness:
  "\<exists>rs'. Server_dispatch (Call_request (0 :: nat) ''a.b.Add'' 3) echo_server = Some (rs', \<lparr>ok = True, reply = Some 5\<rparr>) \<and>
     count rs' = 1 \<and> map_option rcvr (services rs' ''a.b'') = Some 8"
  using dispatch_routes [of "Call_request (0 :: nat) ''a.b.Add'' 3" "''a.b''" "''Add''" echo_server
      "MakeService ''a.b'' 5 [echo_method]" echo_method 8 5]
  by (auto simp: Call_request_def echo_server_def AddService_def MakeServer_def MakeService_def
      suitable_def echo_method_def)

text \<open>A method name without a dot, an unknown service and an unknown method stop the program.\<close>

lemma dispatch_no_dot: "CHR ''.'' \<notin> set (svcMeth req) \<Longrightarrow> Server_dispatch req rs = None"
  by (simp add: Server_dispatch_def LastIndex_def last_index_none go_take_def)

lemma dispatch_unknown_service:
  "svcMeth req = s @ ''.'' @ m \<Longrightarrow> CHR ''.'' \<notin> set m \<Longrightarrow> services rs s = None \<Longrightarrow> Server_dispatch req rs = None"
  using split_name [of m s] by (simp add: Server_dispatch_def)

lemma dispatch_unknown_method:
  "svcMeth req = s @ ''.'' @ m \<Longrightarrow> CHR ''.'' \<notin> set m \<Longrightarrow> services rs s = Some svc \<Longrightarrow> methods svc m = None \<Longrightarrow>
   Server_dispatch req rs = None"
  using split_name [of m s] by (simp add: Server_dispatch_def Service_dispatch_def)

subsection \<open>Delivery\<close>

lemma admit_Admitted:
  "admit r1 e rn = Admitted sn srv rel reo \<longleftrightarrow>
     zget False (enabled rn) e \<and> zget None (connections rn) e = Some sn \<and>
     zget None (servers rn) sn = Some srv \<and> rel = reliable rn \<and> reo = longReordering rn \<and>
     \<not> (\<not> reliable rn \<and> r1 < 100)"
  by (auto simp: admit_def ReadEndnameInfo_def Let_def split: option.splits bool.splits)

lemma Server_dispatch_count: "Server_dispatch req rs = Some (rs', rep) \<Longrightarrow> count rs' = count rs + 1 \<and> ok rep"
  by (auto simp: Server_dispatch_def Service_dispatch_def Let_def split: bind_splits option.splits prod.splits)

lemma serve_once:
  assumes "serve server req rn = Some (rn', rep)"
  obtains rs rs' where "objs rn server = Some rs" "Server_dispatch req rs = Some (rs', rep)"
    "rn' = rn\<lparr>objs := (objs rn)(server \<mapsto> rs')\<rparr>" "count rs' = count rs + 1"
  using assms by (auto simp: serve_def dest: Server_dispatch_count split: bind_splits)

text \<open>
  C32: at most once. When \<open>ProcessReq\<close> has replied, either nothing was executed and the reply is a
  failure, or exactly one server executed the request exactly once: the server that the client end
  was connected to when it was enabled. A reply that succeeds is the reply of that execution, and
  then the end was still enabled and the server still registered under its name at the end.
\<close>
theorem call_at_most_once:
  assumes "ProcessReq r1 r2 r3 req rn rn1 evs rn2 = Some (rn', rep)"
  shows "(rn' = rn1 \<and> rep = failed) \<or>
    (\<exists>sn srv rs rs' rep'. zget False (enabled rn) (rq_endname req) \<and>
       zget None (connections rn) (rq_endname req) = Some sn \<and> zget None (servers rn) sn = Some srv \<and>
       objs rn1 srv = Some rs \<and> Server_dispatch req rs = Some (rs', rep') \<and>
       rn' = rn1\<lparr>objs := (objs rn1)(srv \<mapsto> rs')\<rparr> \<and> count rs' = count rs + 1 \<and>
       (rep = failed \<or> rep = rep' \<and> \<not> IsServerDead (rq_endname req) sn srv rn2))"
proof (cases "admit r1 (rq_endname req) rn")
  case (Admitted sn srv rel reo)
  then obtain rn1' rep' b where s: "serve srv req rn1 = Some (rn1', rep')"
    and r: "rn' = rn1'" "rep = fst (finish r2 r3 (rq_endname req) sn srv rel reo b rep' rn2)"
    using assms by (auto simp: ProcessReq_def split: bind_splits)
  have "rep = failed \<or> rep = rep' \<and> \<not> IsServerDead (rq_endname req) sn srv rn2"
    using r(2) by (simp add: finish_def split: if_splits)
  then show ?thesis
    using Admitted [unfolded admit_Admitted] r(1) by (intro disjI2) (rule serve_once [OF s], blast)
qed (use assms in \<open>simp_all add: ProcessReq_def\<close>)

lemma echo_dispatch:
  "\<exists>rs'. Server_dispatch (Call_request (0 :: nat) ''a.b.Add'' 3) echo_server = Some (rs', \<lparr>ok = True, reply = Some 5\<rparr>)"
  using split_name [of "''Add''" "''a.b''"]
  by (simp add: Server_dispatch_def Service_dispatch_def Call_request_def echo_server_def AddService_def
      MakeServer_def MakeService_def suitable_def echo_method_def)

definition echo_net :: "(nat, string, int, int, int) Network" where
  "echo_net = (Enable 0 True (Connect 0 ''srv'' (AddServer ''srv'' 7 MakeNetwork)))\<lparr>objs := [7 \<mapsto> echo_server]\<rparr>"

theorem call_at_most_once_witness:
  "\<exists>rn' rs'. ProcessReq 0 0 0 (Call_request 0 ''a.b.Add'' 3) echo_net echo_net [Done] (DeleteServer ''srv'' echo_net) =
     Some (rn', failed) \<and> objs rn' 7 = Some rs' \<and> count rs' = 1"
proof -
  let ?req = "Call_request (0 :: nat) ''a.b.Add'' 3"
  let ?dead = "DeleteServer ''srv'' echo_net"
  obtain rs' where d: "Server_dispatch ?req echo_server = Some (rs', \<lparr>ok = True, reply = Some 5\<rparr>)"
    using echo_dispatch by blast
  then have p: "ProcessReq 0 0 0 ?req echo_net echo_net [Done] ?dead = Some (echo_net\<lparr>objs := [7 \<mapsto> rs']\<rparr>, failed)"
    by (simp add: ProcessReq_def admit_def ReadEndnameInfo_def serve_def finish_def IsServerDead_def echo_net_def
        Enable_def Connect_def AddServer_def MakeNetwork_def DeleteServer_def Call_request_def)
  have "count rs' = 1"
    using Server_dispatch_count [OF d] by (simp add: echo_server_def AddService_def MakeServer_def)
  then show ?thesis using call_at_most_once [OF p] p by auto
qed

lemma wait_reply_Done:
  "(\<forall>rn. Poll rn \<in> set evs \<longrightarrow> \<not> IsServerDead e sn srv rn) \<Longrightarrow> Done \<in> set evs \<Longrightarrow> wait_reply e sn srv evs = Some True"
  by (induction e sn srv evs rule: wait_reply.induct) auto

text \<open>
  A reliable network delivers. If the network is reliable, the end is enabled and connected to a
  registered server, and end and server stay so while the handler runs, then the caller gets the
  reply of the handler.
\<close>
theorem reliable_call_delivers:
  assumes "reliable rn" and "zget False (enabled rn) (rq_endname req)"
    and "zget None (connections rn) (rq_endname req) = Some sn" and "zget None (servers rn) sn = Some srv"
    and "objs rn1 srv = Some rs" and "Server_dispatch req rs = Some (rs', \<lparr>ok = True, reply = Some v\<rparr>)"
    and "Done \<in> set evs" and "\<forall>rn'. Poll rn' \<in> set evs \<longrightarrow> \<not> IsServerDead (rq_endname req) sn srv rn'"
    and "\<not> IsServerDead (rq_endname req) sn srv rn2"
  shows "\<exists>rn' rep. ProcessReq r1 r2 r3 req rn rn1 evs rn2 = Some (rn', rep) \<and> Call_result rep = Some v"
proof -
  have "admit r1 (rq_endname req) rn = Admitted sn srv True (longReordering rn)"
    using assms(1-4) by (simp add: admit_Admitted)
  moreover have "wait_reply (rq_endname req) sn srv evs = Some True"
    using assms(7,8) by (intro wait_reply_Done)
  ultimately show ?thesis
    using assms(5,6,9) by (simp add: ProcessReq_def serve_def finish_def Call_result_def)
qed

theorem reliable_call_delivers_witness:
  "\<exists>rn' rep. ProcessReq 0 0 0 (Call_request 0 ''a.b.Add'' 3) echo_net echo_net [Poll echo_net, Done] echo_net =
     Some (rn', rep) \<and> Call_result rep = Some 5"
proof -
  let ?req = "Call_request (0 :: nat) ''a.b.Add'' 3"
  obtain rs' where "Server_dispatch ?req echo_server = Some (rs', \<lparr>ok = True, reply = Some 5\<rparr>)"
    using echo_dispatch by blast
  then show ?thesis
    by (intro reliable_call_delivers [where sn = "''srv''" and srv = 7 and rs = echo_server])
      (simp_all add: echo_net_def Enable_def Connect_def AddServer_def MakeNetwork_def Call_request_def IsServerDead_def)
qed

subsection \<open>The connection table\<close>

text \<open>
  The contract of the table that the testers rely on when they partition, crash and restart servers:
  an end reaches the server it is connected to exactly while it is enabled and that server is
  registered, and each operation changes that for its own end or server only.
\<close>

locale connection_table =
  fixes target :: "'e \<Rightarrow> 'n \<Rightarrow> nat option"
    and enable :: "'e \<Rightarrow> bool \<Rightarrow> 'n \<Rightarrow> 'n"
    and conn :: "'e \<Rightarrow> 's \<Rightarrow> 'n \<Rightarrow> 'n"
    and add :: "'s \<Rightarrow> nat \<Rightarrow> 'n \<Rightarrow> 'n"
    and del :: "'s \<Rightarrow> 'n \<Rightarrow> 'n"
  assumes disabled: "target e (enable e False n) = None"
    and enable_other: "e' \<noteq> e \<Longrightarrow> target e' (enable e b n) = target e' n"
    and connected: "target e (enable e True (conn e s (add s p n))) = Some p"
    and deleted: "target e (enable e b (conn e s (del s n))) = None"
    and connect_other: "e' \<noteq> e \<Longrightarrow> target e' (conn e s n) = target e' n"
begin

text \<open>Disabling a set of ends cuts exactly those off.\<close>

lemma partition_cuts:
  "target e (fold (\<lambda>e. enable e False) es n) = (if e \<in> set es then None else target e n)"
proof (induction es arbitrary: n)
  case (Cons e' es)
  then show ?case using disabled enable_other by (cases "e = e'") auto
qed simp

end

definition reaches :: "'e \<Rightarrow> ('e, 's, 'a, 'b, 'r) Network \<Rightarrow> nat option" where
  "reaches e rn = (case ReadEndnameInfo e rn of (en, sn, srv, rel, reo) \<Rightarrow> if en then srv else None)"

interpretation ct: connection_table reaches Enable Connect AddServer DeleteServer
  by unfold_locales
    (simp_all add: reaches_def ReadEndnameInfo_def Enable_def Connect_def AddServer_def DeleteServer_def Let_def
      split: option.split)

text \<open>
  A partition. After the ends of a list have been disabled, a request over one of them is
  answered with a failure and executes nothing, whatever the random numbers and later events; the
  other ends reach what they reached before.
\<close>
theorem partition_isolates:
  fixes rn :: "('e, 's, 'a, 'b, 'r) Network" and es :: "'e list"
  defines "split_net \<equiv> fold (\<lambda>e. Enable e False) es rn"
  shows "(rq_endname req \<in> set es \<longrightarrow> ProcessReq r1 r2 r3 req split_net rn1 evs rn2 = Some (rn1, failed)) \<and>
    (\<forall>e. e \<notin> set es \<longrightarrow> reaches e split_net = reaches e rn)"
proof (intro conjI impI allI)
  assume "rq_endname req \<in> set es"
  then have "reaches (rq_endname req) split_net = None" by (simp add: split_net_def ct.partition_cuts)
  then have "admit r1 (rq_endname req) split_net = Unreachable"
    by (auto simp: reaches_def admit_def split: prod.splits option.splits bool.splits)
  then show "ProcessReq r1 r2 r3 req split_net rn1 evs rn2 = Some (rn1, failed)" by (simp add: ProcessReq_def)
next
  fix e assume "e \<notin> set es"
  then show "reaches e split_net = reaches e rn" by (simp add: split_net_def ct.partition_cuts)
qed

theorem partition_isolates_witness:
  "ProcessReq 500 500 500 (Call_request 0 ''a.b.Add'' 3) (fold (\<lambda>e. Enable e False) [0] echo_net) echo_net [Done] echo_net =
     Some (echo_net, failed)"
  using partition_isolates [of "Call_request 0 ''a.b.Add'' 3" "[0]" 500 500 500 echo_net echo_net "[Done]" echo_net]
  by (simp add: Call_request_def)

end
