(* ===== verification/Harness.thy ===== *)
theory Harness
  imports Base32 Labrpc Persister
begin

text \<open>
  What the four test harnesses \<^verbatim>\<open>config.go\<close> (of \<^verbatim>\<open>raft\<close>, \<^verbatim>\<open>kvraft\<close>, \<^verbatim>\<open>shardmaster\<close> and \<^verbatim>\<open>shardkv\<close>) share: random
  names of client ends, loops over servers, and the effect on the network of switching many ends.
\<close>

subsection \<open>Slices indexed by server numbers and loops over them\<close>

definition slot :: "'a list \<Rightarrow> nat \<Rightarrow> 'a option" where
  "slot xs i = (if i < length xs then Some (xs ! i) else None)"

definition put_slot :: "'a list \<Rightarrow> nat \<Rightarrow> 'a \<Rightarrow> 'a list option" where
  "put_slot xs i v = (if i < length xs then Some (xs[i := v]) else None)"

lemma slot_Some [go_panic]: "slot xs i = Some x \<longleftrightarrow> i < length xs \<and> x = xs ! i"
  by (auto simp: slot_def)

lemma put_slot_Some [go_panic]: "put_slot xs i v = Some ys \<longleftrightarrow> i < length xs \<and> ys = xs[i := v]"
  by (auto simp: put_slot_def)

lemma slot_ok [simp]: "i < length xs \<Longrightarrow> slot xs i = Some (xs ! i)"
  by (simp add: slot_def)

lemma put_slot_ok [simp]: "i < length xs \<Longrightarrow> put_slot xs i v = Some (xs[i := v])"
  by (simp add: put_slot_def)

fun for_each :: "('a \<Rightarrow> 's \<Rightarrow> 's option) \<Rightarrow> 'a list \<Rightarrow> 's \<Rightarrow> 's option" where
  "for_each f [] s = Some s"
| "for_each f (x # xs) s = do { s' \<leftarrow> f x s; for_each f xs s' }"

lemma for_each_append: "for_each f (xs @ ys) s = do { s' \<leftarrow> for_each f xs s; for_each f ys s' }"
  by (induction xs arbitrary: s) (simp_all split: bind_split)

text \<open>A loop whose body keeps an invariant and does not panic under it is a fold.\<close>

lemma for_each_fold:
  assumes "I s" and "\<And>x t. x \<in> set xs \<Longrightarrow> I t \<Longrightarrow> f x t = Some (g x t) \<and> I (g x t)"
  shows "for_each f xs s = Some (fold g xs s)" and "I (fold g xs s)"
proof -
  have "for_each f xs s = Some (fold g xs s) \<and> I (fold g xs s)"
    using assms by (induction xs arbitrary: s) auto
  then show "for_each f xs s = Some (fold g xs s)" and "I (fold g xs s)" by auto
qed

lemma for_each_inv:
  assumes "for_each f xs s = Some s'" and "I s" and "\<And>x t t'. x \<in> set xs \<Longrightarrow> I t \<Longrightarrow> f x t = Some t' \<Longrightarrow> I t'"
  shows "I s'"
  using assms
proof (induction xs arbitrary: s)
  case (Cons x xs)
  then obtain t where t: "f x s = Some t" "for_each f xs t = Some s'" by (auto split: bind_splits)
  show ?case by (rule Cons.IH [OF t(2)]) (use Cons.prems t(1) in auto)
qed simp

lemma for_each_reached:
  assumes "for_each f xs s = Some s'" and "I s" and "\<And>x t t'. x \<in> set xs \<Longrightarrow> I t \<Longrightarrow> f x t = Some t' \<Longrightarrow> I t'"
    and "x \<in> set xs"
  shows "\<exists>t t'. I t \<and> f x t = Some t'"
proof -
  obtain ys zs where xs: "xs = ys @ x # zs" using assms(4) by (auto simp: in_set_conv_decomp)
  then obtain t t' where t: "for_each f ys s = Some t" "f x t = Some t'"
    using assms(1) by (auto simp: for_each_append split: bind_splits)
  have "I t" by (rule for_each_inv [OF t(1), of I, OF assms(2)]) (use assms(3) xs in auto)
  then show ?thesis using t(2) by blast
qed

lemma all_nth_update: "i < length xs \<Longrightarrow> xs[i := v] ! j = (if j = i then v else xs ! j)"
  by (simp add: nth_list_update)

subsection \<open>Persisters\<close>

text \<open>
  A persister that was handed to a peer is shared with it: \<open>Shared p\<close> is the one of the peer at address \<open>p\<close>,
  \<open>Own ps\<close> one that only the harness holds.
\<close>

datatype 'b saved = Nil_saved | Shared nat | Own "'b Persister"

subsection \<open>Random names\<close>

text \<open>
  \<open>base64.URLEncoding\<close>: three bytes become four characters; a shorter last group is padded with \<open>=\<close>.
  \<open>randstring\<close> encodes \<open>2 * n\<close> random bytes, an argument here, and keeps the first \<open>n\<close> characters; the
  slice expression panics when there are fewer.
\<close>

definition alphabet64 :: string where
  "alphabet64 = ''ABCDEFGHIJKLMNOPQRSTUVWXYZabcdefghijklmnopqrstuvwxyz0123456789-_''"

definition encode64_group :: "nat list \<Rightarrow> string" where
  "encode64_group bs =
     (let ds = take (length bs + 1) (to_digits 64 4 (of_digits 256 (bs @ replicate (3 - length bs) 0)))
      in map ((!) alphabet64) ds @ replicate (4 - length ds) (CHR ''=''))"

function encode64 :: "nat list \<Rightarrow> string" where
  "encode64 bs = (if bs = [] then [] else encode64_group (take 3 bs) @ encode64 (drop 3 bs))"
  by pat_completeness auto
termination by (relation "measure length") auto

declare encode64.simps [simp del]

definition randstring :: "nat list \<Rightarrow> nat \<Rightarrow> string option" where
  "randstring b n = go_take (encode64 b) (int n)"

lemma length_alphabet64: "length alphabet64 = 64"
  by (simp add: alphabet64_def)

lemma encode64_group_shape:
  assumes "0 < length bs" and "length bs \<le> 3"
  shows "length (encode64_group bs) = 4" and "set (take (length bs + 1) (encode64_group bs)) \<subseteq> set alphabet64"
proof -
  let ?ds = "take (length bs + 1) (to_digits 64 4 (of_digits 256 (bs @ replicate (3 - length bs) 0)))"
  have len: "length ?ds = length bs + 1" using assms(2) by simp
  have "alphabet64 ! d \<in> set alphabet64" if "d \<in> set ?ds" for d
    using to_digits_less [of 64 d 4] that by (auto simp: length_alphabet64 dest: in_set_takeD)
  then show "length (encode64_group bs) = 4" and "set (take (length bs + 1) (encode64_group bs)) \<subseteq> set alphabet64"
    using len assms(2) by (auto simp: encode64_group_def Let_def)
qed

text \<open>The encoding is at least as long as its input, and its first characters are not padding.\<close>

lemma encode64_data:
  "length bs \<le> length (encode64 bs) \<and> set (take (length bs) (encode64 bs)) \<subseteq> set alphabet64"
proof (induction bs rule: encode64.induct)
  case (1 bs)
  show ?case
  proof (cases "length bs < 3")
    case True
    show ?thesis
    proof (cases "bs = []")
      case False
      then have G: "length (encode64_group bs) = 4" "set (take (length bs + 1) (encode64_group bs)) \<subseteq> set alphabet64"
        using encode64_group_shape [of bs] True by auto
      have "set (take (length bs) (encode64_group bs)) \<subseteq> set alphabet64"
        using G(2) set_take_subset_set_take [of "length bs" "length bs + 1" "encode64_group bs"] by auto
      then show ?thesis using G(1) True False by (simp add: encode64.simps [of bs] encode64.simps [of "[]"])
    qed (simp add: encode64.simps [of "[]"])
  next
    case False
    then have ne: "bs \<noteq> []" by auto
    have t: "length (take 3 bs) = 3" using False by simp
    have G: "length (encode64_group (take 3 bs)) = 4" "set (encode64_group (take 3 bs)) \<subseteq> set alphabet64"
      using encode64_group_shape [of "take 3 bs"] t ne by auto
    have IH: "length (drop 3 bs) \<le> length (encode64 (drop 3 bs))"
      "set (take (length (drop 3 bs)) (encode64 (drop 3 bs))) \<subseteq> set alphabet64"
      using 1 [OF ne] by auto
    have "length bs - 4 \<le> length (drop 3 bs)" by (simp add: diff_le_mono2)
    then have "set (take (length bs - 4) (encode64 (drop 3 bs))) \<subseteq> set alphabet64"
      by (rule order_trans [OF set_take_subset_set_take IH(2)])
    then show ?thesis using G IH(1) ne by (auto simp: encode64.simps [of bs] dest: in_set_takeD)
  qed
qed

text \<open>
  Random names. \<open>randstring\<close> never panics, and its result has exactly \<open>n\<close> characters, none of which is
  padding.
\<close>
theorem randstring_bounds:
  assumes "length b = 2 * n"
  shows "\<exists>s. randstring b n = Some s \<and> length s = n \<and> set s \<subseteq> set alphabet64"
proof -
  have "n \<le> length (encode64 b)" "set (take n (encode64 b)) \<subseteq> set alphabet64"
    using encode64_data [of b] set_take_subset_set_take [of n "length b" "encode64 b"] assms by auto
  then show ?thesis by (simp add: randstring_def go_take_def)
qed

theorem randstring_bounds_witness: "\<exists>s. randstring [255, 254, 0, 7] 2 = Some s \<and> length s = 2 \<and> set s \<subseteq> set alphabet64"
  by (rule randstring_bounds) simp

text \<open>Names of the ends from every server to every server, all different, and an example.\<close>

definition distinct_names :: "(nat \<Rightarrow> nat \<Rightarrow> string) \<Rightarrow> nat \<Rightarrow> bool" where
  "distinct_names names n \<longleftrightarrow> inj_on (\<lambda>(i, j). names i j) ({..<n} \<times> {..<n})"

lemma distinct_namesD:
  "distinct_names names n \<Longrightarrow> i < n \<Longrightarrow> j < n \<Longrightarrow> i' < n \<Longrightarrow> j' < n \<Longrightarrow> names i j = names i' j' \<Longrightarrow> i = i' \<and> j = j'"
  by (auto simp: distinct_names_def inj_on_def)

definition pair_name :: "nat \<Rightarrow> nat \<Rightarrow> string" where
  "pair_name i j = replicate i (CHR ''a'') @ CHR ''-'' # replicate j (CHR ''b'')"

lemma distinct_pair_name: "distinct_names pair_name n"
proof -
  have "i = i' \<and> j = j'" if "pair_name i j = pair_name i' j'" for i j i' j'
  proof -
    have "replicate i (CHR ''a'') = replicate i' (CHR ''a'') \<and> replicate j (CHR ''b'') = replicate j' (CHR ''b'')"
      using that append_sep_inject [of "CHR ''-''" "replicate i (CHR ''a'')" "replicate i' (CHR ''a'')"]
      by (simp add: pair_name_def)
    then show ?thesis by simp
  qed
  then show ?thesis by (auto simp: distinct_names_def inj_on_def)
qed

subsection \<open>Switching ends\<close>

lemma Enable_frame [simp]:
  "ends (Enable e b rn) = ends rn" "connections (Enable e b rn) = connections rn"
  "servers (Enable e b rn) = servers rn" "objs (Enable e b rn) = objs rn"
  "enabled (Enable e b rn) = (enabled rn)(e \<mapsto> b)"
  by (simp_all add: Enable_def)

definition set_ends :: "bool \<Rightarrow> 'e list \<Rightarrow> ('e, 's, 'a, 'b, 'r) Network \<Rightarrow> ('e, 's, 'a, 'b, 'r) Network" where
  "set_ends b es rn = fold (\<lambda>e. Enable e b) es rn"

lemma set_ends_frame [simp]:
  "ends (set_ends b es rn) = ends rn" "connections (set_ends b es rn) = connections rn"
  "servers (set_ends b es rn) = servers rn" "objs (set_ends b es rn) = objs rn"
proof -
  have "ends (set_ends b es rn) = ends rn \<and> connections (set_ends b es rn) = connections rn \<and>
    servers (set_ends b es rn) = servers rn \<and> objs (set_ends b es rn) = objs rn"
    by (induction es arbitrary: rn) (simp_all add: set_ends_def)
  then show "ends (set_ends b es rn) = ends rn" "connections (set_ends b es rn) = connections rn"
    "servers (set_ends b es rn) = servers rn" "objs (set_ends b es rn) = objs rn" by auto
qed

lemma set_ends_enabled [simp]:
  "enabled (set_ends b es rn) e = (if e \<in> set es then Some b else enabled rn e)"
  by (induction es arbitrary: rn) (simp_all add: set_ends_def)

lemma set_ends_append: "set_ends b fs (set_ends b es rn) = set_ends b (es @ fs) rn"
  by (simp add: set_ends_def)

end
