(* ===== verification/Raft_Spec.thy ===== *)
theory Raft_Spec
  imports Raft
begin

text \<open>
  What a Raft group promises, without messages, goroutines or storage. The state keeps each peer's
  term, vote, role and log together with the history the promises are about: the first vote a peer
  cast in a term and the log it had then; the leader elected in a term, the peers that elected it,
  its log at that moment and its log since; and how much of that log a peer has accepted. The steps are
  the ways in which a peer may change these; \<open>Raft_Refinement\<close> shows that the critical sections of
  \<^verbatim>\<open>src/raft/raft.go\<close> make only such steps. The flag \<open>ord\<close> asks for steps in which a peer never gives up
  what it has accepted from the leader of its term, which is so when the appends arrive in order.
\<close>

subsection \<open>Quorums\<close>

locale quorum_system =
  fixes quorum :: "'a set \<Rightarrow> bool"
  assumes meet: "quorum A \<Longrightarrow> quorum B \<Longrightarrow> A \<inter> B \<noteq> {}"
begin

lemma unique_choice:
  assumes "quorum A" and "quorum B"
    and "\<And>q. q \<in> A \<Longrightarrow> f q = Some x" and "\<And>q. q \<in> B \<Longrightarrow> f q = Some y"
  shows "x = y"
proof -
  from meet [OF assms(1,2)] obtain q where "q \<in> A" "q \<in> B" by blast
  then have "Some x = Some y" using assms(3,4) by metis
  then show ?thesis by simp
qed

end

definition majority :: "nat \<Rightarrow> nat set \<Rightarrow> bool" where
  "majority n A \<longleftrightarrow> A \<subseteq> {..<n} \<and> n < 2 * card A"

interpretation maj: quorum_system "majority n" for n
  by unfold_locales (metis majority_def majorities_meet)

subsection \<open>States and steps\<close>

record 'c spec =
  s_term :: "nat \<Rightarrow> int"
  s_vote :: "nat \<Rightarrow> int"
  s_role :: "nat \<Rightarrow> int"
  s_log :: "nat \<Rightarrow> 'c entry list"
  s_hvote :: "int \<Rightarrow> nat \<Rightarrow> nat option"
  s_leader :: "int \<Rightarrow> nat option"
  s_llog :: "int \<Rightarrow> 'c entry list"
  s_vlog :: "int \<Rightarrow> nat \<Rightarrow> 'c entry list"
  s_elect :: "int \<Rightarrow> nat set"
  s_elog :: "int \<Rightarrow> 'c entry list"
  s_acked :: "int \<Rightarrow> nat \<Rightarrow> nat"

definition spec_init :: "'c spec" where
  "spec_init = \<lparr>s_term = (\<lambda>_. 0), s_vote = (\<lambda>_. 0), s_role = (\<lambda>_. 0), s_log = (\<lambda>_. []),
     s_hvote = (\<lambda>_ _. None), s_leader = (\<lambda>_. None), s_llog = (\<lambda>_. []),
     s_vlog = (\<lambda>_ _. []), s_elect = (\<lambda>_. {}), s_elog = (\<lambda>_. []), s_acked = (\<lambda>_ _. 0)\<rparr>"

definition first_vote :: "(int \<Rightarrow> nat \<Rightarrow> nat option) \<Rightarrow> int \<Rightarrow> nat \<Rightarrow> nat \<Rightarrow> int \<Rightarrow> nat \<Rightarrow> nat option" where
  "first_vote h T j i = h(T := (h T)(j := (case h T j of None \<Rightarrow> Some i | Some v \<Rightarrow> Some v)))"

definition set2 :: "('a \<Rightarrow> 'b \<Rightarrow> 'd) \<Rightarrow> 'a \<Rightarrow> 'b \<Rightarrow> 'd \<Rightarrow> 'a \<Rightarrow> 'b \<Rightarrow> 'd" where
  "set2 f x y v = f(x := (f x)(y := v))"

definition cast_vote :: "int \<Rightarrow> nat \<Rightarrow> nat \<Rightarrow> 'c spec \<Rightarrow> 'c spec" where
  "cast_vote T j i a = a\<lparr>s_hvote := first_vote (s_hvote a) T j i,
     s_vlog := (if s_hvote a T j = None then set2 (s_vlog a) T j (s_log a j) else s_vlog a)\<rparr>"

definition enter :: "nat \<Rightarrow> int \<Rightarrow> int \<Rightarrow> int \<Rightarrow> 'c spec \<Rightarrow> 'c spec" where
  "enter j T v r a = a\<lparr>s_term := (s_term a)(j := T), s_vote := (s_vote a)(j := v), s_role := (s_role a)(j := r)\<rparr>"

definition take_log :: "nat \<Rightarrow> int \<Rightarrow> nat \<Rightarrow> 'c spec \<Rightarrow> 'c spec" where
  "take_log j T m a = a\<lparr>s_log := (s_log a)(j := take m (s_llog a T)), s_acked := set2 (s_acked a) T j m\<rparr>"

definition win :: "nat \<Rightarrow> nat set \<Rightarrow> 'c spec \<Rightarrow> 'c spec" where
  "win i Q a = a\<lparr>s_role := (s_role a)(i := 2), s_leader := (s_leader a)(s_term a i := Some i),
     s_llog := (s_llog a)(s_term a i := s_log a i), s_elect := (s_elect a)(s_term a i := Q),
     s_elog := (s_elog a)(s_term a i := s_log a i),
     s_acked := set2 (s_acked a) (s_term a i) i (length (s_log a i))\<rparr>"

definition grow_log :: "nat \<Rightarrow> 'c entry \<Rightarrow> 'c spec \<Rightarrow> 'c spec" where
  "grow_log i e a = a\<lparr>s_log := (s_log a)(i := s_log a i @ [e]),
     s_llog := (s_llog a)(s_term a i := s_llog a (s_term a i) @ [e]),
     s_acked := set2 (s_acked a) (s_term a i) i (Suc (length (s_log a i)))\<rparr>"

text \<open>The comparison of logs in \<open>RequestVote\<close>: \<open>m\<close> is at least as far as \<open>l\<close>.\<close>

definition uptodate :: "'c entry list \<Rightarrow> 'c entry list \<Rightarrow> bool" where
  "uptodate m l \<longleftrightarrow> lastTerm l < lastTerm m \<or> lastTerm l = lastTerm m \<and> length l \<le> length m"

inductive spec_step :: "bool \<Rightarrow> nat \<Rightarrow> 'c spec \<Rightarrow> 'c spec \<Rightarrow> bool" for ord n where
  timeout: "i < n \<Longrightarrow>
    spec_step ord n a (enter i (s_term a i + 1) (int i) 1 (cast_vote (s_term a i + 1) i i a))"
| adopt: "j < n \<Longrightarrow> s_term a j < T \<Longrightarrow> spec_step ord n a (enter j T (-1) 0 a)"
| grant: "j < n \<Longrightarrow> i < n \<Longrightarrow> j \<noteq> i \<Longrightarrow> 0 < T \<Longrightarrow> s_term a j \<le> T \<Longrightarrow> T \<le> s_term a i \<Longrightarrow>
    s_term a j < T \<or> s_vote a j = -1 \<or> s_vote a j = int i \<Longrightarrow>
    s_role a i = 1 \<and> s_term a i = T \<longrightarrow> uptodate (s_log a i) (s_log a j) \<Longrightarrow>
    spec_step ord n a (enter j T (int i) 0 (cast_vote T j i a))"
| follow: "j < n \<Longrightarrow> s_leader a T = Some i \<Longrightarrow> s_term a j \<le> T \<Longrightarrow>
    spec_step ord n a (enter j T (int i) 0 a)"
| copy_log: "j < n \<Longrightarrow> s_role a j = 0 \<Longrightarrow> s_term a j = T \<Longrightarrow> s_leader a T \<noteq> None \<Longrightarrow>
    length (s_elog a T) \<le> m \<Longrightarrow> m \<le> length (s_llog a T) \<Longrightarrow> ord \<longrightarrow> s_acked a T j \<le> m \<Longrightarrow>
    spec_step ord n a (take_log j T m a)"
| lead: "i < n \<Longrightarrow> s_role a i = 1 \<Longrightarrow> majority n Q \<Longrightarrow>
    (\<And>q. q \<in> Q \<Longrightarrow> s_hvote a (s_term a i) q = Some i) \<Longrightarrow> spec_step ord n a (win i Q a)"
| append: "i < n \<Longrightarrow> s_role a i = 2 \<Longrightarrow> eterm e = s_term a i \<Longrightarrow> spec_step ord n a (grow_log i e a)"
| demote: "i < n \<Longrightarrow> spec_step ord n a (a\<lparr>s_role := (s_role a)(i := 0)\<rparr>)"

inductive spec_reach :: "bool \<Rightarrow> nat \<Rightarrow> 'c spec \<Rightarrow> bool" for ord n where
  start: "spec_reach ord n spec_init"
| step: "spec_reach ord n a \<Longrightarrow> spec_step ord n a b \<Longrightarrow> spec_reach ord n b"

lemma set2_apply [simp]: "set2 f x y v x' y' = (if x' = x \<and> y' = y then v else f x' y')"
  by (simp add: set2_def)

lemma cast_vote_simps [simp]:
  "s_term (cast_vote T j i a) = s_term a" "s_vote (cast_vote T j i a) = s_vote a"
  "s_role (cast_vote T j i a) = s_role a" "s_log (cast_vote T j i a) = s_log a"
  "s_hvote (cast_vote T j i a) = first_vote (s_hvote a) T j i" "s_leader (cast_vote T j i a) = s_leader a"
  "s_llog (cast_vote T j i a) = s_llog a" "s_elect (cast_vote T j i a) = s_elect a"
  "s_elog (cast_vote T j i a) = s_elog a" "s_acked (cast_vote T j i a) = s_acked a"
  "s_vlog (cast_vote T j i a) T' j' =
     (if s_hvote a T j = None \<and> T' = T \<and> j' = j then s_log a j else s_vlog a T' j')"
  by (simp_all add: cast_vote_def)

lemma enter_simps [simp]:
  "s_term (enter j T v r a) = (s_term a)(j := T)" "s_vote (enter j T v r a) = (s_vote a)(j := v)"
  "s_role (enter j T v r a) = (s_role a)(j := r)" "s_log (enter j T v r a) = s_log a"
  "s_hvote (enter j T v r a) = s_hvote a" "s_leader (enter j T v r a) = s_leader a"
  "s_llog (enter j T v r a) = s_llog a" "s_elect (enter j T v r a) = s_elect a"
  "s_elog (enter j T v r a) = s_elog a" "s_acked (enter j T v r a) = s_acked a"
  "s_vlog (enter j T v r a) = s_vlog a"
  by (simp_all add: enter_def)

lemma take_log_simps [simp]:
  "s_term (take_log j T m a) = s_term a" "s_vote (take_log j T m a) = s_vote a"
  "s_role (take_log j T m a) = s_role a" "s_log (take_log j T m a) = (s_log a)(j := take m (s_llog a T))"
  "s_hvote (take_log j T m a) = s_hvote a" "s_leader (take_log j T m a) = s_leader a"
  "s_llog (take_log j T m a) = s_llog a" "s_elect (take_log j T m a) = s_elect a"
  "s_elog (take_log j T m a) = s_elog a" "s_acked (take_log j T m a) = set2 (s_acked a) T j m"
  "s_vlog (take_log j T m a) = s_vlog a"
  by (simp_all add: take_log_def)

lemma win_simps [simp]:
  "s_term (win i Q a) = s_term a" "s_vote (win i Q a) = s_vote a" "s_role (win i Q a) = (s_role a)(i := 2)"
  "s_log (win i Q a) = s_log a" "s_hvote (win i Q a) = s_hvote a"
  "s_leader (win i Q a) = (s_leader a)(s_term a i := Some i)"
  "s_llog (win i Q a) = (s_llog a)(s_term a i := s_log a i)"
  "s_elect (win i Q a) = (s_elect a)(s_term a i := Q)" "s_elog (win i Q a) = (s_elog a)(s_term a i := s_log a i)"
  "s_acked (win i Q a) = set2 (s_acked a) (s_term a i) i (length (s_log a i))" "s_vlog (win i Q a) = s_vlog a"
  by (simp_all add: win_def)

lemma grow_log_simps [simp]:
  "s_term (grow_log i e a) = s_term a" "s_vote (grow_log i e a) = s_vote a" "s_role (grow_log i e a) = s_role a"
  "s_log (grow_log i e a) = (s_log a)(i := s_log a i @ [e])" "s_hvote (grow_log i e a) = s_hvote a"
  "s_leader (grow_log i e a) = s_leader a"
  "s_llog (grow_log i e a) = (s_llog a)(s_term a i := s_llog a (s_term a i) @ [e])"
  "s_elect (grow_log i e a) = s_elect a" "s_elog (grow_log i e a) = s_elog a"
  "s_acked (grow_log i e a) = set2 (s_acked a) (s_term a i) i (Suc (length (s_log a i)))"
  "s_vlog (grow_log i e a) = s_vlog a"
  by (simp_all add: grow_log_def)

lemma spec_reach_steps: "(spec_step ord n)\<^sup>*\<^sup>* a b \<Longrightarrow> spec_reach ord n a \<Longrightarrow> spec_reach ord n b"
  by (induction rule: rtranclp_induct) (auto intro: spec_reach.step)

lemma first_vote_apply:
  "first_vote h T j i T' j' =
     (if T' = T \<and> j' = j then (case h T j of None \<Rightarrow> Some i | Some v \<Rightarrow> Some v) else h T' j')"
  by (auto simp: first_vote_def)

lemma first_vote_keeps: "h T' j' = Some v \<Longrightarrow> first_vote h T j i T' j' = Some v"
  by (auto simp: first_vote_apply)

subsection \<open>The election invariant\<close>

definition vote_ok :: "nat \<Rightarrow> 'c spec \<Rightarrow> nat \<Rightarrow> bool" where
  "vote_ok n a j \<longleftrightarrow>
     0 \<le> s_term a j \<and>
     (\<forall>T. s_term a j < T \<longrightarrow> s_hvote a T j = None) \<and>
     (0 < s_term a j \<longrightarrow> s_vote a j = -1 \<longrightarrow> s_hvote a (s_term a j) j = None) \<and>
     (0 < s_term a j \<longrightarrow> s_vote a j \<noteq> -1 \<longrightarrow>
        (\<exists>v < n. s_vote a j = int v \<and>
           (s_hvote a (s_term a j) j = Some v \<or> s_leader a (s_term a j) = Some v))) \<and>
     (s_role a j = 1 \<longrightarrow> 0 < s_term a j \<and> s_hvote a (s_term a j) j = Some j \<and>
        s_leader a (s_term a j) \<noteq> Some j) \<and>
     (s_role a j = 2 \<longrightarrow> 0 < s_term a j \<and> s_leader a (s_term a j) = Some j)"

definition leader_ok :: "nat \<Rightarrow> 'c spec \<Rightarrow> int \<Rightarrow> bool" where
  "leader_ok n a T \<longleftrightarrow>
     (\<forall>i. s_leader a T = Some i \<longrightarrow>
        i < n \<and> 0 < T \<and> T \<le> s_term a i \<and>
        (\<exists>Q. majority n Q \<and> (\<forall>q \<in> Q. s_hvote a T q = Some i)))"

definition election_inv :: "nat \<Rightarrow> 'c spec \<Rightarrow> bool" where
  "election_inv n a \<longleftrightarrow> (\<forall>j < n. vote_ok n a j) \<and> (\<forall>T. leader_ok n a T)"

lemma election_invD:
  assumes "election_inv n a" and "j < n"
  shows "0 \<le> s_term a j"
    and "s_term a j < T \<Longrightarrow> s_hvote a T j = None"
    and "0 < s_term a j \<Longrightarrow> s_vote a j = -1 \<Longrightarrow> s_hvote a (s_term a j) j = None"
    and "0 < s_term a j \<Longrightarrow> s_vote a j = int i \<Longrightarrow>
      i < n \<and> (s_hvote a (s_term a j) j = Some i \<or> s_leader a (s_term a j) = Some i)"
    and "s_role a j = 1 \<Longrightarrow> 0 < s_term a j \<and> s_hvote a (s_term a j) j = Some j \<and>
      s_leader a (s_term a j) \<noteq> Some j"
    and "s_role a j = 2 \<Longrightarrow> 0 < s_term a j \<and> s_leader a (s_term a j) = Some j"
  using assms by (auto simp: election_inv_def vote_ok_def)

lemma leader_okD:
  "leader_ok n a T \<Longrightarrow> s_leader a T = Some i \<Longrightarrow>
   i < n \<and> 0 < T \<and> T \<le> s_term a i \<and> (\<exists>Q. majority n Q \<and> (\<forall>q \<in> Q. s_hvote a T q = Some i))"
  by (simp add: leader_ok_def)

lemma election_inv_leader:
  assumes "election_inv n a" and "s_leader a T = Some i"
  obtains Q where "i < n" "0 < T" "T \<le> s_term a i" "majority n Q" "\<And>q. q \<in> Q \<Longrightarrow> s_hvote a T q = Some i"
  using leader_okD [of n a T i] assms by (auto simp: election_inv_def)

text \<open>
  No candidate can gather a majority in a term that already has a leader: the two majorities
  would share a voter, and first votes do not change.
\<close>

lemma lead_fresh:
  assumes inv: "election_inv n a" and i: "i < n" "s_role a i = 1"
    and Q: "majority n Q" "\<And>q. q \<in> Q \<Longrightarrow> s_hvote a (s_term a i) q = Some i"
  shows "s_leader a (s_term a i) = None"
proof (rule ccontr)
  assume "s_leader a (s_term a i) \<noteq> None"
  then obtain k where k: "s_leader a (s_term a i) = Some k" by blast
  from election_inv_leader [OF inv k] obtain Q' where
    Q': "majority n Q'" "\<And>q. q \<in> Q' \<Longrightarrow> s_hvote a (s_term a i) q = Some k" by blast
  have "i = k"
    by (rule maj.unique_choice [OF Q(1) Q'(1), where f = "s_hvote a (s_term a i)"]) (use Q Q' in auto)
  then show False
    using k election_invD(5) [OF inv i] by simp
qed

text \<open>A step that keeps old votes and leaders, and never lowers a term, keeps \<open>leader_ok\<close>.\<close>

lemma leader_ok_mono:
  assumes "leader_ok n a T" and "s_leader b T = s_leader a T"
    and "\<And>i. s_term a i \<le> s_term b i"
    and "\<And>T j v. s_hvote a T j = Some v \<Longrightarrow> s_hvote b T j = Some v"
  shows "leader_ok n b T"
  unfolding leader_ok_def
proof (intro allI impI)
  fix i assume "s_leader b T = Some i"
  with assms(1,2) obtain Q where "i < n" "0 < T" "T \<le> s_term a i" "majority n Q"
    "\<forall>q \<in> Q. s_hvote a T q = Some i"
    using leader_okD [of n a T i] by auto
  then show "i < n \<and> 0 < T \<and> T \<le> s_term b i \<and> (\<exists>Q. majority n Q \<and> (\<forall>q \<in> Q. s_hvote b T q = Some i))"
    using assms(3) [of i] assms(4) by (meson order_trans)
qed

lemma vote_ok_frame:
  assumes "vote_ok n a k" and "s_term b k = s_term a k" and "s_vote b k = s_vote a k"
    and "s_role b k = s_role a k" and "\<And>T. s_hvote b T k = s_hvote a T k"
    and "\<And>T v. s_leader a T = Some v \<Longrightarrow> s_leader b T = Some v"
    and "\<And>T. s_leader b T = Some k \<Longrightarrow> s_leader a T = Some k"
  shows "vote_ok n b k"
  using assms(1) unfolding vote_ok_def assms(2-5) by (auto dest: assms(6,7))

text \<open>
  One step that changes peer \<open>i\<close> keeps the invariant if it keeps \<open>i\<close> itself well-formed, never
  lowers a term, keeps every vote already cast, and leaves the leaders as they are.
\<close>

lemma election_invI:
  assumes inv: "election_inv n a" and i: "vote_ok n b i"
    and other: "\<And>k. k \<noteq> i \<Longrightarrow> s_term b k = s_term a k \<and> s_vote b k = s_vote a k \<and> s_role b k = s_role a k"
    and hv: "\<And>T k. k \<noteq> i \<Longrightarrow> s_hvote b T k = s_hvote a T k"
    and keep: "\<And>T j v. s_hvote a T j = Some v \<Longrightarrow> s_hvote b T j = Some v"
    and leader: "s_leader b = s_leader a" and mono: "s_term a i \<le> s_term b i"
  shows "election_inv n b"
  unfolding election_inv_def
proof (intro conjI allI impI)
  fix k assume "k < n"
  with inv have "vote_ok n a k" by (simp add: election_inv_def)
  then show "vote_ok n b k"
    using i vote_ok_frame [of n a k b] other [of k] hv [of k] by (cases "k = i") (simp_all add: leader)
next
  fix T
  have ok: "leader_ok n a T" using inv by (simp add: election_inv_def)
  have le: "s_term a k \<le> s_term b k" for k
    using other [of k] mono by (cases "k = i") simp_all
  show "leader_ok n b T"
    by (rule leader_ok_mono [OF ok _ le keep]) (simp_all add: leader)
qed

lemma election_timeout:
  assumes inv: "election_inv n a" and i: "i < n"
  shows "election_inv n (enter i (s_term a i + 1) (int i) 1 (cast_vote (s_term a i + 1) i i a))"
    (is "election_inv n ?b")
proof (rule election_invI [OF inv])
  note D = election_invD [OF inv i]
  have no: "s_leader a (s_term a i + 1) \<noteq> Some i"
    using election_inv_leader [OF inv, of "s_term a i + 1" i] by fastforce
  have none: "s_hvote a T i = None" if "s_term a i < T" for T using D(2) that by simp
  show "vote_ok n ?b i"
    using no none D(1) i by (simp add: vote_ok_def first_vote_apply)
qed (auto simp: first_vote_apply)

lemma election_adopt:
  assumes inv: "election_inv n a" and j: "j < n" "s_term a j < T"
  shows "election_inv n (enter j T (-1) 0 a)" (is "election_inv n ?b")
proof (rule election_invI [OF inv])
  note D = election_invD [OF inv j(1)]
  show "vote_ok n ?b j"
    using D(1,2) j by (simp add: vote_ok_def)
qed (use j in auto)

lemma election_grant:
  assumes inv: "election_inv n a" and j: "j < n" "i < n" "0 < T" "s_term a j \<le> T"
    and vote: "s_term a j < T \<or> s_vote a j = -1 \<or> s_vote a j = int i"
  shows "election_inv n (enter j T (int i) 0 (cast_vote T j i a))" (is "election_inv n ?b")
proof (rule election_invI [OF inv])
  note D = election_invD [OF inv j(1)]
  have cast: "s_hvote a T j = None \<or> s_hvote a T j = Some i \<or> s_leader a T = Some i"
    using vote j D(2,3,4) by (metis order_le_less)
  have none: "s_hvote a T' j = None" if "T < T'" for T' using D(2) j that by simp
  show "vote_ok n ?b j"
    using cast none j by (auto simp: vote_ok_def first_vote_apply)
qed (use j in \<open>auto simp: first_vote_apply\<close>)

lemma election_follow:
  assumes inv: "election_inv n a" and j: "j < n" "s_leader a T = Some i" "s_term a j \<le> T"
  shows "election_inv n (enter j T (int i) 0 a)" (is "election_inv n ?b")
proof (rule election_invI [OF inv])
  note D = election_invD [OF inv j(1)]
  have "i < n" "0 < T" using election_inv_leader [OF inv j(2)] by blast+
  moreover have "s_hvote a T' j = None" if "T < T'" for T' using D(2) j that by simp
  ultimately show "vote_ok n ?b j"
    using j by (auto simp: vote_ok_def)
qed (use j in auto)

lemma election_lead:
  assumes inv: "election_inv n a" and i: "i < n" "s_role a i = 1"
    and Q: "majority n Q" "\<And>q. q \<in> Q \<Longrightarrow> s_hvote a (s_term a i) q = Some i"
  shows "election_inv n (win i Q a)" (is "election_inv n ?b")
  unfolding election_inv_def
proof (intro conjI allI impI)
  note D = election_invD [OF inv i(1)]
  have none: "s_leader a (s_term a i) = None" by (rule lead_fresh [OF inv i Q])
  have pos: "0 < s_term a i" using D(5) i by blast
  fix k assume k: "k < n"
  then have ok: "vote_ok n a k" using inv by (simp add: election_inv_def)
  show "vote_ok n ?b k"
  proof (cases "k = i")
    case True
    with ok i pos none show ?thesis by (auto simp: vote_ok_def)
  next
    case False
    with ok none show ?thesis by (intro vote_ok_frame [OF ok]) (auto split: if_splits)
  qed
next
  fix T
  have pos: "0 < s_term a i" using election_invD(5) [OF inv i(1)] i by blast
  show "leader_ok n ?b T"
  proof (cases "T = s_term a i")
    case True
    with i pos Q show ?thesis by (auto simp: leader_ok_def)
  next
    case False
    moreover have "leader_ok n a T" using inv by (simp add: election_inv_def)
    ultimately show ?thesis by (simp add: leader_ok_def)
  qed
qed

lemma election_step:
  assumes "spec_step ord n a b" and "election_inv n a"
  shows "election_inv n b"
  using assms
proof (induction rule: spec_step.induct)
  case (copy_log j a T m)
  then show ?case by (simp add: election_inv_def vote_ok_def leader_ok_def)
next
  case (append i a e)
  then show ?case by (simp add: election_inv_def vote_ok_def leader_ok_def)
next
  case (demote i a)
  then show ?case
    by (intro election_invI [OF demote.prems, where i = i]) (auto simp: election_inv_def vote_ok_def)
qed (auto intro: election_timeout election_adopt election_grant election_follow election_lead)

lemma spec_reach_election: "spec_reach ord n a \<Longrightarrow> election_inv n a"
proof (induction rule: spec_reach.induct)
  case start
  then show ?case by (simp add: spec_init_def election_inv_def vote_ok_def leader_ok_def)
next
  case (step a b)
  then show ?case by (blast intro: election_step)
qed

subsection \<open>The log invariant\<close>

text \<open>
  A log is \<^emph>\<open>traceable\<close> to the leaders' logs \<open>L\<close> if every prefix of it that ends in an entry of
  term \<open>T\<close> is a prefix of the log of the leader of \<open>T\<close>.
\<close>

definition traceable :: "(int \<Rightarrow> 'c entry list) \<Rightarrow> 'c entry list \<Rightarrow> bool" where
  "traceable L l \<longleftrightarrow>
     (\<forall>k < length l. k < length (L (eterm (l ! k))) \<and> take (Suc k) l = take (Suc k) (L (eterm (l ! k))))"

lemma traceableD:
  "traceable L l \<Longrightarrow> k < length l \<Longrightarrow> eterm (l ! k) = T \<Longrightarrow>
   k < length (L T) \<and> take (Suc k) l = take (Suc k) (L T)"
  by (auto simp: traceable_def)

lemma traceable_Nil [simp]: "traceable L []"
  by (simp add: traceable_def)

lemma traceable_take: "traceable L l \<Longrightarrow> traceable L (take m l)"
  by (auto simp: traceable_def min_def)

text \<open>Log Matching for two traceable logs.\<close>

lemma traceable_matching:
  assumes "traceable L l" and "traceable L l'" and "k < length l" and "k < length l'"
    and "eterm (l ! k) = eterm (l' ! k)"
  shows "take (Suc k) l = take (Suc k) l'"
  using traceableD [OF assms(1,3) refl] traceableD [OF assms(2,4) refl] assms(5) by simp

lemma traceable_extend:
  assumes "traceable L l" and "\<And>T. \<exists>ys. L' T = L T @ ys"
  shows "traceable L' l"
  unfolding traceable_def
proof (intro allI impI)
  fix k assume k: "k < length l"
  obtain ys where "L' (eterm (l ! k)) = L (eterm (l ! k)) @ ys" using assms(2) by blast
  with traceableD [OF assms(1) k refl]
  show "k < length (L' (eterm (l ! k))) \<and> take (Suc k) l = take (Suc k) (L' (eterm (l ! k)))"
    by simp
qed

lemma traceable_snoc:
  assumes "traceable L l" and "eterm e = T" and "L T = l @ [e]"
  shows "traceable L (l @ [e])"
  using assms by (auto simp: traceable_def nth_append less_Suc_eq)

definition log_inv :: "nat \<Rightarrow> 'c spec \<Rightarrow> bool" where
  "log_inv n a \<longleftrightarrow>
     (\<forall>T. s_leader a T = None \<longrightarrow> s_llog a T = []) \<and>
     (\<forall>T. traceable (s_llog a) (s_llog a T)) \<and>
     (\<forall>i < n. traceable (s_llog a) (s_log a i)) \<and>
     (\<forall>i < n. s_role a i = 2 \<longrightarrow> s_log a i = s_llog a (s_term a i))"

lemma log_invD:
  assumes "log_inv n a"
  shows "s_leader a T = None \<Longrightarrow> s_llog a T = []" "traceable (s_llog a) (s_llog a T)"
    "i < n \<Longrightarrow> traceable (s_llog a) (s_log a i)"
    "i < n \<Longrightarrow> s_role a i = 2 \<Longrightarrow> s_log a i = s_llog a (s_term a i)"
  using assms by (simp_all add: log_inv_def)

text \<open>Steps that leave the logs and the leaders' logs alone.\<close>

lemma log_inv_frame:
  assumes "log_inv n a" and "s_log b = s_log a" and "s_llog b = s_llog a"
    and "s_leader b = s_leader a"
    and "\<And>i. s_role b i = 2 \<Longrightarrow> s_role a i = 2 \<and> s_term b i = s_term a i"
  shows "log_inv n b"
  using assms by (auto simp: log_inv_def)

lemma log_lead:
  assumes inv: "log_inv n a" and el: "election_inv n a" and i: "i < n" "s_role a i = 1"
    and Q: "majority n Q" "\<And>q. q \<in> Q \<Longrightarrow> s_hvote a (s_term a i) q = Some i"
  shows "log_inv n (win i Q a)" (is "log_inv n ?b")
proof -
  let ?L' = "(s_llog a)(s_term a i := s_log a i)"
  have none: "s_leader a (s_term a i) = None" by (rule lead_fresh [OF el i Q])
  then have "\<exists>ys. ?L' T = s_llog a T @ ys" for T
    using log_invD(1) [OF inv] by auto
  then have tr: "traceable (s_llog a) l \<Longrightarrow> traceable ?L' l" for l
    using traceable_extend by metis
  have lead: "s_term a k \<noteq> s_term a i" if "k < n" "s_role a k = 2" for k
    using election_invD(6) [OF el that(1)] that none by auto
  show ?thesis
    using tr lead log_invD [OF inv] i by (auto simp: log_inv_def)
qed

lemma log_append:
  assumes inv: "log_inv n a" and el: "election_inv n a"
    and i: "i < n" "s_role a i = 2" "eterm e = s_term a i"
  shows "log_inv n (grow_log i e a)"
proof -
  let ?L' = "(s_llog a)(s_term a i := s_llog a (s_term a i) @ [e])"
  have tr: "traceable (s_llog a) l \<Longrightarrow> traceable ?L' l" for l
    by (rule traceable_extend) auto
  have lead: "s_leader a (s_term a k) = Some k" if "k < n" "s_role a k = 2" for k
    using election_invD(6) [OF el that(1)] that by simp
  have own: "s_log a i = s_llog a (s_term a i)" using log_invD(4) [OF inv] i by simp
  have new: "traceable ?L' (s_llog a (s_term a i) @ [e])"
    using traceable_snoc [OF tr [OF log_invD(2) [OF inv]], where T = "s_term a i" and e = e] i by simp
  have "s_term a k \<noteq> s_term a i" if "k < n" "s_role a k = 2" "k \<noteq> i" for k
    using lead [of k] lead [of i] i that by auto
  then show ?thesis
    using tr new own lead [of i] i log_invD [OF inv] by (auto simp: log_inv_def)
qed

lemma log_step:
  assumes "spec_step ord n a b" and "election_inv n a" and "log_inv n a"
  shows "log_inv n b"
  using assms
proof (induction rule: spec_step.induct)
  case (copy_log j a T m)
  then show ?case by (auto simp: log_inv_def intro: traceable_take)
next
  case (lead i a Q)
  then show ?case by (intro log_lead) simp_all
next
  case (append i a e)
  then show ?case by (intro log_append) simp_all
qed (auto intro: log_inv_frame split: if_splits)

lemma spec_reach_log: "spec_reach ord n a \<Longrightarrow> log_inv n a"
proof (induction rule: spec_reach.induct)
  case start
  then show ?case by (simp add: spec_init_def log_inv_def)
next
  case (step a b)
  then show ?case by (blast intro: log_step spec_reach_election)
qed

end
