(* ===== verification/Raft_Completeness.thy ===== *)
theory Raft_Completeness
  imports Raft_Spec
begin

text \<open>
  What is committed stays: in every run of the specification in which peers accept appends in order,
  an entry of a leader's own term that a majority has accepted is in the log of every later leader.
  The history of \<open>Raft_Spec\<close> (the log of a voter at its vote, the log of a leader at its election, the
  accepted length) turns the argument about the past into an invariant.
\<close>

subsection \<open>Marks in a leader's log\<close>

text \<open>A position of the log of the leader of \<open>T\<close> whose entry it made itself.\<close>

definition mark :: "'c spec \<Rightarrow> int \<Rightarrow> nat \<Rightarrow> bool" where
  "mark a T c \<longleftrightarrow> 0 < c \<and> c \<le> length (s_llog a T) \<and> eterm (s_llog a T ! (c - 1)) = T"

definition has :: "'c spec \<Rightarrow> int \<Rightarrow> nat \<Rightarrow> 'c entry list \<Rightarrow> bool" where
  "has a T c l \<longleftrightarrow> c \<le> length l \<and> take c l = take c (s_llog a T)"

text \<open>A leader of term \<open>U\<close> that was elected without the first \<open>c\<close> entries of the leader of \<open>T\<close>.\<close>

definition lacks :: "'c spec \<Rightarrow> int \<Rightarrow> nat \<Rightarrow> int \<Rightarrow> bool" where
  "lacks a T c U \<longleftrightarrow> s_leader a U \<noteq> None \<and> \<not> has a T c (s_elog a U)"

definition committed_at :: "nat \<Rightarrow> 'c spec \<Rightarrow> int \<Rightarrow> nat \<Rightarrow> bool" where
  "committed_at n a T c \<longleftrightarrow> mark a T c \<and> (\<exists>Q. majority n Q \<and> (\<forall>q \<in> Q. c \<le> s_acked a T q))"

subsection \<open>The history invariant\<close>

definition elog_ok :: "'c spec \<Rightarrow> int \<Rightarrow> bool" where
  "elog_ok a T \<longleftrightarrow> (s_leader a T \<noteq> None \<longrightarrow>
     (\<exists>es. s_llog a T = s_elog a T @ es \<and> (\<forall>e \<in> set es. eterm e = T)) \<and> (\<forall>e \<in> set (s_elog a T). eterm e < T))"

definition elected_ok :: "nat \<Rightarrow> 'c spec \<Rightarrow> int \<Rightarrow> bool" where
  "elected_ok n a T \<longleftrightarrow> (\<forall>i. s_leader a T = Some i \<longrightarrow> majority n (s_elect a T) \<and>
     (\<forall>q \<in> s_elect a T. s_hvote a T q = Some i \<and> uptodate (s_elog a T) (s_vlog a T q)))"

definition ballot_ok :: "nat \<Rightarrow> 'c spec \<Rightarrow> int \<Rightarrow> nat \<Rightarrow> bool" where
  "ballot_ok n a T q \<longleftrightarrow> (\<forall>i. s_hvote a T q = Some i \<longrightarrow>
     i < n \<and> T \<le> s_term a i \<and> traceable (s_llog a) (s_vlog a T q) \<and>
     (s_role a i = 1 \<and> s_term a i = T \<longrightarrow> uptodate (s_log a i) (s_vlog a T q)))"

definition hist_inv :: "nat \<Rightarrow> 'c spec \<Rightarrow> bool" where
  "hist_inv n a \<longleftrightarrow>
     (\<forall>T. elog_ok a T \<and> elected_ok n a T \<and> sorted (map eterm (s_llog a T))) \<and>
     (\<forall>j < n. \<forall>e \<in> set (s_log a j). eterm e \<le> s_term a j) \<and>
     (\<forall>T q. ballot_ok n a T q) \<and>
     (\<forall>T j. s_acked a T j \<le> length (s_llog a T) \<and> (0 < s_acked a T j \<longrightarrow> T \<le> s_term a j))"

lemma hist_invD:
  assumes "hist_inv n a"
  shows "elog_ok a T" "elected_ok n a T" "sorted (map eterm (s_llog a T))"
    "j < n \<Longrightarrow> e \<in> set (s_log a j) \<Longrightarrow> eterm e \<le> s_term a j"
    "ballot_ok n a T q" "s_acked a T j \<le> length (s_llog a T)" "0 < s_acked a T j \<Longrightarrow> T \<le> s_term a j"
  using assms by (simp_all add: hist_inv_def)

lemma uptodate_refl [simp]: "uptodate l l"
  by (simp add: uptodate_def)

lemma elog_okD:
  assumes "elog_ok a T" and "s_leader a T \<noteq> None"
  shows "e \<in> set (s_elog a T) \<Longrightarrow> eterm e < T" "e \<in> set (s_llog a T) \<Longrightarrow> eterm e \<le> T"
    "length (s_elog a T) \<le> length (s_llog a T)" "take (length (s_elog a T)) (s_llog a T) = s_elog a T"
  using assms by (auto simp: elog_ok_def intro: order.strict_implies_order)

lemma elog_ok_new:
  assumes "elog_ok a T" and "s_leader a T \<noteq> None" and "length (s_elog a T) \<le> p" and "p < length (s_llog a T)"
  shows "eterm (s_llog a T ! p) = T"
  using assms by (auto simp: elog_ok_def nth_append)

text \<open>The last entry of a traceable log identifies the log.\<close>

lemma traceable_last:
  assumes "traceable L l" and "l \<noteq> []"
  shows "length l \<le> length (L (lastTerm l))" "l = take (length l) (L (lastTerm l))"
proof -
  have k: "length l - 1 < length l" using assms(2) by simp
  have "lastTerm l = eterm (l ! (length l - 1))" using assms(2) by (simp add: lastTerm_def)
  with traceableD [OF assms(1) k] have "length l - 1 < length (L (lastTerm l))"
    "take (Suc (length l - 1)) l = take (Suc (length l - 1)) (L (lastTerm l))" by simp_all
  moreover have "Suc (length l - 1) = length l" using assms(2) by simp
  ultimately show "length l \<le> length (L (lastTerm l))" "l = take (length l) (L (lastTerm l))" by simp_all
qed

lemma traceable_sorted:
  assumes "traceable L l" and "\<And>T. sorted (map eterm (L T))"
  shows "sorted (map eterm l)"
proof (cases "l = []")
  case False
  from traceable_last(2) [OF assms(1) False] show ?thesis
    by (metis assms(2) sorted_wrt_take take_map)
qed simp

lemma traceable_leader:
  assumes "traceable (s_llog a) l" and "e \<in> set l" and "log_inv n a"
  shows "s_leader a (eterm e) \<noteq> None"
proof -
  obtain k where "k < length l" "l ! k = e" using assms(2) by (auto simp: in_set_conv_nth)
  then have "s_llog a (eterm e) \<noteq> []" using traceableD [OF assms(1), of k] by fastforce
  then show ?thesis using log_invD(1) [OF assms(3)] by blast
qed

subsection \<open>Every step keeps the history invariant\<close>

lemma hist_invI:
  assumes "\<And>T. elog_ok a T" "\<And>T. elected_ok n a T" "\<And>T. sorted (map eterm (s_llog a T))"
    "\<And>j e. j < n \<Longrightarrow> e \<in> set (s_log a j) \<Longrightarrow> eterm e \<le> s_term a j" "\<And>T q. ballot_ok n a T q"
    "\<And>T j. s_acked a T j \<le> length (s_llog a T)" "\<And>T j. 0 < s_acked a T j \<Longrightarrow> T \<le> s_term a j"
  shows "hist_inv n a"
  using assms by (simp add: hist_inv_def)

text \<open>Entering a later term as a follower.\<close>

lemma hist_enter:
  assumes "hist_inv n a" and "s_term a j \<le> T"
  shows "hist_inv n (enter j T v 0 a)"
proof (rule hist_invI)
  note H = hist_invD [OF assms(1)]
  show "ballot_ok n (enter j T v 0 a) U q" for U q
    using H(5) [of U q] assms(2) by (auto simp: ballot_ok_def)
  show "eterm e \<le> s_term (enter j T v 0 a) k" if "k < n" "e \<in> set (s_log (enter j T v 0 a) k)" for k e
    using H(4) [of k e] that assms(2) by auto
  show "U \<le> s_term (enter j T v 0 a) k" if "0 < s_acked (enter j T v 0 a) U k" for U k
    using H(7) [of U k] that assms(2) by auto
qed (use hist_invD [OF assms(1)] in \<open>simp_all add: elog_ok_def elected_ok_def\<close>)

text \<open>A vote keeps what was recorded about earlier votes.\<close>

lemma elected_cast: "elected_ok n a T \<Longrightarrow> elected_ok n (cast_vote T' j i a) T"
  by (auto simp: elected_ok_def first_vote_keeps)

lemma hist_grant:
  assumes inv: "hist_inv n a" "log_inv n a" and j: "j < n" "i < n" "j \<noteq> i" "s_term a j \<le> T" "T \<le> s_term a i"
    and up: "s_role a i = 1 \<and> s_term a i = T \<longrightarrow> uptodate (s_log a i) (s_log a j)"
  shows "hist_inv n (enter j T (int i) 0 (cast_vote T j i a))" (is "hist_inv n ?b")
proof (rule hist_invI)
  note H = hist_invD [OF inv(1)]
  have tr: "traceable (s_llog a) (s_log a j)" using log_invD(3) [OF inv(2) j(1)] .
  show "ballot_ok n ?b U q" for U q
    using H(5) [of U q] tr up j by (auto simp: ballot_ok_def first_vote_apply split: option.splits)
  show "elected_ok n ?b U" for U
    using elected_cast [OF H(2) [of U], of T j i] by (simp add: elected_ok_def)
  show "eterm e \<le> s_term ?b k" if "k < n" "e \<in> set (s_log ?b k)" for k e
    using H(4) [of k e] that j by auto
  show "U \<le> s_term ?b k" if "0 < s_acked ?b U k" for U k
    using H(7) [of U k] that j by auto
qed (use hist_invD [OF inv(1)] in \<open>simp_all add: elog_ok_def\<close>)

lemma hist_timeout:
  assumes inv: "hist_inv n a" "log_inv n a" "election_inv n a" and i: "i < n"
  shows "hist_inv n (enter i (s_term a i + 1) (int i) 1 (cast_vote (s_term a i + 1) i i a))" (is "hist_inv n ?b")
proof (rule hist_invI)
  note H = hist_invD [OF inv(1)]
  have tr: "traceable (s_llog a) (s_log a i)" using log_invD(3) [OF inv(2) i] .
  have none: "s_hvote a (s_term a i + 1) i = None" using election_invD(2) [OF inv(3) i] by simp
  show "ballot_ok n ?b U q" for U q
    using H(5) [of U q] tr none i by (auto simp: ballot_ok_def first_vote_apply)
  show "elected_ok n ?b U" for U
    using elected_cast [OF H(2) [of U], of "s_term a i + 1" i i] by (simp add: elected_ok_def)
  show "eterm e \<le> s_term ?b k" if "k < n" "e \<in> set (s_log ?b k)" for k e
    using H(4) [of k e] that by auto
  show "U \<le> s_term ?b k" if "0 < s_acked ?b U k" for U k
    using H(7) [of U k] that by auto
qed (use hist_invD [OF inv(1)] in \<open>simp_all add: elog_ok_def\<close>)

lemma hist_copy:
  assumes inv: "hist_inv n a" and j: "j < n" "s_role a j = 0" "s_leader a (s_term a j) \<noteq> None"
    and m: "m \<le> length (s_llog a (s_term a j))"
  shows "hist_inv n (take_log j (s_term a j) m a)" (is "hist_inv n ?b")
proof (rule hist_invI)
  note H = hist_invD [OF inv]
  show "ballot_ok n ?b U q" for U q
    using H(5) [of U q] j by (auto simp: ballot_ok_def)
  show "eterm e \<le> s_term ?b k" if "k < n" "e \<in> set (s_log ?b k)" for k e
    using H(4) [of k e] elog_okD(2) [OF H(1) j(3), of e] that by (auto dest: in_set_takeD split: if_splits)
  show "U \<le> s_term ?b k" if "0 < s_acked ?b U k" for U k
    using H(7) [of U k] that by (auto split: if_splits)
  show "s_acked ?b U k \<le> length (s_llog ?b U)" for U k
    using H(6) [of U k] m by auto
qed (use hist_invD [OF inv] in \<open>simp_all add: elog_ok_def elected_ok_def\<close>)

lemma hist_lead:
  assumes inv: "hist_inv n a" "log_inv n a" "election_inv n a" and i: "i < n" "s_role a i = 1"
    and Q: "majority n Q" "\<And>q. q \<in> Q \<Longrightarrow> s_hvote a (s_term a i) q = Some i"
  shows "hist_inv n (win i Q a)" (is "hist_inv n ?b")
proof (rule hist_invI)
  note H = hist_invD [OF inv(1)]
  let ?T = "s_term a i"
  have none: "s_leader a ?T = None" by (rule lead_fresh [OF inv(3) i Q])
  have empty: "s_llog a ?T = []" by (rule log_invD(1) [OF inv(2) none])
  have tr: "traceable (s_llog a) (s_log a i)" by (rule log_invD(3) [OF inv(2) i(1)])
  have low: "eterm e < ?T" if "e \<in> set (s_log a i)" for e
    using H(4) [OF i(1) that] traceable_leader [OF tr that inv(2)] none by (metis order_le_less)
  show "elog_ok ?b U" for U
    using H(1) [of U] low by (auto simp: elog_ok_def)
  show "elected_ok n ?b U" for U
    using H(2) [of U] H(5) [of ?T] Q i by (auto simp: elected_ok_def ballot_ok_def)
  show "sorted (map eterm (s_llog ?b U))" for U
    using H(3) [of U] traceable_sorted [OF tr H(3)] by simp
  have grow: "traceable (s_llog ?b) l" if "traceable (s_llog a) l" for l
    by (rule traceable_extend [OF that]) (use empty in simp)
  show "ballot_ok n ?b U q" for U q
    using H(5) [of U q] grow by (auto simp: ballot_ok_def)
  show "s_acked ?b U k \<le> length (s_llog ?b U)" for U k
    using H(6) [of U k] empty by auto
  show "U \<le> s_term ?b k" if "0 < s_acked ?b U k" for U k
    using H(7) [of U k] that by (auto split: if_splits)
qed (use hist_invD(4) [OF inv(1)] in simp)

lemma hist_append:
  assumes inv: "hist_inv n a" "log_inv n a" "election_inv n a" and i: "i < n" "s_role a i = 2" "eterm e = s_term a i"
  shows "hist_inv n (grow_log i e a)" (is "hist_inv n ?b")
proof (rule hist_invI)
  note H = hist_invD [OF inv(1)]
  let ?T = "s_term a i"
  have lead: "s_leader a ?T \<noteq> None" using election_invD(6) [OF inv(3) i(1,2)] by simp
  have own: "s_log a i = s_llog a ?T" by (rule log_invD(4) [OF inv(2) i(1,2)])
  show "elog_ok ?b U" for U
    using H(1) [of U] i by (auto simp: elog_ok_def)
  show "sorted (map eterm (s_llog ?b U))" for U
    using H(3) [of U] elog_okD(2) [OF H(1) lead] i(3) by (auto simp: sorted_append)
  have grow: "traceable (s_llog ?b) l" if "traceable (s_llog a) l" for l
    by (rule traceable_extend [OF that]) simp
  show "ballot_ok n ?b U q" for U q
    using H(5) [of U q] grow i by (auto simp: ballot_ok_def)
  show "s_acked ?b U k \<le> length (s_llog ?b U)" for U k
    using H(6) [of U k] own by auto
  show "U \<le> s_term ?b k" if "0 < s_acked ?b U k" for U k
    using H(7) [of U k] that by (auto split: if_splits)
  show "eterm e' \<le> s_term ?b k" if "k < n" "e' \<in> set (s_log ?b k)" for k e'
    using H(4) [of k e'] that i by (auto split: if_splits)
qed (use hist_invD(2) [OF inv(1)] in \<open>simp add: elected_ok_def\<close>)

lemma hist_step:
  assumes "spec_step ord n a b" and "hist_inv n a" "log_inv n a" "election_inv n a"
  shows "hist_inv n b"
  using assms
proof (induction rule: spec_step.induct)
  case (timeout i a)
  then show ?case by (intro hist_timeout)
next
  case (adopt j a T)
  then show ?case by (intro hist_enter) simp_all
next
  case (grant j i T a)
  then show ?case by (intro hist_grant) auto
next
  case (follow j a T i)
  then show ?case by (intro hist_enter) simp_all
next
  case (copy_log j a T m)
  then show ?case using hist_copy [of n a j m] by simp
next
  case (lead i a Q)
  then show ?case by (intro hist_lead)
next
  case (append i a e)
  then show ?case by (intro hist_append)
next
  case (demote i a)
  show ?case
    by (rule hist_invI) (use hist_invD [OF demote.prems(1)] in \<open>auto simp: elog_ok_def elected_ok_def ballot_ok_def\<close>)
qed

lemma spec_reach_hist: "spec_reach ord n a \<Longrightarrow> hist_inv n a"
proof (induction rule: spec_reach.induct)
  case start
  then show ?case by (simp add: spec_init_def hist_inv_def elog_ok_def elected_ok_def ballot_ok_def)
next
  case (step a b)
  then show ?case by (blast intro: hist_step spec_reach_election spec_reach_log)
qed

text \<open>A leader has accepted all of its own log.\<close>

lemma leader_acked:
  assumes "spec_reach ord n a"
  shows "i < n \<Longrightarrow> s_role a i = 2 \<Longrightarrow> s_acked a (s_term a i) i = length (s_llog a (s_term a i))"
  using assms
proof (induction arbitrary: i rule: spec_reach.induct)
  case start
  then show ?case by (simp add: spec_init_def)
next
  case (step a b)
  from step.hyps(2) step.prems step.IH step.hyps(1) show ?case
  proof (induction rule: spec_step.induct)
    case (lead k a Q)
    have "s_leader a (s_term a k) = None"
      using lead.hyps by (intro lead_fresh [OF spec_reach_election [OF lead.prems(4)]])
    then have "s_term a i \<noteq> s_term a k" if "s_role a i = 2"
      using election_invD(6) [OF spec_reach_election [OF lead.prems(4)] lead.prems(1) that] by auto
    then show ?case using lead by (cases "i = k") auto
  next
    case (append k a e)
    note E = election_invD(6) [OF spec_reach_election [OF append.prems(4)]]
    have "s_log a k = s_llog a (s_term a k)"
      using log_invD(4) [OF spec_reach_log [OF append.prems(4)]] append.hyps by simp
    moreover have "i = k" if "s_term a i = s_term a k"
      using E [of i] E [of k] append.hyps append.prems(1,2) that by simp
    ultimately show ?case using append.prems(1,2,3) by (cases "i = k") auto
  qed (auto split: if_splits)
qed

subsection \<open>What was accepted is kept, or a leader lacks it\<close>

text \<open>
  A peer that accepted a mark of term \<open>T\<close> still has it, unless a leader of a term it has since entered
  was elected without it. The same is recorded of a peer's log at each of its votes that count.
\<close>

definition kept :: "'c spec \<Rightarrow> nat \<Rightarrow> bool" where
  "kept a j \<longleftrightarrow> (\<forall>T c. mark a T c \<and> c \<le> s_acked a T j \<longrightarrow>
     has a T c (s_log a j) \<or> (\<exists>U. T < U \<and> U \<le> s_term a j \<and> lacks a T c U))"

definition kept_at_vote :: "'c spec \<Rightarrow> int \<Rightarrow> nat \<Rightarrow> bool" where
  "kept_at_vote a V q \<longleftrightarrow> (s_hvote a V q \<noteq> None \<and> (s_leader a V = None \<or> q \<in> s_elect a V) \<longrightarrow>
     (\<forall>T c. T < V \<and> mark a T c \<and> c \<le> s_acked a T q \<longrightarrow>
        has a T c (s_vlog a V q) \<or> (\<exists>U. T < U \<and> U < V \<and> lacks a T c U)))"

definition ret_inv :: "nat \<Rightarrow> 'c spec \<Rightarrow> bool" where
  "ret_inv n a \<longleftrightarrow> (\<forall>j < n. kept a j \<and> (\<forall>V. kept_at_vote a V j))"

lemma keptD: "kept a j \<Longrightarrow> mark a T c \<Longrightarrow> c \<le> s_acked a T j \<Longrightarrow>
    has a T c (s_log a j) \<or> (\<exists>U. T < U \<and> U \<le> s_term a j \<and> lacks a T c U)"
  by (auto simp: kept_def)

lemma kept_at_voteD: "kept_at_vote a V q \<Longrightarrow> s_hvote a V q \<noteq> None \<Longrightarrow> s_leader a V = None \<or> q \<in> s_elect a V \<Longrightarrow>
    T < V \<Longrightarrow> mark a T c \<Longrightarrow> c \<le> s_acked a T q \<Longrightarrow>
    has a T c (s_vlog a V q) \<or> (\<exists>U. T < U \<and> U < V \<and> lacks a T c U)"
  by (auto simp: kept_at_vote_def)

lemma ret_invD:
  "ret_inv n a \<Longrightarrow> j < n \<Longrightarrow> kept a j" "ret_inv n a \<Longrightarrow> j < n \<Longrightarrow> kept_at_vote a V j"
  by (simp_all add: ret_inv_def)

lemma marks_cong:
  assumes "s_llog b = s_llog a" and "s_leader b = s_leader a" and "s_elog b = s_elog a"
  shows "mark b = mark a" "has b = has a" "lacks b = lacks a"
  using assms by (auto simp: fun_eq_iff mark_def has_def lacks_def)

text \<open>Steps that change terms, votes and roles only.\<close>

lemma ret_frame:
  assumes inv: "ret_inv n a" and "s_llog b = s_llog a" "s_leader b = s_leader a" "s_elog b = s_elog a"
    and "s_log b = s_log a" "s_acked b = s_acked a" "s_elect b = s_elect a" "s_hvote b = s_hvote a" "s_vlog b = s_vlog a"
    and "\<And>j. s_term a j \<le> s_term b j"
  shows "ret_inv n b"
  unfolding ret_inv_def
proof (intro allI impI conjI)
  fix j assume j: "j < n"
  note C = marks_cong [OF assms(2-4)]
  show "kept b j"
    using ret_invD(1) [OF inv j] assms(10) [of j] unfolding kept_def C assms(5,6) by (meson order_trans)
  show "kept_at_vote b V j" for V
    using ret_invD(2) [OF inv j, of V] unfolding kept_at_vote_def C assms(3,6-9) .
qed

text \<open>A vote is cast in a term without a leader: what the voter has kept is what is recorded.\<close>

lemma ret_cast:
  assumes inv: "ret_inv n a" and el: "hist_inv n a" and j: "j < n" "s_term a j \<le> T"
  shows "ret_inv n (cast_vote T j i a)" (is "ret_inv n ?b")
  unfolding ret_inv_def
proof (intro allI impI conjI)
  fix k assume k: "k < n"
  have C: "mark ?b = mark a" "has ?b = has a" "lacks ?b = lacks a" using marks_cong [of ?b a] by simp_all
  show "kept ?b k" using ret_invD(1) [OF inv k] by (simp add: kept_def C)
  fix V
  show "kept_at_vote ?b V k"
  proof (cases "V = T \<and> k = j \<and> s_hvote a T j = None")
    case True
    then have new: "j \<notin> s_elect a T" if "s_leader a T \<noteq> None"
      using hist_invD(2) [OF el, of T] that by (auto simp: elected_ok_def)
    show ?thesis
      unfolding kept_at_vote_def C
    proof (intro impI allI; elim conjE)
      fix U c assume *: "s_leader ?b V = None \<or> k \<in> s_elect ?b V" "U < V" "mark a U c" "c \<le> s_acked ?b U k"
      then have none: "s_leader a T = None"
        using True new by (cases "s_leader a T") auto
      from keptD [OF ret_invD(1) [OF inv j(1)] *(3)] * True
      consider "has a U c (s_log a j)" | W where "U < W" "W \<le> s_term a j" "lacks a U c W" by auto
      then show "has a U c (s_vlog ?b V k) \<or> (\<exists>W > U. W < V \<and> lacks a U c W)"
      proof cases
        case 2
        then have "W \<noteq> T" using none by (auto simp: lacks_def)
        with 2 j True show ?thesis by (intro disjI2 exI [of _ W]) auto
      qed (use True in simp)
    qed
  next
    case False
    then have "s_vlog ?b V k = s_vlog a V k" "s_hvote a V k \<noteq> None" if "s_hvote ?b V k \<noteq> None"
      using that by (auto simp: first_vote_apply split: option.splits if_splits)
    then show ?thesis using ret_invD(2) [OF inv k, of V] by (auto simp: kept_at_vote_def C)
  qed
qed

text \<open>An accepted append. The new log holds everything the leader had when it was elected.\<close>

lemma ret_copy:
  assumes inv: "ret_inv n a" "hist_inv n a" "election_inv n a" and j: "j < n" "s_leader a (s_term a j) \<noteq> None"
    and m: "length (s_elog a (s_term a j)) \<le> m" "m \<le> length (s_llog a (s_term a j))" "s_acked a (s_term a j) j \<le> m"
  shows "ret_inv n (take_log j (s_term a j) m a)" (is "ret_inv n ?b")
  unfolding ret_inv_def
proof (intro allI impI conjI)
  let ?T = "s_term a j"
  have C: "mark ?b = mark a" "has ?b = has a" "lacks ?b = lacks a" using marks_cong [of ?b a] by simp_all
  note E = elog_okD [OF hist_invD(1) [OF inv(2)] j(2)]
  fix k assume k: "k < n"
  show "kept ?b k"
  proof (cases "k = j")
    case True
    show ?thesis
      unfolding kept_def C
    proof (intro allI impI; elim conjE)
      fix T c assume *: "mark a T c" "c \<le> s_acked ?b T k"
      have le: "T \<le> ?T" using hist_invD(7) [OF inv(2), of T j] * True by (auto simp: mark_def split: if_splits)
      have "has a T c (take m (s_llog a ?T))" if "has a T c (s_elog a ?T)"
        using that E(3,4) m by (auto simp: has_def min_def) (metis min.absorb1 take_take)
      moreover have "has a T c (take m (s_llog a ?T))" if "T = ?T"
        using that * True m by (simp add: has_def min_def)
      ultimately show "has a T c (s_log ?b k) \<or> (\<exists>U > T. U \<le> s_term ?b k \<and> lacks a T c U)"
        using le True j(2) by (cases "T = ?T \<or> has a T c (s_elog a ?T)") (auto simp: lacks_def intro!: exI [of _ ?T])
    qed
  next
    case False
    then show ?thesis using ret_invD(1) [OF inv(1) k] by (simp add: kept_def C)
  qed
  show "kept_at_vote ?b V k" for V
  proof (cases "k = j \<and> ?T < V")
    case True
    then have "s_hvote a V k = None" using election_invD(2) [OF inv(3) j(1)] by simp
    then show ?thesis by (simp add: kept_at_vote_def)
  next
    case False
    have "c \<le> s_acked a T k" if "T < V" "c \<le> s_acked ?b T k" for T c
      using that False by (auto split: if_splits)
    then show ?thesis
      using ret_invD(2) [OF inv(1) k, of V] by (auto simp: kept_at_vote_def C)
  qed
qed

text \<open>Marks and leaders of an earlier state, seen in a later one.\<close>

lemma marks_later:
  assumes "c \<le> length (s_llog a T)" and "\<exists>ys. s_llog b T = s_llog a T @ ys"
  shows "has b T c l = has a T c l" "0 < c \<Longrightarrow> mark b T c = mark a T c"
proof -
  obtain ys where "s_llog b T = s_llog a T @ ys" using assms(2) by blast
  then show "has b T c l = has a T c l" "0 < c \<Longrightarrow> mark b T c = mark a T c"
    using assms(1) by (auto simp: has_def mark_def nth_append)
qed

lemma lacks_later:
  assumes "lacks a T c U" and "c \<le> length (s_llog a T)" and "\<exists>ys. s_llog b T = s_llog a T @ ys"
    and "s_leader b U = s_leader a U" and "s_elog b U = s_elog a U"
  shows "lacks b T c U"
  using assms marks_later(1) [OF assms(2,3)] by (simp add: lacks_def)

lemma ret_lead:
  assumes inv: "ret_inv n a" "hist_inv n a" "log_inv n a" "election_inv n a" and i: "i < n" "s_role a i = 1"
    and Q: "majority n Q" "\<And>q. q \<in> Q \<Longrightarrow> s_hvote a (s_term a i) q = Some i"
  shows "ret_inv n (win i Q a)" (is "ret_inv n ?b")
proof -
  let ?V = "s_term a i"
  have none: "s_leader a ?V = None" by (rule lead_fresh [OF inv(4) i Q])
  have empty: "s_llog a ?V = []" by (rule log_invD(1) [OF inv(3) none])
  have "elog_ok ?b ?V" by (rule hist_invD(1) [OF hist_lead [OF inv(2-4) i Q]])
  then have low: "eterm e < ?V" if "e \<in> set (s_log a i)" for e
    using elog_okD(1) [of ?b ?V e] that by simp
  have old: "T \<noteq> ?V \<and> mark a T c \<and> c \<le> length (s_llog a T)" if "mark ?b T c" for T c
  proof -
    have "T \<noteq> ?V"
    proof
      assume "T = ?V"
      then have "0 < c" "c \<le> length (s_log a i)" "eterm (s_log a i ! (c - 1)) = ?V"
        using that by (simp_all add: mark_def)
      then show False using low [of "s_log a i ! (c - 1)"] by simp
    qed
    then show ?thesis using that by (simp add: mark_def)
  qed
  have same: "has ?b T c l = has a T c l" "lacks a T c U \<Longrightarrow> lacks ?b T c U" if "mark ?b T c" for T c l U
    using old [OF that] marks_later(1) [of c a T ?b l] lacks_later [of a T c U ?b] none
    by (auto simp: lacks_def has_def)
  show ?thesis
    unfolding ret_inv_def
  proof (intro allI impI conjI)
    fix k assume k: "k < n"
    show "kept ?b k"
      unfolding kept_def
    proof (intro allI impI; elim conjE)
      fix T c assume *: "mark ?b T c" "c \<le> s_acked ?b T k"
      with old [OF *(1)] keptD [OF ret_invD(1) [OF inv(1) k], of T c]
      show "has ?b T c (s_log ?b k) \<or> (\<exists>U > T. U \<le> s_term ?b k \<and> lacks ?b T c U)"
        by (auto simp: same [OF *(1)])
    qed
    show "kept_at_vote ?b V k" for V
      unfolding kept_at_vote_def
    proof (intro allI impI; elim conjE)
      fix T c assume *: "s_hvote ?b V k \<noteq> None" "s_leader ?b V = None \<or> k \<in> s_elect ?b V" "T < V"
        "mark ?b T c" "c \<le> s_acked ?b T k"
      have "s_leader a V = None \<or> k \<in> s_elect a V" using *(2) none by (auto split: if_splits)
      with * old [OF *(4)] kept_at_voteD [OF ret_invD(2) [OF inv(1) k], of V T c]
      show "has ?b T c (s_vlog ?b V k) \<or> (\<exists>U > T. U < V \<and> lacks ?b T c U)"
        by (auto simp: same [OF *(4)])
    qed
  qed
qed

lemma ret_append:
  assumes inv: "ret_inv n a" "hist_inv n a" "log_inv n a" "election_inv n a" and i: "i < n" "s_role a i = 2"
  shows "ret_inv n (grow_log i e a)" (is "ret_inv n ?b")
proof -
  let ?T = "s_term a i"
  have own: "s_log a i = s_llog a ?T" by (rule log_invD(4) [OF inv(3) i])
  have grow: "\<exists>ys. s_llog ?b T = s_llog a T @ ys" for T by simp
  have old: "c \<le> s_acked a T k \<and> c \<le> length (s_llog a T)" if "c \<le> s_acked ?b T k" "\<not> (T = ?T \<and> k = i)" for T c k
    using that hist_invD(6) [OF inv(2), of T k] by (auto split: if_splits)
  have same: "mark a T c" "has ?b T c l = has a T c l" "lacks a T c U \<Longrightarrow> lacks ?b T c U"
    if "mark ?b T c" "c \<le> length (s_llog a T)" for T c l U
    using that marks_later(1) [OF that(2) grow, of l] marks_later(2) [OF that(2) grow] lacks_later [OF _ that(2) grow, of U]
    by (auto simp: mark_def [of ?b])
  show ?thesis
    unfolding ret_inv_def
  proof (intro allI impI conjI)
    fix k assume k: "k < n"
    show "kept ?b k"
      unfolding kept_def
    proof (intro allI impI; elim conjE)
      fix T c assume *: "mark ?b T c" "c \<le> s_acked ?b T k"
      show "has ?b T c (s_log ?b k) \<or> (\<exists>U > T. U \<le> s_term ?b k \<and> lacks ?b T c U)"
      proof (cases "T = ?T \<and> k = i")
        case True
        then show ?thesis using * own by (simp add: has_def)
      next
        case False
        note S = same [OF *(1) conjunct2 [OF old [OF *(2) False]]]
        have "has a T c (s_log a k) \<or> (\<exists>U > T. U \<le> s_term a k \<and> lacks a T c U)"
          using keptD [OF ret_invD(1) [OF inv(1) k] S(1)] old [OF *(2) False] by blast
        moreover have "has a T c (s_log ?b k)" if "has a T c (s_log a k)" using that by (auto simp: has_def)
        ultimately show ?thesis using S(2,3) by auto
      qed
    qed
    show "kept_at_vote ?b V k" for V
      unfolding kept_at_vote_def
    proof (intro allI impI; elim conjE)
      fix T c assume *: "s_hvote ?b V k \<noteq> None" "s_leader ?b V = None \<or> k \<in> s_elect ?b V" "T < V"
        "mark ?b T c" "c \<le> s_acked ?b T k"
      then have ne: "\<not> (T = ?T \<and> k = i)" using election_invD(2) [OF inv(4) i(1), of V] by auto
      note S = same [OF *(4) conjunct2 [OF old [OF *(5) ne]]]
      show "has ?b T c (s_vlog ?b V k) \<or> (\<exists>U > T. U < V \<and> lacks ?b T c U)"
        using kept_at_voteD [OF ret_invD(2) [OF inv(1) k] _ _ *(3) S(1)] * old [OF *(5) ne] S(2,3) by fastforce
    qed
  qed
qed

lemma ret_step:
  assumes "spec_step True n a b" and "ret_inv n a" "hist_inv n a" "log_inv n a" "election_inv n a"
  shows "ret_inv n b"
  using assms
proof (induction rule: spec_step.induct)
  case (timeout i a)
  have "ret_inv n (cast_vote (s_term a i + 1) i i a)" using timeout by (intro ret_cast) simp_all
  then show ?case by (rule ret_frame) simp_all
next
  case (grant j i T a)
  have "ret_inv n (cast_vote T j i a)" using grant by (intro ret_cast) simp_all
  then show ?case by (rule ret_frame) (use grant in simp_all)
next
  case (copy_log j a T m)
  then show ?case using ret_copy [of n a j m] by simp
next
  case (lead i a Q)
  then show ?case by (intro ret_lead)
next
  case (append i a e)
  then show ?case by (intro ret_append)
qed (auto intro: ret_frame)

lemma spec_reach_ret: "spec_reach True n a \<Longrightarrow> ret_inv n a"
proof (induction rule: spec_reach.induct)
  case start
  then show ?case by (simp add: spec_init_def ret_inv_def kept_def kept_at_vote_def mark_def)
next
  case (step a b)
  then show ?case by (blast intro: ret_step spec_reach_election spec_reach_log spec_reach_hist)
qed

subsection \<open>Leader completeness\<close>

text \<open>
  A log that is at least as far as one with a mark of \<open>T\<close> has it too, if all its entries are of terms
  whose leaders have it.
\<close>

lemma uptodate_has:
  assumes inv: "log_inv n a" "hist_inv n a" "election_inv n a" and mk: "mark a T c" "has a T c l"
    and tr: "traceable (s_llog a) l" "traceable (s_llog a) m" and up: "uptodate m l"
    and later: "\<And>U. T < U \<Longrightarrow> U \<in> eterm ` set m \<Longrightarrow> has a T c (s_elog a U)"
  shows "has a T c m"
proof -
  note H = hist_invD [OF inv(2)]
  have c: "0 < c" "c \<le> length l" using mk by (auto simp: mark_def has_def)
  have "take c l ! (c - 1) = take c (s_llog a T) ! (c - 1)" using mk(2) by (simp add: has_def)
  then have T: "eterm (l ! (c - 1)) = T" using mk(1) c by (simp add: mark_def)
  have "s_leader a T \<noteq> None" using traceable_leader [OF tr(1) nth_mem inv(1), of "c - 1"] c T by simp
  then have "0 < T" using election_inv_leader [OF inv(3)] by blast
  have "sorted (map eterm l)" using traceable_sorted [OF tr(1) H(3)] .
  then have "T \<le> lastTerm l"
    using c T sorted_nth_mono [of "map eterm l" "c - 1" "length l - 1"] by (auto simp: lastTerm_def)
  then have pos: "T \<le> lastTerm m" using up by (auto simp: uptodate_def)
  show ?thesis
  proof (cases "m = []")
    case True
    then show ?thesis using pos \<open>0 < T\<close> by (simp add: lastTerm_def)
  next
    case False
    note M = traceable_last [OF tr(2) False]
    show ?thesis
    proof (cases "lastTerm m = T")
      case True
      then have "lastTerm l = T" "length l \<le> length m" using up \<open>T \<le> lastTerm l\<close> by (auto simp: uptodate_def)
      then have "c \<le> length m" using c by simp
      then show ?thesis using M(2) True by (simp add: has_def) (metis min.absorb1 take_take)
    next
      case False
      then have gt: "T < lastTerm m" using pos by simp
      let ?U = "lastTerm m"
      have mem: "m ! (length m - 1) \<in> set m" using \<open>m \<noteq> []\<close> by simp
      have last: "eterm (m ! (length m - 1)) = ?U" using \<open>m \<noteq> []\<close> by (simp add: lastTerm_def)
      have h: "has a T c (s_elog a ?U)" using later [OF gt] mem last by force
      have lead: "s_leader a ?U \<noteq> None" using traceable_leader [OF tr(2) mem inv(1)] last by simp
      note E = elog_okD [OF H(1) lead]
      have "length (s_elog a ?U) \<le> length m - 1"
      proof (rule ccontr)
        assume *: "\<not> length (s_elog a ?U) \<le> length m - 1"
        then have "m ! (length m - 1) = s_elog a ?U ! (length m - 1)"
          using M E(3,4) \<open>m \<noteq> []\<close> by (metis diff_less length_greater_0_conv less_one not_le nth_take)
        then show False using E(1) [of "m ! (length m - 1)"] last * by (auto simp: not_le)
      qed
      then have "length (s_elog a ?U) \<le> length m" by simp
      then have "take (length (s_elog a ?U)) m = s_elog a ?U"
        using M(2) E(4) by (metis min.absorb1 take_take)
      then show ?thesis using h \<open>length (s_elog a ?U) \<le> length m\<close>
        by (simp add: has_def) (metis min.absorb1 take_take)
    qed
  qed
qed

text \<open>Leader completeness: what a majority has accepted is in the log of every later leader.\<close>

lemma leader_complete:
  assumes inv: "log_inv n a" "hist_inv n a" "ret_inv n a" "election_inv n a" and com: "committed_at n a T c"
  shows "T < V \<Longrightarrow> s_leader a V \<noteq> None \<Longrightarrow> has a T c (s_elog a V)"
proof (induction "nat (V - T)" arbitrary: V rule: less_induct)
  case less
  obtain i where i: "s_leader a V = Some i" using less.prems by blast
  obtain Q where mk: "mark a T c" and Q: "majority n Q" "\<forall>q \<in> Q. c \<le> s_acked a T q"
    using com by (auto simp: committed_at_def)
  have el: "majority n (s_elect a V)" "\<And>q. q \<in> s_elect a V \<Longrightarrow> s_hvote a V q = Some i \<and> uptodate (s_elog a V) (s_vlog a V q)"
    using hist_invD(2) [OF inv(2), of V] i by (auto simp: elected_ok_def)
  obtain q where q: "q \<in> Q" "q \<in> s_elect a V" using maj.meet [OF Q(1) el(1)] by blast
  then have "q < n" using Q(1) by (auto simp: majority_def)
  have IH: "has a T c (s_elog a U)" if "T < U" "U < V" "s_leader a U \<noteq> None" for U
    using less.hyps [of U] that by simp
  have h: "has a T c (s_vlog a V q)"
    using kept_at_voteD [OF ret_invD(2) [OF inv(3) \<open>q < n\<close>], of V T c] el(2) [OF q(2)] q mk Q(2) less.prems IH
    by (auto simp: lacks_def)
  have tr: "traceable (s_llog a) (s_vlog a V q)" "traceable (s_llog a) (s_elog a V)"
    using hist_invD(5) [OF inv(2), of V q] el(2) [OF q(2)] elog_okD(4) [OF hist_invD(1) [OF inv(2)] less.prems(2)]
      traceable_take [OF log_invD(2) [OF inv(1)], of "length (s_elog a V)" V] by (simp_all add: ballot_ok_def)
  have later: "has a T c (s_elog a U)" if "T < U" "U \<in> eterm ` set (s_elog a V)" for U
    using that elog_okD(1) [OF hist_invD(1) [OF inv(2)] less.prems(2)] traceable_leader [OF tr(2) _ inv(1)] IH by blast
  show ?case
    by (rule uptodate_has [OF inv(1,2,4) mk h tr _ later]) (use el(2) [OF q(2)] in simp_all)
qed

lemma committed_leader:
  assumes "spec_reach ord n a" and "committed_at n a T d"
  shows "s_leader a T \<noteq> None"
proof
  assume "s_leader a T = None"
  then show False using assms(2) log_invD(1) [OF spec_reach_log [OF assms(1)]] by (auto simp: committed_at_def mark_def)
qed

text \<open>Any two committed prefixes agree as far as both go.\<close>

lemma committed_agree:
  assumes inv: "spec_reach True n a" and "committed_at n a T c" "committed_at n a U d" "k \<le> c" "k \<le> d"
  shows "take k (s_llog a T) = take k (s_llog a U)"
proof -
  have *: "take k (s_llog a T) = take k (s_llog a U)"
    if "committed_at n a T c" "committed_at n a U d" "T < U" "k \<le> c" for T U c d
  proof -
    have lead: "s_leader a U \<noteq> None" by (rule committed_leader [OF inv that(2)])
    then have h: "has a T c (s_elog a U)"
      using leader_complete [OF spec_reach_log [OF inv] spec_reach_hist [OF inv] spec_reach_ret [OF inv]
        spec_reach_election [OF inv] that(1,3)] by simp
    note E = elog_okD(3,4) [OF hist_invD(1) [OF spec_reach_hist [OF inv]] lead]
    have "take c (s_llog a U) = take c (s_elog a U)"
      using h E by (metis has_def min.absorb1 take_take)
    then have "take c (s_llog a U) = take c (s_llog a T)" using h by (simp add: has_def)
    then show ?thesis using that(4) by (metis min.absorb1 take_take)
  qed
  show ?thesis using * [of T c U d] * [of U d T c] assms by (metis linorder_less_linear)
qed

text \<open>An entry of a peer's own term in its log was accepted from, or appended by, the leader of that term.\<close>

definition own_inv :: "nat \<Rightarrow> 'c spec \<Rightarrow> bool" where
  "own_inv n a \<longleftrightarrow> (\<forall>j < n. \<forall>p < length (s_log a j). eterm (s_log a j ! p) = s_term a j \<longrightarrow> p < s_acked a (s_term a j) j)"

lemma own_invD: "own_inv n a \<Longrightarrow> j < n \<Longrightarrow> p < length (s_log a j) \<Longrightarrow> eterm (s_log a j ! p) = s_term a j \<Longrightarrow> p < s_acked a (s_term a j) j"
  by (simp add: own_inv_def)

lemma own_enter:
  assumes "own_inv n a" and "hist_inv n a" and "s_term a j \<le> T" and "s_log b = s_log a" and "s_acked b = s_acked a"
    and "s_term b = (s_term a)(j := T)"
  shows "own_inv n b"
  unfolding own_inv_def
proof (intro allI impI)
  fix k p assume k: "k < n" "p < length (s_log b k)" "eterm (s_log b k ! p) = s_term b k"
  have "eterm (s_log a k ! p) \<le> s_term a k" using hist_invD(4) [OF assms(2) k(1), of "s_log a k ! p"] k(2) assms(4) by simp
  then have "s_term b k = s_term a k" using k(3) assms(3,4,6) by (cases "k = j") simp_all
  then show "p < s_acked b (s_term b k) k" using own_invD [OF assms(1) k(1)] k assms(4,5) by simp
qed

lemma own_step: "spec_step ord n a b \<Longrightarrow> own_inv n a \<Longrightarrow> hist_inv n a \<Longrightarrow> own_inv n b"
proof (induction rule: spec_step.induct)
  case (timeout i a)
  show ?case
    by (rule own_enter [OF timeout.prems, where j = i and T = "s_term a i + 1"]) simp_all
next
  case (adopt j a T)
  show ?case by (rule own_enter [OF adopt.prems, where j = j and T = T]) (use adopt.hyps in simp_all)
next
  case (grant j i T a)
  show ?case by (rule own_enter [OF grant.prems, where j = j and T = T]) (use grant.hyps in simp_all)
next
  case (follow j a T i)
  show ?case by (rule own_enter [OF follow.prems, where j = j and T = T]) (use follow.hyps in simp_all)
next
  case (copy_log j a T m)
  then show ?case by (simp add: own_inv_def)
next
  case (lead i a Q)
  then show ?case by (simp add: own_inv_def)
next
  case (append i a e)
  then show ?case by (simp add: own_inv_def nth_append)
next
  case (demote i a)
  then show ?case by (simp add: own_inv_def)
qed

lemma spec_reach_own: "spec_reach True n a \<Longrightarrow> own_inv n a"
proof (induction rule: spec_reach.induct)
  case (step a b)
  then show ?case using own_step [OF step.hyps(2) step.IH spec_reach_hist [OF step.hyps(1)]] by simp
qed (simp add: own_inv_def spec_init_def)

text \<open>What is committed is in the log of every leader of the same or a later term, for later ones from the start.\<close>

lemma leader_has:
  assumes inv: "spec_reach True n a" and com: "committed_at n a T d" and U: "T \<le> U" "s_leader a U \<noteq> None"
  shows "has a T d (s_llog a U)" "T < U \<Longrightarrow> d \<le> length (s_elog a U)"
proof -
  note E = elog_okD(3,4) [OF hist_invD(1) [OF spec_reach_hist [OF inv]] U(2)]
  have e: "has a T d (s_elog a U)" if "T < U"
    by (rule leader_complete [OF spec_reach_log [OF inv] spec_reach_hist [OF inv] spec_reach_ret [OF inv]
        spec_reach_election [OF inv] com that U(2)])
  then show "T < U \<Longrightarrow> d \<le> length (s_elog a U)" by (simp add: has_def)
  show "has a T d (s_llog a U)"
  proof (cases "T = U")
    case True
    then show ?thesis using com by (simp add: has_def committed_at_def mark_def)
  next
    case False
    with U(1) e have "d \<le> length (s_elog a U)" "take d (s_elog a U) = take d (s_llog a T)" by (simp_all add: has_def)
    moreover from this(1) have "take d (s_llog a U) = take d (s_elog a U)" 
      by (rule take_take_eq [where m = "length (s_elog a U)", rotated]) (use E(2) in simp)
    moreover have "d \<le> length (s_llog a U)" using E(1) calculation(1) by simp
    ultimately show ?thesis by (simp add: has_def)
  qed
qed

end
