(* ===== verification/Raft_System.thy ===== *)
theory Raft_System
  imports Raft
begin

text \<open>
  A group of Raft peers with their goroutines and the messages between them, as an executable
  transition system. A step is one critical section of one goroutine, or the delivery or loss of
  one message. Everything that is in transit or waiting for a lock is a \<open>packet\<close>:

  \<^item> \<open>VoteReq\<close>, \<open>VoteRep\<close>: a \<open>RequestVote\<close> call and its reply on the network;
  \<^item> \<open>VoteDown\<close>: a vote goroutine that found \<open>reply.Term > rf.currentTerm\<close> in \<open>sendRequestVote\<close>
    and has not taken the lock yet;
  \<^item> \<open>VoteCount\<close>: \<open>sendRequestVote\<close> has returned, the goroutine of \<open>doVote\<close> has not counted yet;
  \<^item> \<open>AESend\<close>: a sender started by a heartbeat, before it builds its arguments;
  \<^item> \<open>AEReq\<close>, \<open>AERep\<close>, \<open>AEDown\<close>, \<open>AENext\<close>, \<open>AECount\<close>: the same stations of \<open>sendAppendEntries\<close> and
    of the goroutine in \<open>doSubmit\<close>, \<open>AENext\<close> being the unlocked test before the update of \<open>nextIndex\<close>;
  \<^item> \<open>AEWrite\<close>: the same goroutine inside that update, with the values it still has to assign.

  A packet carries the peer that owns the goroutine, the incarnation of that peer, the other peer
  and, for votes, the number of the poll (the call of \<open>doVote\<close>) whose shared counter it updates.
  The network of \<^verbatim>\<open>src/labrpc/labrpc.go\<close> delivers a call at most once, in any order, or not at all.

  The code tests \<open>reply.Term > rf.currentTerm\<close> and \<open>rf.role != 2\<close> without holding the lock. The flag
  \<open>strict\<close> of the step function selects the runs in which such a test still holds when the lock is
  acquired and in which the unlocked assignments to \<open>nextIndex\<close> are not interrupted by another goroutine of
  the peer. Without it the write happens on the strength of the old test and the assignments are steps
  of their own, as in the code; one of them may even fall into the critical section of \<open>doVote\<close> that resets the slice.
\<close>

datatype 'c packet =
    VoteReq nat nat nat nat RequestVoteArgs
  | VoteRep nat nat nat nat RequestVoteArgs RequestVoteReply
  | VoteDown nat nat nat nat RequestVoteArgs RequestVoteReply
  | VoteCount nat nat nat nat RequestVoteArgs bool
  | AESend nat nat nat
  | AEReq nat nat nat "'c AppendEntriesArgs"
  | AERep nat nat nat "'c AppendEntriesArgs" AppendEntriesReply
  | AEDown nat nat nat "'c AppendEntriesArgs" AppendEntriesReply
  | AENext nat nat nat "'c AppendEntriesArgs" AppendEntriesReply
  | AEWrite nat nat nat "'c AppendEntriesArgs" AppendEntriesReply "int list"
  | AECount nat nat nat "'c AppendEntriesArgs" bool

record 'c sys =
  node :: "'c Raft list"
  voting :: "bool list"
  inc :: "nat list"
  agreed :: "int list"
  flight :: "'c packet list"

datatype 'a outcome = Disabled | Panic | Next 'a

datatype 'c label =
    Timeout nat int
  | Vote nat
  | Tick nat
  | Submit nat 'c
  | Restart nat int int int
  | Handle nat int
  | Lose nat
  | Reset nat nat nat

definition sys_init :: "nat \<Rightarrow> 'c sys" where
  "sys_init n = \<lparr>node = map (\<lambda>i. Make n (int i) MakePersister 0 0 0) [0..<n],
     voting = replicate n False, inc = replicate n 0, agreed = [], flight = []\<rparr>"

definition put :: "nat \<Rightarrow> 'c Raft \<Rightarrow> 'c sys \<Rightarrow> 'c sys" where
  "put i rf s = s\<lparr>node := (node s)[i := rf]\<rparr>"

definition send :: "'c packet list \<Rightarrow> 'c sys \<Rightarrow> 'c sys" where
  "send ps s = s\<lparr>flight := flight s @ ps\<rparr>"

text \<open>
  The continuation of a goroutine whose call has returned: it runs only if its peer has not been
  restarted since.
\<close>

definition alive :: "nat \<Rightarrow> nat \<Rightarrow> 'c sys \<Rightarrow> bool" where
  "alive i c s \<longleftrightarrow> inc s ! i = c"

fun handle :: "bool \<Rightarrow> int \<Rightarrow> 'c packet \<Rightarrow> 'c sys \<Rightarrow> 'c sys outcome" where
  "handle strict now (VoteReq p i c j args) s =
     (let (rf, reply) = RequestVote now args (node s ! j)
      in Next (send [VoteRep p i c j args reply] (put j rf s)))"
| "handle strict now (VoteRep p i c j args reply) s =
     (if \<not> alive i c s then Disabled
      else if rvrTerm reply > currentTerm (node s ! i)
      then Next (send [VoteDown p i c j args reply] s)
      else Next (send [VoteCount p i c j args (VoteGranted reply)] s))"
| "handle strict now (VoteDown p i c j args reply) s =
     (if \<not> alive i c s \<or> strict \<and> \<not> rvrTerm reply > currentTerm (node s ! i) then Disabled
      else Next (send [VoteCount p i c j args (VoteGranted reply)]
             (put i (step_down (rvrTerm reply) (node s ! i)) s)))"
| "handle strict now (VoteCount p i c j args ok) s =
     (if \<not> alive i c s then Disabled
      else let (rf, a, lead) = count_vote args ok (agreed s ! p) (node s ! i)
           in Next (put i rf (s\<lparr>agreed := (agreed s)[p := a]\<rparr>)))"
| "handle strict now (AESend i c j) s =
     (if \<not> alive i c s \<or> strict \<and> role (node s ! i) \<noteq> 2 then Disabled
      else case build_append (int j) (node s ! i) of
             None \<Rightarrow> Panic
           | Some (rf, args) \<Rightarrow> Next (send [AEReq i c j args] (put i rf s)))"
| "handle strict now (AEReq i c j args) s =
     (case AppendEntries now args (node s ! j) of
        None \<Rightarrow> Panic
      | Some (rf, reply) \<Rightarrow> Next (send [AERep i c j args reply] (put j rf s)))"
| "handle strict now (AERep i c j args reply) s =
     (if \<not> alive i c s then Disabled
      else if aerTerm reply > currentTerm (node s ! i)
      then Next (send [AEDown i c j args reply] s)
      else Next (send [AENext i c j args reply] s))"
| "handle strict now (AEDown i c j args reply) s =
     (if \<not> alive i c s \<or> strict \<and> \<not> aerTerm reply > currentTerm (node s ! i) then Disabled
      else Next (send [AENext i c j args reply]
             (put i (step_down (aerTerm reply) (node s ! i)) s)))"
| "handle strict now (AENext i c j args reply) s =
     (if \<not> alive i c s then Disabled
      else if strict then
        case adjust_next (int j) args reply (node s ! i) of
          None \<Rightarrow> Panic
        | Some rf \<Rightarrow> Next (send [AECount i c j args (Success reply)] (put i rf s))
      else if role (node s ! i) = 2 \<and> \<not> Success reply
      then Next (send [AEWrite i c j args reply (next_writes args reply)] s)
      else Next (send [AECount i c j args (Success reply)] s))"
| "handle strict now (AEWrite i c j args reply vs) s =
     (if \<not> alive i c s \<or> strict then Disabled
      else case vs of
             [] \<Rightarrow> Next (send [AECount i c j args (Success reply)] s)
           | v # vs' \<Rightarrow>
               (case write_next (int j) v (node s ! i) of
                  None \<Rightarrow> Panic
                | Some rf \<Rightarrow> Next (send [AEWrite i c j args reply vs'] (put i rf s))))"
| "handle strict now (AECount i c j args ok) s =
     (if \<not> alive i c s then Disabled
      else case submit_reply (int j) args ok (node s ! i) of
             None \<Rightarrow> Panic
           | Some rf \<Rightarrow> Next (put i rf s))"

text \<open>
  A crash and restart as the tester does it: the persister is copied, its Raft state moved to a
  fresh one, copied again and handed to \<open>Make\<close>.
\<close>

definition restart :: "'c Raft \<Rightarrow> int \<Rightarrow> int \<Rightarrow> int \<Rightarrow> 'c Raft" where
  "restart rf now rnd1 rnd2 =
     Make (npeers rf) (me rf)
       (Copy (SaveRaftState MakePersister (ReadRaftState (Copy (persister rf))))) now rnd1 rnd2"

text \<open>
  The steps. \<open>Timeout\<close> is the critical section of the election loop in \<open>Make\<close>; its only guard is that the
  loop is not already between that section and \<open>doVote\<close>, because the code reads the role, the clock and
  \<open>running\<close> before it takes the lock and any of them may have changed since. \<open>Tick\<close> is a turn of the
  heartbeat loop that finds its peer leading. A run of the code, whatever its clocks say and whichever
  heartbeat loop \<open>counter\<close> lets in, is thus a run here; what holds of all runs holds of it. The timed
  turn of the loop is \<open>election_turn\<close> and the guard on \<open>counter\<close> is \<open>doSubmit_enter\<close> of \<open>Raft\<close>.
\<close>

definition drop_packet :: "nat \<Rightarrow> 'c sys \<Rightarrow> 'c sys" where
  "drop_packet k s = s\<lparr>flight := take k (flight s) @ drop (Suc k) (flight s)\<rparr>"

text \<open>
  \<open>Reset k q m\<close>: the goroutine of packet \<open>k\<close> makes its assignment while the one of packet \<open>q\<close>, having won
  the election of the same peer, is resetting \<open>nextIndex\<close> and has appended \<open>m\<close> of the elements. An
  assignment below \<open>m\<close> has the same outcome as one after the section and is left to \<open>Handle\<close>; above it
  the index is out of range.
\<close>

fun resets :: "'c packet \<Rightarrow> 'c packet \<Rightarrow> nat \<Rightarrow> 'c sys \<Rightarrow> bool" where
  "resets (AEWrite i c j args reply (v # vs)) (VoteCount p i' c' j' vargs ok) m s =
     (i = i' \<and> c = c' \<and> alive i c s \<and> m \<le> j \<and> snd (snd (count_vote vargs ok (agreed s ! p) (node s ! i))))"
| "resets _ _ m s = False"

fun exec :: "bool \<Rightarrow> 'c label \<Rightarrow> 'c sys \<Rightarrow> 'c sys outcome" where
  "exec strict (Timeout i rnd) s =
     (if i < length (node s) \<and> \<not> voting s ! i then
        Next (put i (become_candidate rnd (node s ! i)) (s\<lparr>voting := (voting s)[i := True]\<rparr>))
      else Disabled)"
| "exec strict (Vote i) s =
     (if i < length (node s) \<and> voting s ! i then
        Next (send (map (\<lambda>(j, args). VoteReq (length (agreed s)) i (inc s ! i) (nat j) args)
                      (doVote (node s ! i)))
          (s\<lparr>voting := (voting s)[i := False], agreed := agreed s @ [1]\<rparr>))
      else Disabled)"
| "exec strict (Tick i) s =
     (if i < length (node s) \<and> running (node s ! i) \<and> role (node s ! i) = 2 then
        Next (send (map (\<lambda>j. AESend i (inc s ! i) (nat j))
                      (filter (\<lambda>j. j \<noteq> me (node s ! i)) (map int [0..<npeers (node s ! i)]))) s)
      else Disabled)"
| "exec strict (Submit i cmd) s =
     (if i < length (node s) then Next (put i (fst (Start cmd (node s ! i))) s) else Disabled)"
| "exec strict (Restart i now rnd1 rnd2) s =
     (if i < length (node s) then
        Next (put i (restart (node s ! i) now rnd1 rnd2)
          (s\<lparr>voting := (voting s)[i := False], inc := (inc s)[i := inc s ! i + 1]\<rparr>))
      else Disabled)"
| "exec strict (Handle k now) s =
     (if k < length (flight s) then handle strict now (flight s ! k) (drop_packet k s) else Disabled)"
| "exec strict (Lose k) s =
     (if k < length (flight s) then Next (drop_packet k s) else Disabled)"
| "exec strict (Reset k q m) s =
     (if \<not> strict \<and> k < length (flight s) \<and> q < length (flight s) \<and> resets (flight s ! k) (flight s ! q) m s
      then Panic else Disabled)"

fun run :: "bool \<Rightarrow> 'c label list \<Rightarrow> 'c sys \<Rightarrow> 'c sys outcome" where
  "run strict [] s = Next s"
| "run strict (l # ls) s =
     (case exec strict l s of Disabled \<Rightarrow> Disabled | Panic \<Rightarrow> Panic | Next s' \<Rightarrow> run strict ls s')"

inductive reach :: "bool \<Rightarrow> nat \<Rightarrow> 'c sys \<Rightarrow> bool" for strict n where
  start: "reach strict n (sys_init n)"
| step: "reach strict n s \<Longrightarrow> exec strict l s = Next s' \<Longrightarrow> reach strict n s'"

definition strict_step :: "'c sys \<Rightarrow> 'c sys \<Rightarrow> bool" where
  "strict_step s s' \<longleftrightarrow> (\<exists>l. exec True l s = Next s')"

text \<open>
  Runs in which the network keeps the order of the appends between two peers: an append is handled
  only when no earlier one of the same sender to the same peer is still on its way. An earlier one
  may have been lost.
\<close>

fun append_from :: "nat \<Rightarrow> nat \<Rightarrow> 'c packet \<Rightarrow> bool" where
  "append_from i j (AEReq i' c j' args) = (i' = i \<and> j' = j)"
| "append_from i j _ = False"

fun in_order :: "'c label \<Rightarrow> 'c sys \<Rightarrow> bool" where
  "in_order (Handle k now) s =
     (case flight s ! k of
        AEReq i c j args \<Rightarrow> \<not> list_ex (append_from i j) (take k (flight s))
      | _ \<Rightarrow> True)"
| "in_order _ s = True"

definition ordered_step :: "'c sys \<Rightarrow> 'c sys \<Rightarrow> bool" where
  "ordered_step s s' \<longleftrightarrow> (\<exists>l. in_order l s \<and> exec True l s = Next s')"

fun ordered_run :: "'c label list \<Rightarrow> 'c sys \<Rightarrow> 'c sys outcome" where
  "ordered_run [] s = Next s"
| "ordered_run (l # ls) s =
     (if in_order l s
      then case exec True l s of Disabled \<Rightarrow> Disabled | Panic \<Rightarrow> Panic | Next s' \<Rightarrow> ordered_run ls s'
      else Disabled)"

lemma ordered_run_steps: "ordered_run ls s = Next s' \<Longrightarrow> ordered_step\<^sup>*\<^sup>* s s'"
proof (induction ls s rule: ordered_run.induct)
  case (2 l ls s)
  then obtain t where "in_order l s" "exec True l s = Next t" "ordered_run ls t = Next s'"
    by (auto split: outcome.splits if_splits)
  then have "ordered_step s t" and "ordered_step\<^sup>*\<^sup>* t s'"
    using 2(1) by (auto simp: ordered_step_def [of s])
  then show ?case by (rule converse_rtranclp_into_rtranclp)
qed simp

lemma run_reach: "run strict ls s = Next s' \<Longrightarrow> reach strict n s \<Longrightarrow> reach strict n s'"
  by (induction strict ls s rule: run.induct) (auto split: outcome.splits intro: reach.step)

lemma ordered_strict: "ordered_step\<^sup>*\<^sup>* s s' \<Longrightarrow> strict_step\<^sup>*\<^sup>* s s'"
  by (induction rule: rtranclp_induct)
    (auto simp: ordered_step_def strict_step_def intro: rtranclp.rtrancl_into_rtrancl)

lemma ordered_reach: "ordered_step\<^sup>*\<^sup>* (sys_init n) s \<Longrightarrow> reach True n s"
  by (induction rule: rtranclp_induct) (auto simp: ordered_step_def intro: reach.intros)

end
