(* ===== verification/Raft_Simulation.thy ===== *)
theory Raft_Simulation
  imports Raft_Completeness Raft_System
begin

text \<open>
  The relation between a state of the system of \<open>Raft_System\<close> and a state of the specification of
  \<open>Raft_Spec\<close>, and one lemma for each critical section of a peer: it makes only steps of the specification.
  The flag \<open>ord\<close> adds what holds when every peer handles the appends of a sender in the order of sending:
  what a leader counts as stored is accepted, and what a peer applies is committed.
\<close>

subsection \<open>Durability\<close>

definition stored :: "'c gobval Persister \<Rightarrow> int \<times> int \<times> 'c entry list" where
  "stored ps =
     (let (t, r1) = decode_int 0 (ReadRaftState ps);
          (v, r2) = decode_int 0 r1;
          (l, r3) = decode_logs [] r2
      in (t, v, l))"

definition durable :: "'c Raft \<Rightarrow> bool" where
  "durable rf \<longleftrightarrow> stored (persister rf) = (currentTerm rf, votedFor rf, logs rf)"

lemma persisted_durable: "persisted rf \<Longrightarrow> durable rf"
  by (simp add: persisted_def durable_def stored_def encode_state_def)

lemma durable_persist [simp]: "durable (persist rf)" "durable (step_down t rf)"
    "durable (become_candidate r rf)" "durable (become_leader rf)"
  by (simp_all add: persisted_durable)

lemma stored_fresh: "stored MakePersister = (0, 0, [])"
  by (simp add: stored_def ps.fresh_state)

lemma Make_simps:
  "npeers (Make n i ps now r1 r2) = n" "me (Make n i ps now r1 r2) = i"
  "persister (Make n i ps now r1 r2) = ps" "role (Make n i ps now r1 r2) = 0"
  "commitIndex (Make n i ps now r1 r2) = 0"
  "(currentTerm (Make n i ps now r1 r2), votedFor (Make n i ps now r1 r2), logs (Make n i ps now r1 r2)) = stored ps"
  by (simp_all add: Make_def readPersist_def stored_def Let_def split: prod.splits)

lemma Make_stored:
  "stored ps = (t, v, l) \<Longrightarrow>
   currentTerm (Make n i ps now r1 r2) = t \<and> votedFor (Make n i ps now r1 r2) = v \<and>
   logs (Make n i ps now r1 r2) = l"
  using Make_simps(6) [of n i ps now r1 r2] by simp

lemma restart_simps:
  assumes "durable rf"
  shows "npeers (restart rf now r1 r2) = npeers rf" "me (restart rf now r1 r2) = me rf"
    "currentTerm (restart rf now r1 r2) = currentTerm rf" "votedFor (restart rf now r1 r2) = votedFor rf"
    "logs (restart rf now r1 r2) = logs rf" "role (restart rf now r1 r2) = 0"
    "commitIndex (restart rf now r1 r2) = 0" "durable (restart rf now r1 r2)"
proof -
  let ?ps = "Copy (SaveRaftState MakePersister (ReadRaftState (Copy (persister rf))))"
  have "ReadRaftState ?ps = ReadRaftState (persister rf)"
    by (simp add: ps.copy_state ps.state_state)
  then have st: "stored ?ps = (currentTerm rf, votedFor rf, logs rf)"
    using assms by (simp add: stored_def durable_def)
  then show "npeers (restart rf now r1 r2) = npeers rf" "me (restart rf now r1 r2) = me rf"
    "currentTerm (restart rf now r1 r2) = currentTerm rf" "votedFor (restart rf now r1 r2) = votedFor rf"
    "logs (restart rf now r1 r2) = logs rf" "role (restart rf now r1 r2) = 0"
    "commitIndex (restart rf now r1 r2) = 0" "durable (restart rf now r1 r2)"
    using Make_stored [OF st] by (simp_all add: restart_def Make_simps durable_def)
qed

subsection \<open>Indexes stay in range\<close>

definition idx_ok :: "'c Raft \<Rightarrow> bool" where
  "idx_ok rf \<longleftrightarrow>
     0 \<le> commitIndex rf \<and> commitIndex rf \<le> int (length (logs rf)) \<and>
     (role rf = 2 \<longrightarrow> length (nextIndex rf) = npeers rf \<and> length (matchIndex rf) = npeers rf \<and>
        (\<forall>x \<in> set (nextIndex rf). 1 \<le> x \<and> x \<le> int (length (logs rf)) + 1))"

subsection \<open>The simulation relation\<close>

record poll =
  p_owner :: nat
  p_term :: int
  p_counted :: "nat set"

text \<open>A poll's counter is one more than the number of its counted voters, whose first vote it has.\<close>

definition poll_ok :: "nat \<Rightarrow> 'c spec \<Rightarrow> int \<Rightarrow> poll \<Rightarrow> bool" where
  "poll_ok n a cnt P \<longleftrightarrow>
     p_owner P < n \<and> 0 < p_term P \<and> p_counted P \<subseteq> {..<n} - {p_owner P} \<and>
     cnt = 1 + int (card (p_counted P)) \<and>
     (\<forall>j \<in> p_counted P. s_hvote a (p_term P) j = Some (p_owner P))"

definition vote_pkt :: "nat \<Rightarrow> nat \<Rightarrow> (nat \<Rightarrow> poll) \<Rightarrow> nat \<Rightarrow> nat \<Rightarrow> nat \<Rightarrow> RequestVoteArgs \<Rightarrow> bool" where
  "vote_pkt n m P p i j args \<longleftrightarrow>
     p < m \<and> i = p_owner (P p) \<and> i < n \<and> j < n \<and> j \<noteq> i \<and> j \<notin> p_counted (P p) \<and>
     rvTerm args = p_term (P p) \<and> 0 < rvTerm args \<and> CandidateId args = int i"

definition granted :: "'c spec \<Rightarrow> nat \<Rightarrow> nat \<Rightarrow> int \<Rightarrow> bool \<Rightarrow> bool" where
  "granted a i j T ok \<longleftrightarrow> (ok \<longrightarrow> s_hvote a T j = Some i \<or> s_leader a T = Some i)"

text \<open>
  The arguments of a vote request: if the sender is still a candidate of that term, they describe its
  log.
\<close>

definition claim :: "'c spec \<Rightarrow> nat \<Rightarrow> RequestVoteArgs \<Rightarrow> bool" where
  "claim a i args \<longleftrightarrow> rvTerm args \<le> s_term a i \<and>
     (s_role a i = 1 \<and> s_term a i = rvTerm args \<longrightarrow>
        LastLogIndex args = int (length (s_log a i)) \<and> LastLogTerm args = lastTerm (s_log a i))"

text \<open>The length of the leader's log when it built the arguments of an append.\<close>

definition total :: "'c AppendEntriesArgs \<Rightarrow> nat" where
  "total args = nat (PrevLogIndex args) + length (Entries args)"

text \<open>The arguments of an append are a piece of the leader's log.\<close>

definition append_ok :: "nat \<Rightarrow> 'c spec \<Rightarrow> nat \<Rightarrow> 'c AppendEntriesArgs \<Rightarrow> bool" where
  "append_ok n a i args \<longleftrightarrow>
     s_leader a (aeTerm args) = Some i \<and> LeaderId args = int i \<and> 0 \<le> PrevLogIndex args \<and>
     0 \<le> LeaderCommit args \<and> LeaderCommit args \<le> int (total args) \<and>
     length (s_elog a (aeTerm args)) \<le> total args \<and> total args \<le> length (s_llog a (aeTerm args)) \<and>
     take (total args) (s_llog a (aeTerm args)) =
       take (nat (PrevLogIndex args)) (s_llog a (aeTerm args)) @ Entries args \<and>
     (0 < PrevLogIndex args \<longrightarrow>
        PrevLogTerm args = eterm (s_llog a (aeTerm args) ! nat (PrevLogIndex args - 1)))"

text \<open>
  In an ordered run: the first \<open>c\<close> entries of a log are committed by term \<open>t\<close>, a message delivers a committed
  entry, and a successful reply is about something the follower has accepted.
\<close>

definition decided :: "nat \<Rightarrow> 'c spec \<Rightarrow> int \<Rightarrow> nat \<Rightarrow> 'c entry list \<Rightarrow> bool" where
  "decided n a t c l \<longleftrightarrow> c = 0 \<or>
     (\<exists>T d. T \<le> t \<and> committed_at n a T d \<and> c \<le> d \<and> c \<le> length l \<and> take c l = take c (s_llog a T))"

definition delivered :: "nat \<Rightarrow> 'c spec \<Rightarrow> 'c ApplyMsg \<Rightarrow> bool" where
  "delivered n a m \<longleftrightarrow>
     (\<exists>T d. committed_at n a T d \<and> 0 < Index m \<and> nat (Index m) \<le> d \<and>
        Command m = ecommand (s_llog a T ! (nat (Index m) - 1)))"

definition acked_ok :: "bool \<Rightarrow> nat \<Rightarrow> 'c spec \<Rightarrow> nat \<Rightarrow> nat \<Rightarrow> 'c AppendEntriesArgs \<Rightarrow> bool \<Rightarrow> bool" where
  "acked_ok ord n a i j args ok \<longleftrightarrow> i < n \<and> j < n \<and> i \<noteq> j \<and> 0 \<le> PrevLogIndex args \<and>
     (ord \<and> ok \<longrightarrow> total args \<le> s_acked a (aeTerm args) j)"

fun packet_ok :: "bool \<Rightarrow> nat \<Rightarrow> nat \<Rightarrow> 'c spec \<Rightarrow> (nat \<Rightarrow> poll) \<Rightarrow> 'c packet \<Rightarrow> bool" where
  "packet_ok ord n m a P (VoteReq p i c j args) = (vote_pkt n m P p i j args \<and> claim a i args)"
| "packet_ok ord n m a P (VoteRep p i c j args rep) =
     (vote_pkt n m P p i j args \<and> granted a i j (rvTerm args) (VoteGranted rep))"
| "packet_ok ord n m a P (VoteDown p i c j args rep) =
     (vote_pkt n m P p i j args \<and> granted a i j (rvTerm args) (VoteGranted rep))"
| "packet_ok ord n m a P (VoteCount p i c j args ok) =
     (vote_pkt n m P p i j args \<and> granted a i j (rvTerm args) ok)"
| "packet_ok ord n m a P (AESend i c j) = (i < n \<and> j < n \<and> i \<noteq> j)"
| "packet_ok ord n m a P (AEReq i c j args) = (i < n \<and> j < n \<and> i \<noteq> j \<and> append_ok n a i args \<and>
     (ord \<longrightarrow> decided n a (aeTerm args) (nat (LeaderCommit args)) (s_llog a (aeTerm args))))"
| "packet_ok ord n m a P (AERep i c j args rep) = acked_ok ord n a i j args (Success rep)"
| "packet_ok ord n m a P (AEDown i c j args rep) = acked_ok ord n a i j args (Success rep)"
| "packet_ok ord n m a P (AENext i c j args rep) = acked_ok ord n a i j args (Success rep)"
| "packet_ok ord n m a P (AEWrite i c j args rep vs) = False"
| "packet_ok ord n m a P (AECount i c j args ok) = acked_ok ord n a i j args ok"

text \<open>
  The appends of term \<open>T\<close> on their way to \<open>j\<close>, by the length of the leader's log they carry. In an
  ordered run they are sorted, and none is behind what \<open>j\<close> has accepted.
\<close>

fun tot :: "nat \<Rightarrow> int \<Rightarrow> 'c packet \<Rightarrow> nat list" where
  "tot j T (AEReq i c k args) = (if k = j \<and> aeTerm args = T then [total args] else [])"
| "tot j T _ = []"

definition tots :: "nat \<Rightarrow> int \<Rightarrow> 'c packet list \<Rightarrow> nat list" where
  "tots j T ps = concat (map (tot j T) ps)"

definition order_ok :: "'c spec \<Rightarrow> 'c packet list \<Rightarrow> bool" where
  "order_ok a ps \<longleftrightarrow> (\<forall>j T. sorted (tots j T ps) \<and> (\<forall>x \<in> set (tots j T ps). s_acked a T j \<le> x))"

text \<open>Within a poll there is at most one packet per voter.\<close>

fun vkeys :: "'c packet \<Rightarrow> (nat \<times> nat) list" where
  "vkeys (VoteReq p i c j args) = [(p, j)]"
| "vkeys (VoteRep p i c j args rep) = [(p, j)]"
| "vkeys (VoteDown p i c j args rep) = [(p, j)]"
| "vkeys (VoteCount p i c j args ok) = [(p, j)]"
| "vkeys _ = []"

definition all_keys :: "'c packet list \<Rightarrow> (nat \<times> nat) list" where
  "all_keys ps = concat (map vkeys ps)"

definition commit_ok :: "nat \<Rightarrow> 'c spec \<Rightarrow> 'c Raft \<Rightarrow> bool" where
  "commit_ok n a rf \<longleftrightarrow>
     decided n a (currentTerm rf) (nat (commitIndex rf)) (logs rf) \<and> (\<forall>m \<in> set (applyCh rf). delivered n a m) \<and>
     (role rf = 2 \<longrightarrow> (\<forall>j < n. matchIndex rf ! j \<le> int (s_acked a (currentTerm rf) j)))"

definition node_ok :: "bool \<Rightarrow> nat \<Rightarrow> 'c spec \<Rightarrow> nat \<Rightarrow> 'c Raft \<Rightarrow> bool" where
  "node_ok ord n a i rf \<longleftrightarrow>
     npeers rf = n \<and> me rf = int i \<and> durable rf \<and> idx_ok rf \<and>
     s_term a i = currentTerm rf \<and> s_vote a i = votedFor rf \<and> s_role a i = role rf \<and> s_log a i = logs rf \<and>
     (ord \<longrightarrow> commit_ok n a rf)"

definition sim :: "bool \<Rightarrow> nat \<Rightarrow> 'c sys \<Rightarrow> 'c spec \<Rightarrow> (nat \<Rightarrow> poll) \<Rightarrow> bool" where
  "sim ord n s a P \<longleftrightarrow>
     length (node s) = n \<and> length (voting s) = n \<and> length (inc s) = n \<and> spec_reach ord n a \<and>
     (\<forall>i < n. node_ok ord n a i (node s ! i)) \<and>
     (\<forall>i < n. voting s ! i \<longrightarrow> 0 < currentTerm (node s ! i)) \<and>
     (\<forall>p < length (agreed s). poll_ok n a (agreed s ! p) (P p)) \<and>
     (\<forall>pk \<in> set (flight s). packet_ok ord n (length (agreed s)) a P pk) \<and>
     distinct (all_keys (flight s)) \<and> (ord \<longrightarrow> order_ok a (flight s))"

lemma simD:
  assumes "sim ord n s a P"
  shows "length (node s) = n" "length (voting s) = n" "length (inc s) = n" "spec_reach ord n a"
    "i < n \<Longrightarrow> node_ok ord n a i (node s ! i)"
    "i < n \<Longrightarrow> voting s ! i \<Longrightarrow> 0 < currentTerm (node s ! i)"
    "p < length (agreed s) \<Longrightarrow> poll_ok n a (agreed s ! p) (P p)"
    "pk \<in> set (flight s) \<Longrightarrow> packet_ok ord n (length (agreed s)) a P pk"
    "distinct (all_keys (flight s))" "ord \<Longrightarrow> order_ok a (flight s)"
  using assms by (simp_all add: sim_def)

lemma sim_inv:
  assumes "sim ord n s a P"
  shows "election_inv n a" "log_inv n a" "hist_inv n a"
  using simD(4) [OF assms] by (simp_all add: spec_reach_election spec_reach_log spec_reach_hist)

lemma node_okD:
  assumes "node_ok ord n a i rf"
  shows "npeers rf = n" "me rf = int i" "durable rf" "idx_ok rf" "s_term a i = currentTerm rf"
    "s_vote a i = votedFor rf" "s_role a i = role rf" "s_log a i = logs rf" "ord \<Longrightarrow> commit_ok n a rf"
  using assms by (simp_all add: node_ok_def)

subsection \<open>What a specification step keeps\<close>

text \<open>How the log of a peer may change: it stays, or becomes a prefix of the log of a leader it has followed since.\<close>

definition log_kept :: "bool \<Rightarrow> 'c spec \<Rightarrow> 'c spec \<Rightarrow> nat \<Rightarrow> bool" where
  "log_kept ord a b j \<longleftrightarrow> s_log b j = s_log a j \<or>
     (\<exists>T m. s_term a j \<le> T \<and> T \<le> s_term b j \<and> s_leader b T \<noteq> None \<and> length (s_elog b T) \<le> m \<and> m \<le> length (s_llog b T) \<and>
        (ord \<longrightarrow> s_acked a T j \<le> m) \<and> s_log b j = take m (s_llog b T))"

lemma log_kept_copyI:
  assumes "s_term a j \<le> T" and "T \<le> s_term b j" and "s_leader b T \<noteq> None" and "length (s_elog b T) \<le> m"
    and "m \<le> length (s_llog b T)" and "ord \<Longrightarrow> s_acked a T j \<le> m" and "s_log b j = take m (s_llog b T)"
  shows "log_kept ord a b j"
  using assms unfolding log_kept_def by blast

lemma log_kept_cases:
  assumes "log_kept ord a b j"
  obtains (same) "s_log b j = s_log a j"
  | (copied) T m where "s_term a j \<le> T" "T \<le> s_term b j" "s_leader b T \<noteq> None" "length (s_elog b T) \<le> m" "m \<le> length (s_llog b T)"
      "ord \<Longrightarrow> s_acked a T j \<le> m" "s_log b j = take m (s_llog b T)"
  using assms unfolding log_kept_def by blast

definition extends :: "bool \<Rightarrow> 'c spec \<Rightarrow> 'c spec \<Rightarrow> bool" where
  "extends ord a b \<longleftrightarrow>
     (\<forall>T j v. s_hvote a T j = Some v \<longrightarrow> s_hvote b T j = Some v) \<and>
     (\<forall>T v. s_leader a T = Some v \<longrightarrow> s_leader b T = Some v \<and> s_elog b T = s_elog a T) \<and>
     (\<forall>T. \<exists>ys. s_llog b T = s_llog a T @ ys) \<and>
     (\<forall>i. s_term a i \<le> s_term b i) \<and>
     (\<forall>i. s_role b i = 1 \<and> s_term b i = s_term a i \<longrightarrow> s_role a i = 1 \<and> s_log b i = s_log a i) \<and>
     (ord \<longrightarrow> (\<forall>T j. s_acked a T j \<le> s_acked b T j)) \<and>
     (\<forall>j. log_kept ord a b j)"

lemma extends_refl [simp]: "extends ord a a"
  by (simp add: extends_def log_kept_def)

lemma extendsD:
  assumes "extends ord a b"
  shows "s_hvote a T j = Some v \<Longrightarrow> s_hvote b T j = Some v"
    "s_leader a T = Some v \<Longrightarrow> s_leader b T = Some v" "s_leader a T = Some v \<Longrightarrow> s_elog b T = s_elog a T"
    "\<exists>ys. s_llog b T = s_llog a T @ ys" "s_term a i \<le> s_term b i"
    "s_role b i = 1 \<Longrightarrow> s_term b i = s_term a i \<Longrightarrow> s_role a i = 1 \<and> s_log b i = s_log a i"
    "ord \<Longrightarrow> s_acked a T j \<le> s_acked b T j" "log_kept ord a b j"
  using assms by (simp_all add: extends_def)

lemma log_kept_trans:
  assumes ab: "extends ord a b" and bc: "extends ord b c"
  shows "log_kept ord a c j"
  using extendsD(8) [OF bc, of j]
proof (cases rule: log_kept_cases)
  case (copied T m)
  have "s_term a j \<le> T" using extendsD(5) [OF ab, of j] copied(1) by simp
  moreover have "s_acked a T j \<le> m" if ord using extendsD(7) [OF ab that, of T j] copied(6) [OF that] by simp
  ultimately show ?thesis using copied by (intro log_kept_copyI [of a j T c m])
next
  case same
  from extendsD(8) [OF ab, of j] show ?thesis
  proof (cases rule: log_kept_cases)
    case (copied T m)
    obtain ys where ys: "s_llog c T = s_llog b T @ ys" using extendsD(4) [OF bc] by blast
    have l: "s_leader c T \<noteq> None" "s_elog c T = s_elog b T" using copied(3) extendsD(2,3) [OF bc] by auto
    have "T \<le> s_term c j" using extendsD(5) [OF bc, of j] copied(2) by simp
    then show ?thesis using copied l ys same by (intro log_kept_copyI [of a j T c m]) simp_all
  qed (simp add: log_kept_def same)
qed

lemma extends_trans:
  assumes "extends ord a b" and "extends ord b c"
  shows "extends ord a c"
  unfolding extends_def
proof (intro conjI allI impI; (elim conjE)?)
  fix T i j v
  show "s_hvote a T j = Some v \<Longrightarrow> s_hvote c T j = Some v"
    "s_leader a T = Some v \<Longrightarrow> s_leader c T = Some v" "s_leader a T = Some v \<Longrightarrow> s_elog c T = s_elog a T"
    using extendsD(1-3) [OF assms(1)] extendsD(1-3) [OF assms(2)] by auto
  show "ord \<Longrightarrow> s_acked a T j \<le> s_acked c T j"
    using extendsD(7) [OF assms(1), of T j] extendsD(7) [OF assms(2), of T j] by simp
  obtain ys zs where "s_llog b T = s_llog a T @ ys" "s_llog c T = s_llog b T @ zs"
    using extendsD(4) [OF assms(1)] extendsD(4) [OF assms(2)] by blast
  then show "\<exists>ys. s_llog c T = s_llog a T @ ys" by simp
  show t: "s_term a i \<le> s_term c i"
    using extendsD(5) [OF assms(1)] extendsD(5) [OF assms(2)] by (rule order_trans)
  assume *: "s_role c i = 1" "s_term c i = s_term a i"
  have "s_term b i = s_term a i"
    using extendsD(5) [OF assms(1), of i] extendsD(5) [OF assms(2), of i] * by simp
  then show "s_role a i = 1" "s_log c i = s_log a i"
    using extendsD(6) [OF assms(2), of i] extendsD(6) [OF assms(1), of i] * by simp_all
qed (rule log_kept_trans [OF assms])

lemma spec_step_extends:
  assumes "spec_step ord n a b" and "spec_reach ord n a"
  shows "extends ord a b"
  using assms
proof (induction rule: spec_step.induct)
  case (lead i a Q)
  have none: "s_leader a (s_term a i) = None"
    using lead.hyps by (intro lead_fresh [OF spec_reach_election [OF lead.prems]])
  have empty: "s_llog a (s_term a i) = []" using log_invD(1) [OF spec_reach_log [OF lead.prems] none] .
  then have "s_acked a (s_term a i) j = 0" for j
    using hist_invD(6) [OF spec_reach_hist [OF lead.prems], of "s_term a i" j] by simp
  then show ?case using none empty by (auto simp: extends_def log_kept_def)
next
  case (append i a e)
  have own: "s_log a i = s_llog a (s_term a i)" using log_invD(4) [OF spec_reach_log [OF append.prems]] append.hyps by simp
  then have "s_acked a (s_term a i) i \<le> Suc (length (s_log a i))"
    using hist_invD(6) [OF spec_reach_hist [OF append.prems], of "s_term a i" i] by simp
  moreover have "log_kept ord a (grow_log i e a) k" for k
  proof (cases "k = i")
    case True
    have lead: "s_leader a (s_term a i) \<noteq> None" using election_invD(6) [OF spec_reach_election [OF append.prems]] append.hyps by auto
    have "length (s_elog a (s_term a i)) \<le> length (s_llog a (s_term a i))"
      by (rule elog_okD(3) [OF hist_invD(1) [OF spec_reach_hist [OF append.prems]] lead])
    then show ?thesis using lead True own calculation
      by (intro log_kept_copyI [where T = "s_term a i" and m = "Suc (length (s_llog a (s_term a i)))"]) simp_all
  qed (simp add: log_kept_def)
  ultimately show ?case using append.hyps by (auto simp: extends_def)
next
  case (copy_log j a T m)
  have "log_kept ord a (take_log j T m a) k" for k
    using copy_log by (cases "k = j") (auto intro!: log_kept_copyI [where T = T and m = m] simp: log_kept_def)
  then show ?case using copy_log.hyps by (auto simp: extends_def)
qed (auto simp: extends_def log_kept_def first_vote_keeps)

lemma spec_steps_extend:
  "(spec_step ord n)\<^sup>*\<^sup>* a b \<Longrightarrow> spec_reach ord n a \<Longrightarrow> extends ord a b"
proof (induction rule: rtranclp_induct)
  case (step b c)
  then show ?case
    using spec_reach_steps spec_step_extends extends_trans by metis
qed simp

lemma append_ok_extends:
  assumes "append_ok n a i args" and "extends ord a b"
  shows "append_ok n b i args"
proof -
  obtain ys where "s_llog b (aeTerm args) = s_llog a (aeTerm args) @ ys"
    using extendsD(4) [OF assms(2)] by blast
  moreover have "s_leader b (aeTerm args) = Some i" "s_elog b (aeTerm args) = s_elog a (aeTerm args)"
    using assms(1) extendsD(2,3) [OF assms(2)] by (auto simp: append_ok_def)
  ultimately show ?thesis
    using assms(1) by (auto simp: append_ok_def nth_append total_def)
qed

lemma committed_at_extends:
  assumes "committed_at n a T d" and "extends True a b"
  shows "committed_at n b T d" "k \<le> d \<Longrightarrow> take k (s_llog b T) = take k (s_llog a T)"
    "0 < k \<Longrightarrow> k \<le> d \<Longrightarrow> s_llog b T ! (k - 1) = s_llog a T ! (k - 1)"
proof -
  obtain ys where ys: "s_llog b T = s_llog a T @ ys" using extendsD(4) [OF assms(2)] by blast
  have d: "0 < d" "d \<le> length (s_llog a T)" using assms(1) by (auto simp: committed_at_def mark_def)
  show "k \<le> d \<Longrightarrow> take k (s_llog b T) = take k (s_llog a T)"
    "0 < k \<Longrightarrow> k \<le> d \<Longrightarrow> s_llog b T ! (k - 1) = s_llog a T ! (k - 1)"
    using d ys by (auto simp: nth_append)
  have "mark b T d" using assms(1) ys d by (auto simp: committed_at_def mark_def nth_append)
  then show "committed_at n b T d"
    using assms(1) extendsD(7) [OF assms(2) TrueI] unfolding committed_at_def by (meson order_trans)
qed

lemma decided_extends:
  assumes "decided n a t c l" and "extends True a b" and "t \<le> t'"
  shows "decided n b t' c (l @ ys)"
proof (cases "c = 0")
  case False
  then obtain T d where "committed_at n a T d" "T \<le> t" "c \<le> d" "c \<le> length l" "take c l = take c (s_llog a T)"
    using assms(1) by (auto simp: decided_def)
  with committed_at_extends(1,2) [OF this(1) assms(2)] assms(3) show ?thesis
    unfolding decided_def by (intro disjI2 exI [of _ T] exI [of _ d]) auto
qed (simp add: decided_def)

lemma delivered_extends:
  assumes "delivered n a m" and "extends True a b"
  shows "delivered n b m"
proof -
  obtain T d where *: "committed_at n a T d" "0 < Index m" "nat (Index m) \<le> d"
      "Command m = ecommand (s_llog a T ! (nat (Index m) - 1))"
    using assms(1) by (auto simp: delivered_def)
  then have "Command m = ecommand (s_llog b T ! (nat (Index m) - 1))"
    using committed_at_extends(3) [OF *(1) assms(2), of "nat (Index m)"] by simp
  then show ?thesis using * committed_at_extends(1) [OF *(1) assms(2)] by (auto simp: delivered_def)
qed

lemma acked_ok_extends: "acked_ok ord n a i j args ok \<Longrightarrow> extends ord a b \<Longrightarrow> acked_ok ord n b i j args ok"
  by (auto simp: acked_ok_def extends_def intro: order_trans)

lemma claim_extends: "claim a i args \<Longrightarrow> extends ord a b \<Longrightarrow> claim b i args"
  using extendsD(5,6) [of ord a b i] by (fastforce simp: claim_def)

lemma granted_extends: "granted a i j T ok \<Longrightarrow> extends ord a b \<Longrightarrow> granted b i j T ok"
  by (auto simp: granted_def extends_def)

lemma packet_ok_extends:
  assumes "packet_ok ord n m a P pk" and "extends ord a b"
  shows "packet_ok ord n m b P pk"
proof (cases pk)
  case (AEReq i c j args)
  moreover have "decided n b (aeTerm args) (nat (LeaderCommit args)) (s_llog b (aeTerm args))" if ord
    using assms that AEReq decided_extends [of n a "aeTerm args" _ _ b "aeTerm args"] extendsD(4) [OF assms(2), of "aeTerm args"] by auto
  ultimately show ?thesis using assms append_ok_extends by auto
qed (use assms in \<open>auto intro: claim_extends granted_extends acked_ok_extends\<close>)

lemma poll_ok_extends: "poll_ok n a c P \<Longrightarrow> extends ord a b \<Longrightarrow> poll_ok n b c P"
  by (simp add: poll_ok_def extends_def)

lemma commit_ok_extends:
  assumes "commit_ok n a rf" and "extends True a b"
  shows "commit_ok n b rf"
  using assms decided_extends [OF _ assms(2) order_refl, of n _ _ "logs rf" "[]"] delivered_extends [OF _ assms(2)]
    extendsD(7) [OF assms(2)] by (auto simp: commit_ok_def intro: order_trans)

subsection \<open>Changing one part of the state\<close>

lemma tots_simps [simp]:
  "tots j T [] = []" "tots j T (p # ps) = tot j T p @ tots j T ps" "tots j T (ps @ qs) = tots j T ps @ tots j T qs"
  by (simp_all add: tots_def)

lemma order_ok_cong: "order_ok a ps \<Longrightarrow> s_acked b = s_acked a \<Longrightarrow> order_ok b ps"
  by (simp add: order_ok_def)

lemma order_ok_drop: "order_ok a (xs @ p # ys) \<Longrightarrow> order_ok a (xs @ ys)"
  by (auto simp: order_ok_def sorted_append)

lemma all_keys_simps [simp]:
  "all_keys [] = []" "all_keys (p # ps) = vkeys p @ all_keys ps" "all_keys (ps @ qs) = all_keys ps @ all_keys qs"
  by (simp_all add: all_keys_def)

lemma sim_send:
  assumes "sim ord n s a P" and "\<And>pk. pk \<in> set ps \<Longrightarrow> packet_ok ord n (length (agreed s)) a P pk"
    and "distinct (all_keys ps)" and "set (all_keys (flight s)) \<inter> set (all_keys ps) = {}"
    and "ord \<Longrightarrow> order_ok a (flight s @ ps)"
  shows "sim ord n (send ps s) a P"
  using assms unfolding sim_def send_def by auto

text \<open>
  A critical section that turns peer \<open>i\<close> into \<open>rf\<close> while the specification moves from \<open>a\<close> to \<open>b\<close>,
  leaving every other peer alone.
\<close>

lemma sim_put:
  assumes sim: "sim ord n s a P" and i: "i < n" and steps: "(spec_step ord n)\<^sup>*\<^sup>* a b"
    and ok: "node_ok ord n b i rf" and mono: "currentTerm (node s ! i) \<le> currentTerm rf"
    and other: "\<And>k. k \<noteq> i \<Longrightarrow> s_term b k = s_term a k \<and> s_vote b k = s_vote a k \<and>
       s_role b k = s_role a k \<and> s_log b k = s_log a k"
    and ordered: "ord \<Longrightarrow> order_ok b (flight s)"
  shows "sim ord n (put i rf s) b P"
proof -
  note D = simD [OF sim]
  have ext: "extends ord a b" using steps D(4) by (rule spec_steps_extend)
  have nodes: "node_ok ord n b k (node (put i rf s) ! k)" if "k < n" for k
  proof (cases "k = i")
    case True
    then show ?thesis using ok i D(1) by (simp add: put_def)
  next
    case False
    have "commit_ok n b (node s ! k)" if ord
      using that commit_ok_extends [of n a _ b] ext node_okD(9) [OF D(5) [OF \<open>k < n\<close>]] by simp
    then show ?thesis
      using False other [OF False] D(5) [OF that] by (simp add: put_def node_ok_def)
  qed
  have votes: "0 < currentTerm (node (put i rf s) ! k)" if "k < n" "voting s ! k" for k
    using that D(1) D(6) [of k] mono i by (cases "k = i") (auto simp: put_def)
  show ?thesis
    using nodes votes D spec_reach_steps [OF steps D(4)] poll_ok_extends [OF _ ext] packet_ok_extends [OF _ ext] ordered
    by (auto simp: sim_def put_def)
qed

lemma drop_packet_split:
  assumes "k < length (flight s)"
  obtains xs ys where "flight s = xs @ flight s ! k # ys" "flight (drop_packet k s) = xs @ ys"
  using id_take_nth_drop [OF assms] that [of "take k (flight s)" "drop (Suc k) (flight s)"]
  by (simp add: drop_packet_def)

lemma drop_packet_simps [simp]:
  "node (drop_packet k s) = node s" "voting (drop_packet k s) = voting s" "inc (drop_packet k s) = inc s"
  "agreed (drop_packet k s) = agreed s"
  by (simp_all add: drop_packet_def)

lemma sim_drop:
  assumes sim: "sim ord n s a P" and k: "k < length (flight s)"
  shows "sim ord n (drop_packet k s) a P"
    and "packet_ok ord n (length (agreed s)) a P (flight s ! k)"
    and "set (vkeys (flight s ! k)) \<inter> set (all_keys (flight (drop_packet k s))) = {}"
proof -
  obtain xs ys where f: "flight s = xs @ flight s ! k # ys" "flight (drop_packet k s) = xs @ ys"
    using drop_packet_split [OF k] .
  have sub: "set (flight (drop_packet k s)) \<subseteq> set (flight s)"
    using f by (metis set_append set_subset_Cons sup.mono subset_refl)
  have dist: "distinct (all_keys (xs @ flight s ! k # ys))"
    using simD(9) [OF sim] f(1) by metis
  have "order_ok a (xs @ ys)" if ord
    using simD(10) [OF sim that] f(1) order_ok_drop by metis
  then show "sim ord n (drop_packet k s) a P"
    using simD [OF sim] sub dist f(2) by (auto simp: sim_def)
  show "packet_ok ord n (length (agreed s)) a P (flight s ! k)"
    using simD(8) [OF sim] k by simp
  show "set (vkeys (flight s ! k)) \<inter> set (all_keys (flight (drop_packet k s))) = {}"
    using dist f(2) by auto
qed

text \<open>
  An append handled in order is not behind what its target has accepted, and the appends of the same
  term that remain are not behind it.
\<close>

definition next_append :: "'c spec \<Rightarrow> 'c sys \<Rightarrow> 'c packet \<Rightarrow> bool" where
  "next_append a s pk \<longleftrightarrow> (\<forall>i c j args. pk = AEReq i c j args \<longrightarrow>
     s_acked a (aeTerm args) j \<le> total args \<and> (\<forall>x \<in> set (tots j (aeTerm args) (flight s)). total args \<le> x))"

lemma tots_mem: "x \<in> set (tots j T ps) \<Longrightarrow> \<exists>i c args. AEReq i c j args \<in> set ps \<and> aeTerm args = T"
proof (induction ps)
  case (Cons pk ps)
  then show ?case by (cases pk) (auto split: if_splits)
qed simp

lemma in_order_next:
  assumes sim: "sim True n s a P" and k: "k < length (flight s)" and ord: "in_order (Handle k now) s"
  shows "next_append a (drop_packet k s) (flight s ! k)"
  unfolding next_append_def
proof (intro allI impI)
  fix i c j args assume pk: "flight s ! k = AEReq i c j args"
  let ?T = "aeTerm args"
  have f: "flight s = take k (flight s) @ AEReq i c j args # drop (Suc k) (flight s)"
    using id_take_nth_drop [OF k] pk by simp
  have lead: "s_leader a ?T = Some i"
    using simD(8) [OF sim, of "AEReq i c j args"] nth_mem [OF k] pk by (simp add: append_ok_def)
  have "tots j ?T (take k (flight s)) = []"
  proof (rule ccontr)
    assume "tots j ?T (take k (flight s)) \<noteq> []"
    then obtain x where "x \<in> set (tots j ?T (take k (flight s)))" by fastforce
    then obtain i' c' args' where *: "AEReq i' c' j args' \<in> set (take k (flight s))" "aeTerm args' = ?T"
      using tots_mem by blast
    then have "s_leader a ?T = Some i'"
      using simD(8) [OF sim, of "AEReq i' c' j args'"] by (auto simp: append_ok_def dest: in_set_takeD)
    then have "append_from i j (AEReq i' c' j args')" using lead by simp
    then have "list_ex (append_from i j) (take k (flight s))" using *(1) by (force simp: list_ex_iff)
    then show False using ord pk by simp
  qed
  moreover have "order_ok a (take k (flight s) @ AEReq i c j args # drop (Suc k) (flight s))"
    using simD(10) [OF sim TrueI] f by simp
  ultimately show "s_acked a ?T j \<le> total args \<and> (\<forall>x \<in> set (tots j ?T (flight (drop_packet k s))). total args \<le> x)"
    by (auto simp: order_ok_def drop_packet_def dest!: spec [of _ j] spec [of _ ?T])
qed

subsection \<open>Critical sections on votes\<close>

lemma idx_ok_cong:
  "idx_ok rf \<Longrightarrow> npeers rf' = npeers rf \<Longrightarrow> logs rf' = logs rf \<Longrightarrow> commitIndex rf' = commitIndex rf \<Longrightarrow>
   nextIndex rf' = nextIndex rf \<Longrightarrow> matchIndex rf' = matchIndex rf \<Longrightarrow>
   (role rf' = 2 \<Longrightarrow> role rf = 2) \<Longrightarrow> idx_ok rf'"
  by (auto simp: idx_ok_def)

lemma spec_one: "spec_step ord n a b \<Longrightarrow> (spec_step ord n)\<^sup>*\<^sup>* a b"
  by (rule r_into_rtranclp)

lemma commit_ok_cong:
  "commit_ok n a rf \<Longrightarrow> logs rf' = logs rf \<Longrightarrow> commitIndex rf' = commitIndex rf \<Longrightarrow> applyCh rf' = applyCh rf \<Longrightarrow>
   currentTerm rf \<le> currentTerm rf' \<Longrightarrow> (role rf' = 2 \<Longrightarrow> role rf = 2 \<and> matchIndex rf' = matchIndex rf \<and> currentTerm rf' = currentTerm rf) \<Longrightarrow> commit_ok n a rf'"
  by (auto simp: commit_ok_def decided_def intro: order_trans)

text \<open>
  A step that leaves the log, the commit index, the channel and the index tables of a peer alone,
  gives it the term, vote and role of the specification, and accepts nothing.
\<close>

lemma sim_quiet:
  assumes sim: "sim ord n s a P" and i: "i < n" and st: "(spec_step ord n)\<^sup>*\<^sup>* a b"
    and rf: "npeers rf = npeers (node s ! i)" "me rf = me (node s ! i)" "durable rf" "logs rf = logs (node s ! i)"
      "commitIndex rf = commitIndex (node s ! i)" "applyCh rf = applyCh (node s ! i)"
      "nextIndex rf = nextIndex (node s ! i)" "matchIndex rf = matchIndex (node s ! i)"
      "role rf = 2 \<Longrightarrow> role (node s ! i) = 2 \<and> currentTerm rf = currentTerm (node s ! i)"
    and b: "s_term b = (s_term a)(i := currentTerm rf)" "s_vote b = (s_vote a)(i := votedFor rf)"
      "s_role b = (s_role a)(i := role rf)" "s_log b = s_log a" "s_acked b = s_acked a"
    and mono: "currentTerm (node s ! i) \<le> currentTerm rf"
  shows "sim ord n (put i rf s) b P" and "extends ord a b"
proof -
  note N = node_okD [OF simD(5) [OF sim i]]
  show ext: "extends ord a b" by (rule spec_steps_extend [OF st simD(4) [OF sim]])
  have "idx_ok rf" using rf(9) by (intro idx_ok_cong [OF N(4) rf(1,4,5,7,8)]) simp
  moreover have "commit_ok n b rf" if ord
  proof -
    have "commit_ok n b (node s ! i)" using commit_ok_extends [OF N(9) [OF that]] ext that by simp
    then show ?thesis using rf(8,9) mono by (intro commit_ok_cong [OF _ rf(4-6)]) simp_all
  qed
  ultimately have "node_ok ord n b i rf" using N rf b by (simp add: node_ok_def)
  moreover have "order_ok b (flight s)" if ord using order_ok_cong [OF simD(10) [OF sim that] b(5)] .
  ultimately show "sim ord n (put i rf s) b P"
    using b mono by (intro sim_put [OF sim i st]) simp_all
qed

lemma sim_step_down:
  assumes sim: "sim ord n s a P" and i: "i < n" and T: "currentTerm (node s ! i) < T"
  shows "\<exists>b. sim ord n (put i (step_down T (node s ! i)) s) b P \<and> extends ord a b"
proof -
  note N = node_okD [OF simD(5) [OF sim i]]
  have st: "(spec_step ord n)\<^sup>*\<^sup>* a (enter i T (-1) 0 a)"
    using i T N by (intro spec_one spec_step.adopt) simp_all
  have "sim ord n (put i (step_down T (node s ! i)) s) (enter i T (-1) 0 a) P"
    using T by (intro sim_quiet(1) [OF sim i st]) simp_all
  then show ?thesis using spec_steps_extend [OF st simD(4) [OF sim]] by blast
qed

lemma sim_RequestVote:
  assumes sim: "sim ord n s a P" and j: "j < n" and i: "i < n" "j \<noteq> i"
    and args: "CandidateId args = int i" "0 < rvTerm args" "claim a i args"
    and rv: "RequestVote now args (node s ! j) = (rf, rep)"
  shows "\<exists>b. sim ord n (put j rf s) b P \<and> extends ord a b \<and> granted b i j (rvTerm args) (VoteGranted rep)"
proof -
  let ?rf = "node s ! j"
  note N = node_okD [OF simD(5) [OF sim j]] and F = RequestVote_frame [OF rv]
  have dur: "durable rf" using F(8) by (rule persisted_durable)
  note Q = sim_quiet [OF sim j _ F(1,2) dur F(3,4,7,5,6)]
  show ?thesis
    using rv
  proof (cases rule: RequestVote_cases)
    case stale
    have "sim ord n (put j rf s) a P"
      using stale N by (intro Q(1)) (auto simp: fun_upd_idem_iff)
    then show ?thesis using stale by (auto simp: granted_def intro: exI [of _ a])
  next
    case same
    have "sim ord n (put j rf s) a P"
      using same N by (intro Q(1)) (auto simp: fun_upd_idem_iff)
    then show ?thesis using same by (auto simp: granted_def intro: exI [of _ a])
  next
    case newer
    have st: "(spec_step ord n)\<^sup>*\<^sup>* a (enter j (rvTerm args) (-1) 0 a)"
      using j newer N by (intro spec_one spec_step.adopt) simp_all
    have "sim ord n (put j rf s) (enter j (rvTerm args) (-1) 0 a) P" "extends ord a (enter j (rvTerm args) (-1) 0 a)"
      using newer by (intro Q [OF st]; simp)+
    then show ?thesis using newer by (auto simp: granted_def)
  next
    case grant
    let ?b = "enter j (rvTerm args) (int i) 0 (cast_vote (rvTerm args) j i a)"
    have st: "(spec_step ord n)\<^sup>*\<^sup>* a ?b"
      using i j grant N args by (intro spec_one spec_step.grant) (auto simp: claim_def uptodate_def)
    have sim': "sim ord n (put j rf s) ?b P" "extends ord a ?b"
      using grant args by (intro Q [OF st]; simp)+
    have "granted ?b i j (rvTerm args) True"
      using election_invD(4) [OF sim_inv(1) [OF sim'(1)] j, of i] args(2) by (simp add: granted_def)
    then show ?thesis using sim' by (auto simp: granted_def)
  qed
qed

text \<open>
  Counting a vote. The counted voters are new to the poll, so the counter is right; when it
  reaches a majority, the poll's owner and its counted voters form a quorum of first votes.
\<close>

lemma poll_count:
  assumes "poll_ok n a cnt P" and "j < n" and "j \<noteq> p_owner P" and "j \<notin> p_counted P"
    and "s_hvote a (p_term P) j = Some (p_owner P)"
  shows "poll_ok n a (cnt + 1) (P\<lparr>p_counted := insert j (p_counted P)\<rparr>)"
proof -
  have "finite (p_counted P)"
    using assms(1) by (auto simp: poll_ok_def intro: finite_subset)
  then show ?thesis using assms by (auto simp: poll_ok_def)
qed

lemma poll_quorum:
  assumes "poll_ok n a cnt P" and "int n < cnt * 2" and "s_hvote a (p_term P) (p_owner P) = Some (p_owner P)"
  shows "\<exists>Q. majority n Q \<and> (\<forall>q \<in> Q. s_hvote a (p_term P) q = Some (p_owner P))"
proof -
  have fin: "finite (p_counted P)"
    using assms(1) by (auto simp: poll_ok_def intro: finite_subset)
  let ?Q = "insert (p_owner P) (p_counted P)"
  have "p_owner P \<notin> p_counted P" using assms(1) by (auto simp: poll_ok_def)
  then have "int (card ?Q) = cnt" using fin assms(1) by (simp add: poll_ok_def)
  then have "majority n ?Q" using assms(1,2) by (auto simp: majority_def poll_ok_def)
  then show ?thesis using assms(1,3) by (intro exI [of _ ?Q]) (auto simp: poll_ok_def)
qed

lemma packet_ok_counted:
  assumes "packet_ok ord n m a P pk" and "(p, j) \<notin> set (vkeys pk)"
  shows "packet_ok ord n m a (P(p := (P p)\<lparr>p_counted := insert j (p_counted (P p))\<rparr>)) pk"
  using assms by (cases pk) (auto simp: vote_pkt_def)

lemma all_keys_mem: "pk \<in> set ps \<Longrightarrow> k \<in> set (vkeys pk) \<Longrightarrow> k \<in> set (all_keys ps)"
  by (auto simp: all_keys_def)

lemma sim_counted:
  assumes sim: "sim ord n s a P" and pk: "vote_pkt n (length (agreed s)) P p i j args"
    and new: "(p, j) \<notin> set (all_keys (flight s))" and hv: "s_hvote a (rvTerm args) j = Some i"
  shows "sim ord n (s\<lparr>agreed := (agreed s)[p := agreed s ! p + 1]\<rparr>) a
           (P(p := (P p)\<lparr>p_counted := insert j (p_counted (P p))\<rparr>))"
proof -
  note D = simD [OF sim]
  have p: "p < length (agreed s)" using pk by (simp add: vote_pkt_def)
  have "poll_ok n a (agreed s ! p + 1) ((P p)\<lparr>p_counted := insert j (p_counted (P p))\<rparr>)"
    using poll_count [OF D(7) [OF p], of j] pk hv by (simp add: vote_pkt_def)
  moreover have "packet_ok ord n (length (agreed s)) a (P(p := (P p)\<lparr>p_counted := insert j (p_counted (P p))\<rparr>)) q"
    if "q \<in> set (flight s)" for q
    using packet_ok_counted [OF D(8) [OF that]] new all_keys_mem [OF that] by blast
  ultimately show ?thesis
    using D p by (auto simp: sim_def nth_list_update)
qed

lemma order_ok_win:
  assumes sim: "sim ord n s a P" and ord and none: "s_leader a (s_term a i) = None"
  shows "order_ok (win i V a) (flight s)"
proof -
  have "tots k (s_term a i) (flight s) = []" for k
  proof (rule ccontr)
    assume "tots k (s_term a i) (flight s) \<noteq> []"
    then obtain x where "x \<in> set (tots k (s_term a i) (flight s))" by fastforce
    then obtain i' c' args where "AEReq i' c' k args \<in> set (flight s)" "aeTerm args = s_term a i"
      using tots_mem by blast
    then show False using simD(8) [OF sim, of "AEReq i' c' k args"] none by (auto simp: append_ok_def)
  qed
  then show ?thesis using simD(10) [OF sim \<open>ord\<close>] by (auto simp: order_ok_def)
qed

lemma sim_become_leader:
  assumes sim: "sim ord n s a P" and i: "i < n" "role (node s ! i) = 1"
    and p: "poll_ok n a cnt Q" "p_owner Q = i" "p_term Q = currentTerm (node s ! i)" "int n < cnt * 2"
  shows "\<exists>b. sim ord n (put i (become_leader (node s ! i)) s) b P \<and> extends ord a b"
proof -
  let ?rf = "node s ! i"
  note N = node_okD [OF simD(5) [OF sim i(1)]]
  have "s_hvote a (currentTerm ?rf) i = Some i"
    using election_invD(5) [OF sim_inv(1) [OF sim] i(1)] N i by simp
  then obtain V where V: "majority n V" "\<forall>q \<in> V. s_hvote a (currentTerm ?rf) q = Some i"
    using poll_quorum [OF p(1,4)] p by auto
  have st: "(spec_step ord n)\<^sup>*\<^sup>* a (win i V a)"
    using i N V by (intro spec_one spec_step.lead) simp_all
  have none: "s_leader a (s_term a i) = None"
    using lead_fresh [OF sim_inv(1) [OF sim] i(1) _ V(1)] V N i by simp
  have ext: "extends ord a (win i V a)" by (rule spec_steps_extend [OF st simD(4) [OF sim]])
  have "idx_ok (become_leader ?rf)" using N(4) by (auto simp: idx_ok_def)
  moreover have "commit_ok n (win i V a) (become_leader ?rf)" if ord
    using commit_ok_extends [OF N(9) [OF that]] ext that N(1) by (simp add: commit_ok_def)
  ultimately have "node_ok ord n (win i V a) i (become_leader ?rf)" using N by (simp add: node_ok_def)
  then have "sim ord n (put i (become_leader ?rf) s) (win i V a) P"
    using order_ok_win [OF sim _ none] by (intro sim_put [OF sim i(1) st]) simp_all
  then show ?thesis using ext by blast
qed

subsection \<open>Critical sections on logs\<close>

lemma build_append_eq:
  assumes "j < length (nextIndex rf)" and "1 \<le> nextIndex rf ! j" and "nextIndex rf ! j \<le> int (length (logs rf)) + 1"
  defines "idx \<equiv> nextIndex rf ! j"
  shows "build_append (int j) rf =
    Some (rf\<lparr>nextIndex := (nextIndex rf)[j := int (length (logs rf)) + 1]\<rparr>,
      \<lparr>aeTerm = currentTerm rf, LeaderId = me rf, PrevLogIndex = idx - 1,
       PrevLogTerm = (if 1 < idx then eterm (logs rf ! nat (idx - 2)) else 0),
       Entries = drop (nat (idx - 1)) (logs rf), LeaderCommit = commitIndex rf\<rparr>)"
proof (cases "idx \<le> int (length (logs rf))")
  case True
  with assms show ?thesis
    by (simp add: build_append_def go_upd_def go_drop_def go_nth_def Let_def)
next
  case False
  then have eq: "nextIndex rf ! j = int (length (logs rf)) + 1" using assms by simp
  show ?thesis
    using assms(1) by (simp add: eq idx_def build_append_def go_upd_def go_nth_def Let_def)
qed

text \<open>The arguments a leader builds describe its whole log, and its commit index is decided.\<close>

lemma sim_build_append:
  assumes sim: "sim ord n s a P" and ij: "i < n" "j < n" and lead: "role (node s ! i) = 2"
  shows "\<exists>rf args. build_append (int j) (node s ! i) = Some (rf, args) \<and> sim ord n (put i rf s) a P \<and>
           append_ok n a i args \<and> total args = length (s_llog a (aeTerm args)) \<and>
           (ord \<longrightarrow> decided n a (aeTerm args) (nat (LeaderCommit args)) (s_llog a (aeTerm args)))"
proof -
  let ?rf = "node s ! i" and ?idx = "nextIndex (node s ! i) ! j"
  note N = node_okD [OF simD(5) [OF sim ij(1)]]
  have len: "j < length (nextIndex ?rf)" using N lead ij by (simp add: idx_ok_def)
  then have idx: "1 \<le> ?idx" "?idx \<le> int (length (logs ?rf)) + 1"
    using N(4) lead nth_mem by (auto simp: idx_ok_def)
  have own: "logs ?rf = s_llog a (currentTerm ?rf)"
    using log_invD(4) [OF sim_inv(2) [OF sim] ij(1)] N lead by simp
  have leader: "s_leader a (currentTerm ?rf) = Some i"
    using election_invD(6) [OF sim_inv(1) [OF sim] ij(1)] N lead by simp
  have elog: "length (s_elog a (currentTerm ?rf)) \<le> length (logs ?rf)"
    using elog_okD(3) [OF hist_invD(1) [OF sim_inv(3) [OF sim]]] leader own by simp
  note B = build_append_eq [OF len idx]
  let ?rf' = "?rf\<lparr>nextIndex := (nextIndex ?rf)[j := int (length (logs ?rf)) + 1]\<rparr>"
  let ?args = "\<lparr>aeTerm = currentTerm ?rf, LeaderId = me ?rf, PrevLogIndex = ?idx - 1,
       PrevLogTerm = (if 1 < ?idx then eterm (logs ?rf ! nat (?idx - 2)) else 0),
       Entries = drop (nat (?idx - 1)) (logs ?rf), LeaderCommit = commitIndex ?rf\<rparr>"
  have "durable ?rf'" using N(3) by (simp add: durable_def)
  moreover have "idx_ok ?rf'"
    using N(4) set_update_subset_insert [of "nextIndex ?rf" j "int (length (logs ?rf)) + 1"]
    by (auto simp: idx_ok_def)
  moreover have com: "commit_ok n a ?rf" if ord using N(9) that .
  ultimately have "node_ok ord n a i ?rf'" using N by (auto simp: node_ok_def commit_ok_def)
  then have "sim ord n (put i ?rf' s) a P"
    using simD(10) [OF sim] by (intro sim_put [OF sim ij(1)]) simp_all
  moreover have tot: "total ?args = length (s_llog a (currentTerm ?rf))"
    using idx own by (simp add: total_def)
  moreover have "append_ok n a i ?args"
    using leader own N idx tot elog by (auto simp: append_ok_def idx_ok_def)
  moreover have "decided n a (currentTerm ?rf) (nat (commitIndex ?rf)) (s_llog a (currentTerm ?rf))" if ord
    using com [OF that] own by (simp add: commit_ok_def)
  ultimately show ?thesis using B by (intro exI [of _ ?rf'] exI [of _ ?args]) simp
qed

text \<open>What a follower holds after it accepted entries is a prefix of the leader's log.\<close>

lemma accepted_log:
  assumes app: "append_ok n a i args" and inv: "log_inv n a" and tr: "traceable (s_llog a) l"
    and prev: "prev_matches args l"
  shows "take (nat (PrevLogIndex args)) l @ Entries args = take (total args) (s_llog a (aeTerm args))"
proof -
  let ?L = "s_llog a (aeTerm args)" and ?k = "nat (PrevLogIndex args - 1)"
  have "take (nat (PrevLogIndex args)) l = take (nat (PrevLogIndex args)) ?L"
  proof (cases "PrevLogIndex args = 0")
    case False
    then have pos: "0 < PrevLogIndex args" using app by (simp add: append_ok_def)
    then have k: "Suc ?k = nat (PrevLogIndex args)" by simp
    have "?k < length l" "eterm (l ! ?k) = PrevLogTerm args"
      using prev pos by (auto simp: prev_matches_def)
    moreover have "?k < length ?L" "eterm (?L ! ?k) = PrevLogTerm args"
      using app pos k by (auto simp: append_ok_def total_def)
    ultimately have "take (Suc ?k) l = take (Suc ?k) ?L"
      by (intro traceable_matching [OF tr log_invD(2) [OF inv]]) simp_all
    then show ?thesis using k by simp
  qed simp
  then show ?thesis using app by (simp add: append_ok_def)
qed

text \<open>A peer joins the leader of a term, and accepts its log up to \<open>m\<close>.\<close>

lemma sim_join:
  assumes sim: "sim ord n s a P" and j: "j < n" and le: "currentTerm (node s ! j) \<le> T"
    and lead: "s_leader a T = Some i"
    and rf: "npeers rf = npeers (node s ! j)" "me rf = me (node s ! j)" "durable rf" "logs rf = logs (node s ! j)"
      "commitIndex rf = commitIndex (node s ! j)" "applyCh rf = applyCh (node s ! j)"
      "nextIndex rf = nextIndex (node s ! j)" "matchIndex rf = matchIndex (node s ! j)"
      "currentTerm rf = T" "votedFor rf = int i" "role rf = 0"
  shows "\<exists>b. sim ord n (put j rf s) b P \<and> extends ord a b"
proof -
  note N = node_okD [OF simD(5) [OF sim j]]
  have st: "(spec_step ord n)\<^sup>*\<^sup>* a (enter j T (int i) 0 a)"
    using j le lead N by (intro spec_one spec_step.follow) simp_all
  have "sim ord n (put j rf s) (enter j T (int i) 0 a) P"
    by (rule sim_quiet(1) [OF sim j st rf(1-8)]) (use le rf in simp_all)
  then show ?thesis using spec_steps_extend [OF st simD(4) [OF sim]] by blast
qed

lemma order_ok_take:
  assumes "order_ok a ps" and "\<forall>x \<in> set (tots j T ps). m \<le> x"
  shows "order_ok (take_log j T m (enter j T v r a)) ps"
  using assms by (auto simp: order_ok_def)

lemma sim_accept:
  assumes sim: "sim ord n s a P" and j: "j < n" and le: "currentTerm (node s ! j) \<le> T"
    and lead: "s_leader a T = Some i" and m: "length (s_elog a T) \<le> m" "m \<le> length (s_llog a T)"
    and ordered: "ord \<Longrightarrow> s_acked a T j \<le> m \<and> (\<forall>x \<in> set (tots j T (flight s)). m \<le> x)"
    and rf: "npeers rf = n" "me rf = int j" "durable rf" "idx_ok rf" "currentTerm rf = T" "votedFor rf = int i"
      "role rf = 0" "logs rf = take m (s_llog a T)"
    and com: "ord \<Longrightarrow> decided n a T (nat (commitIndex rf)) (logs rf) \<and> (\<forall>x \<in> set (applyCh rf). delivered n a x)"
  shows "\<exists>b. sim ord n (put j rf s) b P \<and> extends ord a b \<and> s_acked b T j = m"
proof -
  note N = node_okD [OF simD(5) [OF sim j]]
  let ?b = "enter j T (int i) 0 a" let ?c = "take_log j T m ?b"
  have st: "(spec_step ord n)\<^sup>*\<^sup>* a ?b"
    using j le lead N by (intro spec_one spec_step.follow) simp_all
  have "spec_step ord n ?b ?c"
    using j lead m ordered by (intro spec_step.copy_log) simp_all
  with st have st': "(spec_step ord n)\<^sup>*\<^sup>* a ?c" by (rule rtranclp.rtrancl_into_rtrancl)
  have ext: "extends ord a ?c" by (rule spec_steps_extend [OF st' simD(4) [OF sim]])
  have "commit_ok n ?c rf" if ord
    using com [OF that] ext that rf decided_extends [of n a T _ "logs rf" ?c T "[]"] delivered_extends [of n a _ ?c]
    by (simp add: commit_ok_def)
  then have "node_ok ord n ?c j rf" using rf by (simp add: node_ok_def)
  moreover have "order_ok ?c (flight s)" if ord
    using order_ok_take [OF simD(10) [OF sim that]] ordered that by simp
  ultimately have "sim ord n (put j rf s) ?c P" using le rf by (intro sim_put [OF sim j st']) simp_all
  then show ?thesis using ext by (intro exI [of _ ?c]) simp
qed

lemma delivered_range:
  assumes "decided n a t (nat hi) l" and "0 \<le> lo" and "x \<in> set (map (apply_msg l) [lo + 1..hi])"
  shows "delivered n a x"
proof -
  obtain k where k: "x = apply_msg l k" "lo + 1 \<le> k" "k \<le> hi" using assms(3) by auto
  with assms(1,2) obtain T d where d: "committed_at n a T d" "nat hi \<le> d" "nat hi \<le> length l"
      "take (nat hi) l = take (nat hi) (s_llog a T)"
    by (auto simp: decided_def)
  have "nat k - 1 < nat hi" using k assms(2) by linarith
  then have "l ! (nat k - 1) = s_llog a T ! (nat k - 1)" using d(4) by (metis nth_take)
  moreover have "nat (k - 1) = nat k - 1" by simp
  ultimately show ?thesis
    using k d assms(2) unfolding delivered_def
    by (intro exI [of _ T] exI [of _ d]) (auto simp: apply_msg_def)
qed

lemma decided_take:
  assumes "decided n a t c l" and "c \<le> m"
  shows "decided n a t c (take m l)"
  using assms by (auto simp: decided_def min_def)

lemma sim_AppendEntries:
  assumes sim: "sim ord n s a P" and ij: "i < n" "j < n" "i \<noteq> j" and app: "append_ok n a i args"
    and ordered: "ord \<Longrightarrow> s_acked a (aeTerm args) j \<le> total args \<and>
        (\<forall>x \<in> set (tots j (aeTerm args) (flight s)). total args \<le> x)"
    and com: "ord \<Longrightarrow> decided n a (aeTerm args) (nat (LeaderCommit args)) (s_llog a (aeTerm args))"
  shows "\<exists>rf rep b. AppendEntries now args (node s ! j) = Some (rf, rep) \<and> sim ord n (put j rf s) b P \<and>
           extends ord a b \<and> acked_ok ord n b i j args (Success rep)"
proof -
  let ?rf = "node s ! j"
  note j = ij(2) and N = node_okD [OF simD(5) [OF sim ij(2)]]
  have A: "s_leader a (aeTerm args) = Some i" "LeaderId args = int i" "0 \<le> PrevLogIndex args" "0 \<le> LeaderCommit args"
      "LeaderCommit args \<le> int (total args)" "length (s_elog a (aeTerm args)) \<le> total args"
      "total args \<le> length (s_llog a (aeTerm args))"
    using app by (simp_all add: append_ok_def)
  have ok: "acked_ok ord n b i j args False" for b using ij A(3) by (simp add: acked_ok_def)
  consider (stale) "aeTerm args < currentTerm ?rf"
    | (refuse) "currentTerm ?rf \<le> aeTerm args" "\<not> prev_matches args (logs ?rf)"
    | (accept) "currentTerm ?rf \<le> aeTerm args" "prev_matches args (logs ?rf)"
    by linarith
  then show ?thesis
  proof cases
    case stale
    have "sim ord n (put j (persist ?rf) s) a P"
      by (rule sim_quiet(1) [OF sim j]) (use N in \<open>simp_all add: fun_eq_iff\<close>)
    then show ?thesis using AppendEntries_stale [OF stale, of now] ok by fastforce
  next
    case refuse
    note R = AppendEntries_refuse [OF refuse, of now]
    let ?rf' = "persist (?rf\<lparr>currentTerm := aeTerm args, role := 0, votedFor := LeaderId args, lastHeart := now\<rparr>)"
    have "\<exists>b. sim ord n (put j ?rf' s) b P \<and> extends ord a b"
      by (rule sim_join [OF sim j refuse(1) A(1)]) (use A in simp_all)
    then show ?thesis using R ok by fastforce
  next
    case accept
    have comm: "0 \<le> commitIndex ?rf" using N(4) by (simp add: idx_ok_def)
    have lc: "LeaderCommit args \<le> PrevLogIndex args + int (length (Entries args))"
      using A(3,5) by (simp add: total_def)
    note R = AppendEntries_accept [OF accept A(3) comm lc, of now]
    let ?l = "take (nat (PrevLogIndex args)) (logs ?rf) @ Entries args"
    let ?rf' = "persist (?rf\<lparr>currentTerm := aeTerm args, role := 0, votedFor := LeaderId args, logs := ?l,
              applyCh := applyCh ?rf @ map (apply_msg ?l) [commitIndex ?rf + 1..LeaderCommit args],
              commitIndex := LeaderCommit args, lastHeart := now\<rparr>)"
    have tr: "traceable (s_llog a) (logs ?rf)"
      using log_invD(3) [OF sim_inv(2) [OF sim] j] N by simp
    have l: "?l = take (total args) (s_llog a (aeTerm args))"
      by (rule accepted_log [OF app sim_inv(2) [OF sim] tr accept(2)])
    have dec: "decided n a (aeTerm args) (nat (LeaderCommit args)) ?l" if ord
      unfolding l using com [OF that] A(5) by (intro decided_take) simp_all
    have del: "delivered n a x" if ord "x \<in> set (applyCh ?rf')" for x
      using that N(9) delivered_range [OF dec [OF that(1)] comm] by (auto simp: commit_ok_def)
    have "PrevLogIndex args \<le> int (length (logs ?rf))"
      using accept(2) A(3) by (auto simp: prev_matches_def)
    then have "idx_ok ?rf'" using A lc by (auto simp: idx_ok_def)
    then have "\<exists>b. sim ord n (put j ?rf' s) b P \<and> extends ord a b \<and> s_acked b (aeTerm args) j = total args"
      using dec del N A(2) l by (intro sim_accept [OF sim j accept(1) A(1,6,7) ordered]) auto
    then show ?thesis using R ij A(3) by (fastforce simp: acked_ok_def)
  qed
qed

lemma sim_same_view:
  assumes sim: "sim ord n s a P" and i: "i < n" and "idx_ok rf"
    and "npeers rf = npeers (node s ! i)" "me rf = me (node s ! i)" "persister rf = persister (node s ! i)"
      "currentTerm rf = currentTerm (node s ! i)" "votedFor rf = votedFor (node s ! i)"
      "role rf = role (node s ! i)" "logs rf = logs (node s ! i)" and com: "ord \<Longrightarrow> commit_ok n a rf"
  shows "sim ord n (put i rf s) a P"
proof -
  note N = node_okD [OF simD(5) [OF sim i]]
  have "node_ok ord n a i rf" using N assms(3-) by (simp add: node_ok_def durable_def)
  then show ?thesis using assms(7) simD(10) [OF sim] by (intro sim_put [OF sim i]) simp_all
qed

lemma sim_same:
  assumes "sim ord n s a P" and "i < n"
  shows "sim ord n (put i (node s ! i) s) a P"
  using node_okD(4,9) [OF simD(5) [OF assms]] by (intro sim_same_view [OF assms]) simp_all

lemma sim_adjust_next:
  assumes sim: "sim ord n s a P" and ij: "i < n" "j < n"
  shows "\<exists>rf. adjust_next (int j) args rep (node s ! i) = Some rf \<and> sim ord n (put i rf s) a P"
proof -
  let ?rf = "node s ! i"
  note N = node_okD [OF simD(5) [OF sim ij(1)]]
  show ?thesis
  proof (cases "role ?rf = 2 \<and> \<not> Success rep")
    case True
    then have len: "length (nextIndex ?rf) = n" using N by (simp add: idx_ok_def)
    then have eq: "adjust_next (int j) args rep ?rf = Some (?rf\<lparr>nextIndex := (nextIndex ?rf)[j := 1]\<rparr>)"
      using True ij by (simp add: adjust_next_eq)
    have "idx_ok (?rf\<lparr>nextIndex := (nextIndex ?rf)[j := 1]\<rparr>)"
      using N(4) set_update_subset_insert [of "nextIndex ?rf" j 1] by (auto simp: idx_ok_def)
    then have "sim ord n (put i (?rf\<lparr>nextIndex := (nextIndex ?rf)[j := 1]\<rparr>) s) a P"
      using N(9) by (intro sim_same_view [OF sim ij(1)]) (simp_all add: commit_ok_def)
    with eq show ?thesis by blast
  next
    case False
    then have "adjust_next (int j) args rep ?rf = Some ?rf" by (auto simp: adjust_next_def)
    with sim_same [OF sim ij(1)] show ?thesis by auto
  qed
qed

text \<open>An index that a leader finds stored by a majority is committed.\<close>

lemma replicated_committed:
  assumes sim: "sim True n s a P" and i: "i < n" "role rf = 2"
    and same: "npeers rf = n" "me rf = int i" "logs rf = logs (node s ! i)" "currentTerm rf = currentTerm (node s ! i)"
      "role (node s ! i) = 2"
    and mt: "\<forall>j < n. matchIndex rf ! j \<le> int (s_acked a (currentTerm rf) j)"
    and c: "0 < c" "c \<le> int (length (logs rf))" "currentTerm rf \<le> eterm (logs rf ! nat (c - 1))" "replicated rf (c - 1)"
  shows "committed_at n a (currentTerm rf) (nat c)" "logs rf = s_llog a (currentTerm rf)"
proof -
  let ?T = "currentTerm rf"
  note N = node_okD [OF simD(5) [OF sim i(1)]]
  show own: "logs rf = s_llog a ?T"
    using log_invD(4) [OF sim_inv(2) [OF sim] i(1)] N same by simp
  have lead: "s_leader a ?T = Some i"
    using election_invD(6) [OF sim_inv(1) [OF sim] i(1)] N same by simp
  have pos: "nat (c - 1) < length (s_llog a ?T)" using c own by simp
  have "eterm (s_llog a ?T ! nat (c - 1)) = ?T"
    using elog_okD(2) [OF hist_invD(1) [OF sim_inv(3) [OF sim]] _ nth_mem [OF pos]] lead own c(3) by simp
  moreover have "nat c - 1 = nat (c - 1)" by simp
  ultimately have mk: "mark a ?T (nat c)" using c own by (simp add: mark_def)
  let ?H = "{j. j < n \<and> int j \<noteq> me rf \<and> c - 1 < matchIndex rf ! j}" and ?Q = "insert i {j. j < n \<and> int j \<noteq> me rf \<and> c - 1 < matchIndex rf ! j}"
  have "length (filter (\<lambda>j. int j \<noteq> me rf \<and> c - 1 < matchIndex rf ! j) [0..<n]) = card ?H"
    by (subst distinct_card [symmetric]) (auto intro: arg_cong [where f = card])
  moreover have "i \<notin> ?H" using same by simp
  ultimately have "holders rf (c - 1) = card ?Q" using same by (simp add: holders_def)
  then have maj: "majority n ?Q" using c(4) same i by (auto simp: majority_def replicated_def)
  have own_acked: "s_acked a ?T i = length (s_llog a ?T)"
    using leader_acked [OF simD(4) [OF sim] i(1)] N same by simp
  have "nat c \<le> s_acked a ?T q" if "q \<in> ?Q" for q
    using that mt own_acked own c i by (fastforce simp: nat_le_iff)
  then show "committed_at n a ?T (nat c)" using mk maj by (auto simp: committed_at_def)
qed

lemma commit_ok_committed:
  assumes ok: "commit_ok n a rf" and com: "committed_at n a (currentTerm rf) (nat c)" and l: "logs rf = s_llog a (currentTerm rf)"
    and c: "0 \<le> commitIndex rf" "commitIndex rf \<le> c" "c \<le> int (length (logs rf))"
  shows "commit_ok n a (committed rf c)"
proof -
  have "nat c \<le> length (logs rf)" using c by (simp add: nat_le_iff)
  then have d: "decided n a (currentTerm rf) (nat c) (logs rf)"
    unfolding decided_def using com l by (intro disjI2 exI [of _ "currentTerm rf"] exI [of _ "nat c"]) simp
  have "delivered n a x" if "x \<in> set (applyCh (committed rf c))" for x
    using that ok delivered_range [OF d c(1)] by (auto simp: commit_ok_def committed_def)
  then show ?thesis using ok d by (simp add: commit_ok_def)
qed

lemma sim_submit_reply:
  assumes sim: "sim ord n s a P" and acked: "acked_ok ord n a i j args ok"
  shows "\<exists>rf. submit_reply (int j) args ok (node s ! i) = Some rf \<and> sim ord n (put i rf s) a P"
proof -
  let ?rf = "node s ! i"
  have ij: "i < n" "j < n" "0 \<le> PrevLogIndex args" using acked by (simp_all add: acked_ok_def)
  note N = node_okD [OF simD(5) [OF sim ij(1)]]
  show ?thesis
  proof (cases "ok \<and> aeTerm args = currentTerm ?rf \<and> role ?rf = 2")
    case True
    let ?rf1 = "?rf\<lparr>matchIndex := (matchIndex ?rf)[j := PrevLogIndex args + int (length (Entries args))]\<rparr>"
    have len: "length (matchIndex ?rf) = n" using N True by (simp add: idx_ok_def)
    then have eq: "submit_reply (int j) args ok ?rf = commit_loop (commitIndex ?rf1) ?rf1"
      using True ij by (simp add: submit_reply_def go_upd_def Let_def)
    obtain c where c: "commit_loop (commitIndex ?rf1) ?rf1 = Some (committed ?rf1 c)"
        "commit_point ?rf1 (commitIndex ?rf1) c" "commitIndex ?rf1 \<le> c"
      using commit_loop_correct [of ?rf1 "commitIndex ?rf1"] N len by (auto simp: idx_ok_def)
    have idx: "idx_ok (committed ?rf1 c)"
      using N(4) c True by (auto simp: idx_ok_def commit_point_def)
    have com: "commit_ok n a (committed ?rf1 c)" if ord
    proof -
      have "PrevLogIndex args + int (length (Entries args)) \<le> int (s_acked a (currentTerm ?rf) j)"
        using acked that True ij by (simp add: acked_ok_def total_def) linarith
      then have ok1: "commit_ok n a ?rf1"
        using N(9) [OF that] len ij by (auto simp: commit_ok_def nth_list_update)
      show ?thesis
      proof (cases "c = commitIndex ?rf1")
        case True
        then show ?thesis using ok1 by (metis committed_same)
      next
        case False
        then have cc: "0 < c" "c \<le> int (length (logs ?rf1))" "currentTerm ?rf1 \<le> eterm (logs ?rf1 ! nat (c - 1))"
            "replicated ?rf1 (c - 1)"
          using c(2,3) N(4) by (auto simp: commit_point_def idx_ok_def)
        have "\<forall>k < n. matchIndex ?rf1 ! k \<le> int (s_acked a (currentTerm ?rf1) k)"
          using ok1 True by (simp add: commit_ok_def)
        from replicated_committed [of n s a P i ?rf1 c] sim that ij(1) True N this cc
        have "committed_at n a (currentTerm ?rf1) (nat c)" "logs ?rf1 = s_llog a (currentTerm ?rf1)" by simp_all
        then show ?thesis using ok1 cc c(3) N(4) by (intro commit_ok_committed) (auto simp: idx_ok_def)
      qed
    qed
    have "sim ord n (put i (committed ?rf1 c) s) a P"
      by (rule sim_same_view [OF sim ij(1) idx]) (use com in simp_all)
    with eq c show ?thesis by auto
  next
    case False
    then have "submit_reply (int j) args ok ?rf = Some ?rf" by (auto simp: submit_reply_def)
    with sim_same [OF sim ij(1)] show ?thesis by auto
  qed
qed

lemma order_ok_grow:
  assumes sim: "sim ord n s a P" and ord and lead: "s_leader a (s_term a i) = Some i"
  shows "order_ok (grow_log i e a) (flight s)"
proof -
  have "tots i (s_term a i) (flight s) = []"
  proof (rule ccontr)
    assume "tots i (s_term a i) (flight s) \<noteq> []"
    then obtain x where "x \<in> set (tots i (s_term a i) (flight s))" by fastforce
    then obtain i' c' args where "AEReq i' c' i args \<in> set (flight s)" "aeTerm args = s_term a i"
      using tots_mem by blast
    then show False using simD(8) [OF sim, of "AEReq i' c' i args"] lead by (auto simp: append_ok_def)
  qed
  then show ?thesis using simD(10) [OF sim \<open>ord\<close>] by (auto simp: order_ok_def)
qed

lemma sim_Start:
  assumes sim: "sim ord n s a P" and i: "i < n"
  shows "\<exists>b. sim ord n (put i (fst (Start cmd (node s ! i))) s) b P \<and> extends ord a b"
proof -
  let ?rf = "node s ! i"
  note N = node_okD [OF simD(5) [OF sim i]]
  show ?thesis
  proof (cases "role ?rf = 2")
    case True
    let ?e = "\<lparr>ecommand = cmd, eterm = currentTerm ?rf\<rparr>"
    let ?rf' = "persist (?rf\<lparr>logs := logs ?rf @ [?e]\<rparr>)"
    have st: "(spec_step ord n)\<^sup>*\<^sup>* a (grow_log i ?e a)" using i True N by (intro spec_one spec_step.append) simp_all
    have ext: "extends ord a (grow_log i ?e a)" by (rule spec_steps_extend [OF st simD(4) [OF sim]])
    have lead: "s_leader a (s_term a i) = Some i"
      using election_invD(6) [OF sim_inv(1) [OF sim] i] N True by simp
    have "idx_ok ?rf'" using N(4) by (fastforce simp: idx_ok_def)
    moreover have "commit_ok n (grow_log i ?e a) ?rf'" if ord
      using N(9) [OF that] ext that decided_extends [of n a "currentTerm ?rf" _ "logs ?rf" "grow_log i ?e a" "currentTerm ?rf" "[?e]"]
        delivered_extends [of n a _ "grow_log i ?e a"] extendsD(7) [OF ext that]
      unfolding commit_ok_def by (auto intro: order_trans simp del: grow_log_simps)
    ultimately have "node_ok ord n (grow_log i ?e a) i ?rf'" using N by (simp add: node_ok_def)
    then have "sim ord n (put i ?rf' s) (grow_log i ?e a) P"
      using order_ok_grow [OF sim _ lead] by (intro sim_put [OF sim i st]) simp_all
    then show ?thesis using True ext by (auto simp: Start_def Let_def)
  next
    case False
    then show ?thesis using sim_same [OF sim i] by (auto simp: Start_def Let_def intro: exI [of _ a])
  qed
qed

end
