(* ===== verification/Group_Config.thy ===== *)
theory Group_Config
  imports Harness Raft_Simulation "HOL-Library.Multiset"
begin

text \<open>
  The test harness of a replicated service, \<^verbatim>\<open>src/kvraft/config.go\<close>. The harness of the shard master,
  \<^verbatim>\<open>src/shardmaster/config.go\<close>, has the same text except for the type of its servers, so what a
  harness needs to know of its servers is a parameter, the record \<open>kind\<close>; the two kinds are in \<open>KV_Config\<close>.

  Servers are objects in \<open>kv_heap\<close>; \<open>kvservers\<close> has the address of the current instance of each server. A clerk
  is an address too, and \<open>clerks\<close> has the names of its ends. \<open>None\<close> is a panic: an index out of range, a
  \<open>nil\<close> that is dereferenced, or \<open>log.Fatalf\<close> in the network.
\<close>

subsection \<open>State\<close>

datatype receiver = Kv nat | Rf nat

record ('v, 'c, 'a, 'b) kind =
  k_name :: string
  k_start :: "int \<Rightarrow> nat \<Rightarrow> int \<Rightarrow> 'c gobval Persister \<Rightarrow> int \<Rightarrow> int \<Rightarrow> int \<Rightarrow> 'v"
  k_rf :: "'v \<Rightarrow> 'c Raft"
  k_kill :: "'v \<Rightarrow> 'v"
  k_methods :: "('a, 'b, receiver) Method list"
  r_methods :: "('a, 'b, receiver) Method list"

record ('v, 'c, 'a, 'b) kvconfig =
  kv_net :: "(string, nat, 'a, 'b, receiver) Network"
  kv_n :: nat
  kvservers :: "nat option list"
  kv_saved :: "'c gobval saved list"
  kv_endnames :: "string list option list"
  clerks :: "nat \<rightharpoonup> string list"
  nextClientId :: int
  kv_maxraftstate :: int
  kv_heap :: "nat \<rightharpoonup> 'v"
  kv_fresh :: nat

text \<open>The persister behind \<open>cfg.saved[i]\<close>.\<close>

definition kv_saved_get :: "('v, 'c, 'a, 'b) kind \<Rightarrow> 'c gobval saved \<Rightarrow> ('v, 'c, 'a, 'b) kvconfig \<Rightarrow> 'c gobval Persister option" where
  "kv_saved_get K sv cfg =
     (case sv of Nil_saved \<Rightarrow> None | Shared p \<Rightarrow> map_option (persister \<circ> k_rf K) (kv_heap cfg p) | Own ps \<Rightarrow> Some ps)"

text \<open>Who a row of names belongs to: a server (\<open>cfg.endnames[i]\<close>) or a clerk (\<open>cfg.clerks[ck]\<close>).\<close>

datatype owner = Srv nat | Clk nat

definition row :: "owner \<Rightarrow> ('v, 'c, 'a, 'b) kvconfig \<Rightarrow> string list option" where
  "row w cfg = (case w of Srv i \<Rightarrow> do { r \<leftarrow> slot (kv_endnames cfg) i; r } | Clk ck \<Rightarrow> clerks cfg ck)"

definition end_of :: "owner \<Rightarrow> nat \<Rightarrow> ('v, 'c, 'a, 'b) kvconfig \<Rightarrow> string option" where
  "end_of w j cfg = do { es \<leftarrow> row w cfg; slot es j }"

definition switch :: "bool \<Rightarrow> owner \<Rightarrow> nat \<Rightarrow> ('v, 'c, 'a, 'b) kvconfig \<Rightarrow> ('v, 'c, 'a, 'b) kvconfig option" where
  "switch b w j cfg = do { e \<leftarrow> end_of w j cfg; Some (cfg\<lparr>kv_net := Enable e b (kv_net cfg)\<rparr>) }"

subsection \<open>Randomised handles and log sizes\<close>

text \<open>\<open>r i\<close> is the value of \<open>rand.Intn(i + 1)\<close> in turn \<open>i\<close>.\<close>

definition random_handles :: "(nat \<Rightarrow> nat) \<Rightarrow> 'e list \<Rightarrow> 'e list option" where
  "random_handles r kvh =
     for_each (\<lambda>i sa. do { x \<leftarrow> slot sa i; y \<leftarrow> slot sa (r i); Some (sa[i := y, r i := x]) }) [0..<length kvh] kvh"

definition LogSize :: "('v, 'c, 'a, 'b) kind \<Rightarrow> ('v, 'c, 'a, 'b) kvconfig \<Rightarrow> int option" where
  "LogSize K cfg =
     for_each (\<lambda>i logsize. do { sv \<leftarrow> slot (kv_saved cfg) i; ps \<leftarrow> kv_saved_get K sv cfg;
                                let n = RaftStateSize ps;
                                Some (if n > logsize then n else logsize) }) [0..<kv_n cfg] 0"

subsection \<open>Connecting and disconnecting servers\<close>

definition connectUnlocked :: "nat \<Rightarrow> nat list \<Rightarrow> ('v, 'c, 'a, 'b) kvconfig \<Rightarrow> ('v, 'c, 'a, 'b) kvconfig option" where
  "connectUnlocked i to cfg =
     do { cfg1 \<leftarrow> for_each (\<lambda>j. switch True (Srv i) j) to cfg;
          for_each (\<lambda>j. switch True (Srv j) i) to cfg1 }"

text \<open>
  The second loop of \<open>disconnectUnlocked\<close> tests \<open>cfg.endnames[j]\<close>, where \<open>j\<close> is the position in \<open>from\<close> and not
  the server \<open>from[j]\<close>.
\<close>

definition disconnect_row :: "nat \<Rightarrow> nat \<Rightarrow> nat \<Rightarrow> ('v, 'c, 'a, 'b) kvconfig \<Rightarrow> ('v, 'c, 'a, 'b) kvconfig option" where
  "disconnect_row k i j cfg =
     do { r \<leftarrow> slot (kv_endnames cfg) k; if r \<noteq> None then switch False (Srv i) j cfg else Some cfg }"

definition disconnectUnlocked :: "nat \<Rightarrow> nat list \<Rightarrow> ('v, 'c, 'a, 'b) kvconfig \<Rightarrow> ('v, 'c, 'a, 'b) kvconfig option" where
  "disconnectUnlocked i from cfg =
     do { cfg1 \<leftarrow> for_each (\<lambda>j. disconnect_row i i j) from cfg;
          for_each (\<lambda>(k, j). disconnect_row k j i) (enumerate 0 from) cfg1 }"

definition All :: "('v, 'c, 'a, 'b) kvconfig \<Rightarrow> nat list" where
  "All cfg = [0..<kv_n cfg]"

definition ConnectAll :: "('v, 'c, 'a, 'b) kvconfig \<Rightarrow> ('v, 'c, 'a, 'b) kvconfig option" where
  "ConnectAll cfg = for_each (\<lambda>i cfg. connectUnlocked i (All cfg) cfg) [0..<kv_n cfg] cfg"

definition separate :: "nat list \<Rightarrow> nat list \<Rightarrow> nat \<Rightarrow> ('v, 'c, 'a, 'b) kvconfig \<Rightarrow> ('v, 'c, 'a, 'b) kvconfig option" where
  "separate own other i cfg = do { cfg1 \<leftarrow> disconnectUnlocked i other cfg; connectUnlocked i own cfg1 }"

definition partition :: "nat list \<Rightarrow> nat list \<Rightarrow> ('v, 'c, 'a, 'b) kvconfig \<Rightarrow> ('v, 'c, 'a, 'b) kvconfig option" where
  "partition p1 p2 cfg = do { cfg1 \<leftarrow> for_each (separate p1 p2) p1 cfg; for_each (separate p2 p1) p2 cfg1 }"

subsection \<open>Clerks\<close>

definition open_ends :: "string list \<Rightarrow> (string, nat, 'a, 'b, 'r) Network \<Rightarrow> (string, nat, 'a, 'b, 'r) Network option" where
  "open_ends es rn =
     for_each (\<lambda>(j, e) rn. do { rn' \<leftarrow> MakeEnd e rn; Some (Connect e j rn') }) (enumerate 0 es) rn"

definition ConnectClientUnlocked :: "nat \<Rightarrow> nat list \<Rightarrow> ('v, 'c, 'a, 'b) kvconfig \<Rightarrow> ('v, 'c, 'a, 'b) kvconfig option" where
  "ConnectClientUnlocked ck to cfg = for_each (\<lambda>j. switch True (Clk ck) j) to cfg"

definition DisconnectClientUnlocked :: "nat \<Rightarrow> nat list \<Rightarrow> ('v, 'c, 'a, 'b) kvconfig \<Rightarrow> ('v, 'c, 'a, 'b) kvconfig option" where
  "DisconnectClientUnlocked ck from cfg = for_each (\<lambda>j. switch False (Clk ck) j) from cfg"

text \<open>\<open>makeClient\<close> returns the clerk, that is, its address and the ends that \<open>MakeClerk\<close> is given.\<close>

definition makeClient ::
  "(nat \<Rightarrow> nat) \<Rightarrow> (nat \<Rightarrow> string) \<Rightarrow> nat list \<Rightarrow> ('v, 'c, 'a, 'b) kvconfig \<Rightarrow>
   (('v, 'c, 'a, 'b) kvconfig \<times> nat \<times> string list) option" where
  "makeClient r names to cfg =
     do { let es = map names [0..<kv_n cfg];
          rn \<leftarrow> open_ends es (kv_net cfg);
          hs \<leftarrow> random_handles r es;
          let ck = kv_fresh cfg;
          cfg1 \<leftarrow> ConnectClientUnlocked ck to
             (cfg\<lparr>kv_net := rn, clerks := (clerks cfg)(ck \<mapsto> es), nextClientId := nextClientId cfg + 1,
                  kv_fresh := ck + 1\<rparr>);
          Some (cfg1, ck, hs) }"

text \<open>The second component are the names that are handed to \<open>os.Remove\<close>.\<close>

definition deleteClient :: "nat \<Rightarrow> ('v, 'c, 'a, 'b) kvconfig \<Rightarrow> ('v, 'c, 'a, 'b) kvconfig \<times> string list" where
  "deleteClient ck cfg = (cfg\<lparr>clerks := (clerks cfg)(ck := None)\<rparr>, zget [] (clerks cfg) ck)"

subsection \<open>Starting and stopping servers\<close>

definition kill_server :: "('v, 'c, 'a, 'b) kind \<Rightarrow> nat \<Rightarrow> ('v, 'c, 'a, 'b) kvconfig \<Rightarrow> ('v, 'c, 'a, 'b) kvconfig" where
  "kill_server K p cfg = cfg\<lparr>kv_heap := (kv_heap cfg)(p := map_option (k_kill K) (kv_heap cfg p))\<rparr>"

definition kv_cleanup :: "('v, 'c, 'a, 'b) kind \<Rightarrow> ('v, 'c, 'a, 'b) kvconfig \<Rightarrow> ('v, 'c, 'a, 'b) kvconfig" where
  "kv_cleanup K cfg = fold (\<lambda>s c. case s of None \<Rightarrow> c | Some p \<Rightarrow> kill_server K p c) (kvservers cfg) cfg"

definition ShutdownServer :: "('v, 'c, 'a, 'b) kind \<Rightarrow> nat \<Rightarrow> ('v, 'c, 'a, 'b) kvconfig \<Rightarrow> ('v, 'c, 'a, 'b) kvconfig option" where
  "ShutdownServer K i cfg =
     do { cfg1 \<leftarrow> disconnectUnlocked i (All cfg) cfg;
          let cfg2 = cfg1\<lparr>kv_net := DeleteServer i (kv_net cfg1)\<rparr>;
          sv \<leftarrow> slot (kv_saved cfg2) i;
          sv' \<leftarrow> (if sv = Nil_saved then Some Nil_saved
                 else map_option (\<lambda>ps. Own (Copy ps)) (kv_saved_get K sv cfg2));
          let cfg3 = cfg2\<lparr>kv_saved := (kv_saved cfg2)[i := sv']\<rparr>;
          s \<leftarrow> slot (kvservers cfg3) i;
          Some (case s of
                  None \<Rightarrow> cfg3
                | Some p \<Rightarrow> (kill_server K p cfg3)\<lparr>kvservers := (kvservers cfg3)[i := None]\<rparr>) }"

definition StartServer ::
  "('v, 'c, 'a, 'b) kind \<Rightarrow> (nat \<Rightarrow> string) \<Rightarrow> int \<times> int \<times> int \<Rightarrow> nat \<Rightarrow> ('v, 'c, 'a, 'b) kvconfig \<Rightarrow>
   ('v, 'c, 'a, 'b) kvconfig option" where
  "StartServer K names seed i cfg =
     do { let es = map names [0..<kv_n cfg];
          rows \<leftarrow> put_slot (kv_endnames cfg) i (Some es);
          rn \<leftarrow> open_ends es (kv_net cfg);
          sv \<leftarrow> slot (kv_saved cfg) i;
          ps \<leftarrow> (if sv = Nil_saved then Some MakePersister else map_option Copy (kv_saved_get K sv cfg));
          let (now, rnd1, rnd2) = seed;
          let p = kv_fresh cfg;
          ss \<leftarrow> put_slot (kvservers cfg) i (Some p);
          let kvsvc = MakeService (k_name K) (Kv p) (k_methods K);
          let rfsvc = MakeService ''Raft'' (Rf p) (r_methods K);
          let srv = AddService rfsvc (AddService kvsvc MakeServer);
          Some (cfg\<lparr>kv_endnames := rows, kv_saved := (kv_saved cfg)[i := Shared p], kvservers := ss,
                    kv_heap := (kv_heap cfg)(p \<mapsto> k_start K (kv_maxraftstate cfg) (kv_n cfg) (int i) ps now rnd1 rnd2),
                    kv_fresh := p + 1,
                    kv_net := AddServer i p (rn\<lparr>objs := (objs rn)(p \<mapsto> srv)\<rparr>)\<rparr>) }"

subsection \<open>The leader and partitions around it\<close>

text \<open>\<open>Leader\<close> uses the role only of what \<open>GetState\<close> reads, so one moment per server is enough.\<close>

fun find_leader :: "('v, 'c, 'a, 'b) kind \<Rightarrow> nat list \<Rightarrow> ('v, 'c, 'a, 'b) kvconfig \<Rightarrow> (bool \<times> nat) option" where
  "find_leader K [] cfg = Some (False, 0)"
| "find_leader K (i # is) cfg =
     do { s \<leftarrow> slot (kvservers cfg) i; p \<leftarrow> s; kv \<leftarrow> kv_heap cfg p;
          if snd (GetState (still (k_rf K kv))) then Some (True, i) else find_leader K is cfg }"

definition Leader :: "('v, 'c, 'a, 'b) kind \<Rightarrow> ('v, 'c, 'a, 'b) kvconfig \<Rightarrow> (bool \<times> nat) option" where
  "Leader K cfg = find_leader K [0..<kv_n cfg] cfg"

text \<open>One turn of the loop of \<open>make_partition\<close>; the state are \<open>j\<close>, \<open>p1\<close> and \<open>p2\<close>.\<close>

definition place :: "nat \<Rightarrow> nat \<Rightarrow> nat \<times> nat list \<times> nat list \<Rightarrow> (nat \<times> nat list \<times> nat list) option" where
  "place l i s =
     (case s of (j, p1, p2) \<Rightarrow>
        if i \<noteq> l then
          if j < length p1 then do { p1' \<leftarrow> put_slot p1 j i; Some (j + 1, p1', p2) }
          else do { p2' \<leftarrow> put_slot p2 (j - length p1) i; Some (j + 1, p1, p2') }
        else Some s)"

definition make_partition :: "('v, 'c, 'a, 'b) kind \<Rightarrow> ('v, 'c, 'a, 'b) kvconfig \<Rightarrow> (nat list \<times> nat list) option" where
  "make_partition K cfg =
     do { (_, l) \<leftarrow> Leader K cfg;
          (_, p1, p2) \<leftarrow> for_each (place l) [0..<kv_n cfg]
             (0, replicate (kv_n cfg div 2 + 1) 0, replicate (kv_n cfg div 2) 0);
          if p2 = [] then None else Some (p1, p2[length p2 - 1 := l]) }"

definition kv_config0 :: "nat \<Rightarrow> int \<Rightarrow> ('v, 'c, 'a, 'b) kvconfig" where
  "kv_config0 n mx =
     \<lparr>kv_net = MakeNetwork, kv_n = n, kvservers = replicate n None, kv_saved = replicate n Nil_saved,
      kv_endnames = replicate n None, clerks = Map.empty, nextClientId = int n + 1000, kv_maxraftstate = mx,
      kv_heap = Map.empty, kv_fresh = 0\<rparr>"

definition kv_make_config ::
  "('v, 'c, 'a, 'b) kind \<Rightarrow> (nat \<Rightarrow> nat \<Rightarrow> string) \<Rightarrow> (nat \<Rightarrow> int \<times> int \<times> int) \<Rightarrow> nat \<Rightarrow> bool \<Rightarrow> int \<Rightarrow>
   ('v, 'c, 'a, 'b) kvconfig option" where
  "kv_make_config K names seeds n unreliable mx =
     do { cfg1 \<leftarrow> for_each (\<lambda>i. StartServer K (names i) (seeds i) i) [0..<n] (kv_config0 n mx);
          cfg2 \<leftarrow> ConnectAll cfg1;
          Some (cfg2\<lparr>kv_net := Reliable (\<not> unreliable) (kv_net cfg2)\<rparr>) }"

subsection \<open>Shuffling\<close>

text \<open>Each turn swaps two elements, so the handles are a permutation whatever numbers are drawn.\<close>

lemma random_handles_perm:
  assumes "\<And>i. i < length kvh \<Longrightarrow> r i \<le> i"
  shows "\<exists>sa. random_handles r kvh = Some sa \<and> mset sa = mset kvh"
proof -
  let ?f = "\<lambda>i sa. do { x \<leftarrow> slot sa i; y \<leftarrow> slot sa (r i); Some (sa[i := y, r i := x]) }"
  let ?g = "\<lambda>i sa. sa[i := sa ! r i, r i := sa ! i]"
  let ?I = "\<lambda>sa. length sa = length kvh \<and> mset sa = mset kvh"
  have step: "?f i sa = Some (?g i sa) \<and> ?I (?g i sa)" if "i \<in> set [0..<length kvh]" "?I sa" for i sa
  proof -
    have "i < length sa" "r i < length sa" using that assms [of i] by auto
    then show ?thesis using that mset_swap [of "r i" sa i] by simp
  qed
  have "for_each ?f [0..<length kvh] kvh = Some (fold ?g [0..<length kvh] kvh)"
    by (rule for_each_fold(1) [where I = ?I]) (simp, rule step)
  moreover have "?I (fold ?g [0..<length kvh] kvh)"
    by (rule for_each_fold(2) [where I = ?I and f = ?f]) (simp, rule step)
  ultimately show ?thesis unfolding random_handles_def by blast
qed

subsection \<open>A partition around the leader\<close>

lemma place_all:
  assumes "l \<notin> set xs" and "length xs \<le> length q1 + length q2"
  shows "for_each (place l) xs (0, q1, q2) = Some (length xs,
    take (length q1) xs @ drop (length xs) q1, drop (length q1) xs @ drop (length xs - length q1) q2)"
  using assms
proof (induction xs rule: rev_induct)
  case (snoc x xs)
  then have IH: "for_each (place l) xs (0, q1, q2) = Some (length xs,
    take (length q1) xs @ drop (length xs) q1, drop (length q1) xs @ drop (length xs - length q1) q2)" by simp
  show ?case
  proof (cases "length xs < length q1")
    case True
    then have "drop (length xs) q1 = q1 ! length xs # drop (Suc (length xs)) q1" by (rule Cons_nth_drop_Suc [symmetric])
    then have "place l x (length xs, xs @ drop (length xs) q1, q2) =
        Some (Suc (length xs), xs @ x # drop (Suc (length xs)) q1, q2)"
      using True snoc.prems by (auto simp: place_def put_slot_def list_update_append)
    then show ?thesis using True IH by (simp add: for_each_append)
  next
    case False
    let ?k = "length xs - length q1"
    have k: "?k < length q2" using False snoc.prems by simp
    then have "drop ?k q2 = q2 ! ?k # drop (Suc ?k) q2" by (rule Cons_nth_drop_Suc [symmetric])
    then have "place l x (length xs, take (length q1) xs, drop (length q1) xs @ drop ?k q2) =
        Some (Suc (length xs), take (length q1) xs, drop (length q1) xs @ x # drop (Suc ?k) q2)"
      using False snoc.prems by (simp add: place_def put_slot_def list_update_append)
    then show ?thesis using False IH by (simp add: for_each_append Suc_diff_le)
  qed
qed simp

lemma place_skip: "for_each (place l) xs s = for_each (place l) (filter (\<lambda>i. i \<noteq> l) xs) s"
  by (induction xs arbitrary: s) (auto simp: place_def split: prod.splits)

lemma filter_upt_others:
  assumes "l < n"
  shows "length (filter (\<lambda>i. i \<noteq> l) [0..<n]) = n - 1"
proof -
  have "set (filter (\<lambda>i. i \<noteq> l) [0..<n]) = {..<n} - {l}" by auto
  then have "card (set (filter (\<lambda>i. i \<noteq> l) [0..<n])) = n - 1" using assms by (simp only: card_Diff_singleton card_lessThan lessThan_iff)
  then show ?thesis by (simp only: distinct_card distinct_filter distinct_upt)
qed

lemma make_partition_odd:
  assumes "Leader K cfg = Some (b, l)" and "l < kv_n cfg" and "odd (kv_n cfg)" and "3 \<le> kv_n cfg"
  shows "\<exists>p1 p2. make_partition K cfg = Some (p1, p2 @ [l]) \<and> p1 @ p2 = filter (\<lambda>i. i \<noteq> l) [0..<kv_n cfg] \<and>
    length p1 = kv_n cfg div 2 + 1"
proof -
  define xs where "xs = filter (\<lambda>i. i \<noteq> l) [0..<kv_n cfg]"
  obtain k where k: "kv_n cfg = 2 * k + 1" "1 \<le> k" using assms(3,4) by (auto elim!: oddE)
  have len: "length xs = 2 * k" and l: "l \<notin> set xs"
    using filter_upt_others [OF assms(2)] k(1) by (simp_all add: xs_def)
  have "drop (length xs) (replicate (k + 1) (0 :: nat)) = []" "drop (length xs - (k + 1)) (replicate k (0 :: nat)) = [0]"
    using len k by (simp_all only: drop_replicate) auto
  then have "for_each (place l) xs (0, replicate (k + 1) 0, replicate k 0) = Some (2 * k, take (k + 1) xs, drop (k + 1) xs @ [0])"
    using place_all [OF l, of "replicate (k + 1) 0" "replicate k 0"] len by (simp del: replicate_Suc)
  then have "for_each (place l) [0..<kv_n cfg] (0, replicate (kv_n cfg div 2 + 1) 0, replicate (kv_n cfg div 2) 0) =
     Some (2 * k, take (k + 1) xs, drop (k + 1) xs @ [0])"
    unfolding place_skip [of l "[0..<kv_n cfg]"] xs_def [symmetric] using k(1) by simp
  moreover have "(drop (k + 1) xs @ [0])[length (drop (k + 1) xs @ [0]) - 1 := l] = drop (k + 1) xs @ [l]"
    by (simp add: list_update_append)
  ultimately have "make_partition K cfg = Some (take (k + 1) xs, drop (k + 1) xs @ [l])"
    unfolding make_partition_def assms(1) by (simp del: upt_Suc replicate_Suc length_append)
  moreover have "take (k + 1) xs @ drop (k + 1) xs = xs" "length (take (k + 1) xs) = kv_n cfg div 2 + 1"
    using len k by simp_all
  ultimately show ?thesis unfolding xs_def by blast
qed

subsection \<open>Wiring\<close>

text \<open>
  The invariant of a harness. Every row has one name per server; names are used once, are known to the
  network and lead to the server of their position; the network offers the current instances; an instance
  shares its persister with the harness; addresses below \<open>kv_fresh\<close> are in use.
\<close>

definition wired :: "('v, 'c, 'a, 'b) kvconfig \<Rightarrow> bool" where
  "wired cfg \<longleftrightarrow>
     length (kvservers cfg) = kv_n cfg \<and> length (kv_saved cfg) = kv_n cfg \<and> length (kv_endnames cfg) = kv_n cfg \<and>
     (\<forall>w es. row w cfg = Some es \<longrightarrow> length es = kv_n cfg) \<and>
     (\<forall>w j w' j' e. end_of w j cfg = Some e \<and> end_of w' j' cfg = Some e \<longrightarrow> w = w' \<and> j = j') \<and>
     (\<forall>w j e. end_of w j cfg = Some e \<longrightarrow> ends (kv_net cfg) e \<noteq> None \<and> connections (kv_net cfg) e = Some (Some j)) \<and>
     (\<forall>ck. clerks cfg ck \<noteq> None \<longrightarrow> ck < kv_fresh cfg)"

definition hosted :: "('v, 'c, 'a, 'b) kvconfig \<Rightarrow> bool" where
  "hosted cfg \<longleftrightarrow>
     (\<forall>i < kv_n cfg. zget None (Network.servers (kv_net cfg)) i = kvservers cfg ! i) \<and>
     (\<forall>i < kv_n cfg. \<forall>p. kvservers cfg ! i = Some p \<longleftrightarrow> kv_saved cfg ! i = Shared p) \<and>
     (\<forall>i < kv_n cfg. \<forall>p. kvservers cfg ! i = Some p \<longrightarrow> kv_heap cfg p \<noteq> None) \<and>
     (\<forall>p. kv_fresh cfg \<le> p \<longrightarrow> kv_heap cfg p = None)"

text \<open>The ends that are switched on, as pairs of their owner and the server they lead to.\<close>

definition links :: "('v, 'c, 'a, 'b) kvconfig \<Rightarrow> (owner \<times> nat) set" where
  "links cfg = {(w, j). \<exists>e. end_of w j cfg = Some e \<and> zget False (enabled (kv_net cfg)) e}"

text \<open>Only switches differ.\<close>

definition rewired :: "('v, 'c, 'a, 'b) kvconfig \<Rightarrow> ('v, 'c, 'a, 'b) kvconfig \<Rightarrow> bool" where
  "rewired cfg cfg' \<longleftrightarrow>
     (\<exists>rn. cfg' = cfg\<lparr>kv_net := rn\<rparr> \<and> ends rn = ends (kv_net cfg) \<and> connections rn = connections (kv_net cfg) \<and>
        Network.servers rn = Network.servers (kv_net cfg) \<and> objs rn = objs (kv_net cfg))"

lemma wiredD:
  assumes "wired cfg"
  shows "length (kvservers cfg) = kv_n cfg" "length (kv_saved cfg) = kv_n cfg" "length (kv_endnames cfg) = kv_n cfg"
    and "row w cfg = Some es \<Longrightarrow> length es = kv_n cfg"
    and "end_of w j cfg = Some e \<Longrightarrow> end_of w' j' cfg = Some e \<Longrightarrow> w = w' \<and> j = j'"
    and "end_of w j cfg = Some e \<Longrightarrow> ends (kv_net cfg) e \<noteq> None"
    and "end_of w j cfg = Some e \<Longrightarrow> connections (kv_net cfg) e = Some (Some j)"
    and "clerks cfg ck \<noteq> None \<Longrightarrow> ck < kv_fresh cfg"
  using assms unfolding wired_def by blast+

lemma end_of_row: "wired cfg \<Longrightarrow> row w cfg \<noteq> None \<Longrightarrow> j < kv_n cfg \<Longrightarrow> end_of w j cfg \<noteq> None"
  using wiredD(4) [of cfg w] by (auto simp: end_of_def)

lemma end_of_less: "wired cfg \<Longrightarrow> end_of w j cfg = Some e \<Longrightarrow> j < kv_n cfg \<and> row w cfg \<noteq> None"
  using wiredD(4) [of cfg w] by (auto simp: end_of_def go_panic split: bind_splits)

lemma row_simps [simp]:
  "row w (cfg\<lparr>kv_net := rn\<rparr>) = row w cfg" "end_of w j (cfg\<lparr>kv_net := rn\<rparr>) = end_of w j cfg"
  by (simp_all add: row_def end_of_def split: owner.splits)

lemma rewired_refl [simp]: "rewired cfg cfg"
  by (auto simp: rewired_def intro!: exI [of _ "kv_net cfg"])

lemma rewired_trans: "rewired a b \<Longrightarrow> rewired b c \<Longrightarrow> rewired a c"
  by (auto simp: rewired_def)

lemma rewiredD:
  assumes "rewired cfg cfg'"
  shows "kv_n cfg' = kv_n cfg" "kvservers cfg' = kvservers cfg" "kv_saved cfg' = kv_saved cfg"
    "kv_endnames cfg' = kv_endnames cfg" "clerks cfg' = clerks cfg" "kv_heap cfg' = kv_heap cfg" "kv_fresh cfg' = kv_fresh cfg"
    "kv_maxraftstate cfg' = kv_maxraftstate cfg" "row w cfg' = row w cfg" "end_of w j cfg' = end_of w j cfg"
    "ends (kv_net cfg') = ends (kv_net cfg)" "connections (kv_net cfg') = connections (kv_net cfg)"
    "Network.servers (kv_net cfg') = Network.servers (kv_net cfg)" "objs (kv_net cfg') = objs (kv_net cfg)"
  using assms by (auto simp: rewired_def)

lemma rewired_inv:
  assumes "rewired cfg cfg'"
  shows "wired cfg' = wired cfg" "hosted cfg' = hosted cfg"
  by (simp_all only: wired_def hosted_def rewiredD [OF assms])

lemma switch_links:
  assumes "wired cfg" and e: "end_of w j cfg \<noteq> None"
  shows "\<exists>cfg'. switch b w j cfg = Some cfg' \<and> rewired cfg cfg' \<and>
    links cfg' = (if b then insert (w, j) (links cfg) else links cfg - {(w, j)})"
proof -
  obtain e where e: "end_of w j cfg = Some e" using e by blast
  let ?c = "cfg\<lparr>kv_net := Enable e b (kv_net cfg)\<rparr>"
  have "(v, k) \<in> links ?c \<longleftrightarrow> (if v = w \<and> k = j then b else (v, k) \<in> links cfg)" for v k
  proof (cases "end_of v k cfg")
    case (Some f)
    have "f = e \<longleftrightarrow> v = w \<and> k = j" using wiredD(5) [OF assms(1) e, of v k] e Some by auto
    then show ?thesis using Some by (auto simp: links_def zget_def)
  qed (use e in \<open>auto simp: links_def\<close>)
  then have "links ?c = (if b then insert (w, j) (links cfg) else links cfg - {(w, j)})" by (auto split: if_splits)
  then show ?thesis using e by (auto simp: switch_def rewired_def)
qed

lemma for_each_map: "for_each f (map g xs) s = for_each (\<lambda>x. f (g x)) xs s"
  by (induction xs arbitrary: s) (auto split: bind_split)

lemma switches_links:
  assumes "wired cfg" and "\<And>w j. (w, j) \<in> set ps \<Longrightarrow> end_of w j cfg \<noteq> None"
  shows "\<exists>cfg'. for_each (\<lambda>(w, j). switch b w j) ps cfg = Some cfg' \<and> rewired cfg cfg' \<and>
    links cfg' = (if b then links cfg \<union> set ps else links cfg - set ps)"
  using assms
proof (induction ps arbitrary: cfg)
  case (Cons p ps)
  obtain w j where p: "p = (w, j)" by force
  obtain c where c: "switch b w j cfg = Some c" "rewired cfg c"
    "links c = (if b then insert (w, j) (links cfg) else links cfg - {(w, j)})"
    using switch_links [OF Cons.prems(1), of w j b] Cons.prems(2) [of w j] p by auto
  have "wired c" using Cons.prems(1) rewired_inv [OF c(2)] by simp
  moreover have "end_of v k c \<noteq> None" if "(v, k) \<in> set ps" for v k
    using Cons.prems(2) [of v k] that rewiredD(10) [OF c(2)] by simp
  ultimately obtain c' where "for_each (\<lambda>(w, j). switch b w j) ps c = Some c'" "rewired c c'"
    "links c' = (if b then links c \<union> set ps else links c - set ps)" using Cons.IH by blast
  then show ?case using c p rewired_trans [OF c(2)] by auto
qed simp

text \<open>All ends between a server and a set of servers, in both directions.\<close>

definition both_ways :: "nat \<Rightarrow> nat set \<Rightarrow> (owner \<times> nat) set" where
  "both_ways i S = (\<lambda>j. (Srv i, j)) ` S \<union> (\<lambda>j. (Srv j, i)) ` S"

definition all_started :: "('v, 'c, 'a, 'b) kvconfig \<Rightarrow> bool" where
  "all_started cfg \<longleftrightarrow> (\<forall>i < kv_n cfg. row (Srv i) cfg \<noteq> None)"

lemma all_started_end: "wired cfg \<Longrightarrow> all_started cfg \<Longrightarrow> i < kv_n cfg \<Longrightarrow> j < kv_n cfg \<Longrightarrow> end_of (Srv i) j cfg \<noteq> None"
  by (simp add: all_started_def end_of_row)

lemma rewired_started: "rewired cfg cfg' \<Longrightarrow> all_started cfg' = all_started cfg"
  by (auto simp: rewired_def all_started_def)

lemma connectUnlocked_links:
  assumes "wired cfg" and "all_started cfg" and "i < kv_n cfg" and "set to \<subseteq> {..<kv_n cfg}"
  shows "\<exists>cfg'. connectUnlocked i to cfg = Some cfg' \<and> rewired cfg cfg' \<and> links cfg' = links cfg \<union> both_ways i (set to)"
proof -
  let ?ps = "map (\<lambda>j. (Srv i, j)) to @ map (\<lambda>j. (Srv j, i)) to"
  have "connectUnlocked i to cfg = for_each (\<lambda>(w, j). switch True w j) ?ps cfg"
    by (simp add: connectUnlocked_def for_each_append for_each_map)
  moreover have "end_of w j cfg \<noteq> None" if "(w, j) \<in> set ?ps" for w j
    using that assms(3,4) all_started_end [OF assms(1,2)] by auto
  ultimately show ?thesis using switches_links [OF assms(1), of ?ps True] by (auto simp: both_ways_def)
qed

lemma for_each_cong:
  assumes "\<And>x t. x \<in> set xs \<Longrightarrow> I t \<Longrightarrow> f x t = g x t" and "\<And>x t t'. x \<in> set xs \<Longrightarrow> I t \<Longrightarrow> g x t = Some t' \<Longrightarrow> I t'"
    and "I s"
  shows "for_each f xs s = for_each g xs s"
  using assms
proof (induction xs arbitrary: s)
  case (Cons x xs)
  have "f x s = g x s" using Cons.prems by simp
  moreover have "for_each f xs t = for_each g xs t" if "g x s = Some t" for t
  proof (rule Cons.IH)
    show "I t" by (rule Cons.prems(2) [OF _ Cons.prems(3) that]) simp
    show "I b" if "y \<in> set xs" "I a" "g y a = Some b" for y a b by (rule Cons.prems(2) [OF _ that(2,3)]) (use that(1) in simp)
  qed (use Cons.prems(1) in simp)
  ultimately show ?case by (cases "g x s") simp_all
qed simp

lemma switch_endnames: "switch b w j cfg = Some cfg' \<Longrightarrow> kv_endnames cfg' = kv_endnames cfg"
  by (auto simp: switch_def split: bind_splits)

lemma disconnectUnlocked_links:
  assumes "wired cfg" and "all_started cfg" and "i < kv_n cfg" and "set from \<subseteq> {..<kv_n cfg}" and "length from \<le> kv_n cfg"
  shows "\<exists>cfg'. disconnectUnlocked i from cfg = Some cfg' \<and> rewired cfg cfg' \<and> links cfg' = links cfg - both_ways i (set from)"
proof -
  let ?ps = "map (\<lambda>j. (Srv i, j)) from @ map (\<lambda>j. (Srv j, i)) from"
  let ?I = "\<lambda>c :: ('a, 'b, 'c, 'd) kvconfig. kv_endnames c = kv_endnames cfg"
  have row: "kv_endnames cfg ! k \<noteq> None" "k < length (kv_endnames cfg)" if "k < kv_n cfg" for k
    using assms(1,2) that wiredD(3) [of cfg] by (auto simp: all_started_def row_def)
  have 1: "for_each (\<lambda>j. disconnect_row i i j) from c = for_each (\<lambda>j. switch False (Srv i) j) from c" if "?I c" for c
    by (rule for_each_cong [where I = ?I]) (use row [OF assms(3)] that in \<open>auto simp: disconnect_row_def dest: switch_endnames\<close>)
  have "for_each (\<lambda>(k, j). disconnect_row k j i) (enumerate 0 from) c = for_each (\<lambda>(k, j). switch False (Srv j) i) (enumerate 0 from) c" if "?I c" for c
  proof (rule for_each_cong [where I = ?I])
    fix x and t :: "('a, 'b, 'c, 'd) kvconfig" assume "x \<in> set (enumerate 0 from)" "?I t"
    moreover then have "fst x < kv_n cfg" using assms(5) by (auto simp: in_set_enumerate_eq)
    ultimately show "(case x of (k, j) \<Rightarrow> disconnect_row k j i) t = (case x of (k, j) \<Rightarrow> switch False (Srv j) i) t"
      using row [of "fst x"] by (auto simp: disconnect_row_def split: prod.splits)
  qed (use that in \<open>auto dest: switch_endnames split: prod.splits\<close>)
  moreover have "for_each (\<lambda>(k, j). switch False (Srv j) i) (enumerate 0 from) c = for_each (\<lambda>j. switch False (Srv j) i) from c" for c :: "('a, 'b, 'c, 'd) kvconfig"
    using for_each_map [of "\<lambda>j. switch False (Srv j) i" snd "enumerate 0 from" c] by (simp add: case_prod_unfold)
  ultimately have 2: "for_each (\<lambda>(k, j). disconnect_row k j i) (enumerate 0 from) c = for_each (\<lambda>j. switch False (Srv j) i) from c" if "?I c" for c
    using that by simp
  have I: "?I c" if "for_each (\<lambda>j. switch False (Srv i) j) from cfg = Some c" for c
    by (rule for_each_inv [OF that, of ?I]) (auto dest: switch_endnames)
  have "disconnectUnlocked i from cfg = for_each (\<lambda>(w, j). switch False w j) ?ps cfg"
    using 1 [of cfg] 2 I by (auto simp: disconnectUnlocked_def for_each_append for_each_map split: bind_split)
  moreover have "end_of w j cfg \<noteq> None" if "(w, j) \<in> set ?ps" for w j
    using that assms(3,4) all_started_end [OF assms(1,2)] by auto
  ultimately show ?thesis using switches_links [OF assms(1), of ?ps False] by (auto simp: both_ways_def)
qed

text \<open>Switching loops, as operations on the set of links.\<close>

lemma rewire_loop:
  assumes "P cfg" and "\<And>c c'. P c \<Longrightarrow> rewired c c' \<Longrightarrow> P c'"
    and "\<And>i c. i \<in> set is \<Longrightarrow> P c \<Longrightarrow> \<exists>c'. f i c = Some c' \<and> rewired c c' \<and> links c' = F i (links c)"
  shows "\<exists>cfg'. for_each f is cfg = Some cfg' \<and> rewired cfg cfg' \<and> links cfg' = fold F is (links cfg)"
  using assms(1,3)
proof (induction "is" arbitrary: cfg)
  case (Cons i "is")
  obtain c where c: "f i cfg = Some c" "rewired cfg c" "links c = F i (links cfg)" using Cons.prems by (metis list.set_intros(1))
  obtain c' where "for_each f is c = Some c'" "rewired c c'" "links c' = fold F is (links c)"
    using Cons.IH [of c] assms(2) [OF Cons.prems(1) c(2)] Cons.prems(2) by (metis list.set_intros(2))
  then show ?case using c rewired_trans [OF c(2)] by auto
qed simp

definition ready :: "('v, 'c, 'a, 'b) kvconfig \<Rightarrow> nat \<Rightarrow> bool" where
  "ready cfg n \<longleftrightarrow> wired cfg \<and> all_started cfg \<and> kv_n cfg = n"

lemma ready_rewired: "ready c n \<Longrightarrow> rewired c c' \<Longrightarrow> ready c' n"
  by (simp add: ready_def rewired_inv rewired_started rewiredD(1))

lemma ConnectAll_links:
  assumes "ready cfg n"
  shows "\<exists>cfg'. ConnectAll cfg = Some cfg' \<and> rewired cfg cfg' \<and> links cfg' = links cfg \<union> {(Srv i, j) | i j. i < n \<and> j < n}"
proof -
  have n: "kv_n cfg = n" using assms by (simp add: ready_def)
  have "\<exists>c'. connectUnlocked i (All c) c = Some c' \<and> rewired c c' \<and> links c' = links c \<union> both_ways i {..<n}"
    if "i \<in> set [0..<n]" "ready c n" for i and c :: "('a, 'b, 'c, 'd) kvconfig"
    using connectUnlocked_links [of c i "All c"] that by (auto simp: ready_def All_def lessThan_atLeast0)
  then have "\<exists>cfg'. for_each (\<lambda>i cfg. connectUnlocked i (All cfg) cfg) [0..<n] cfg = Some cfg' \<and> rewired cfg cfg' \<and>
      links cfg' = fold (\<lambda>i L. L \<union> both_ways i {..<n}) [0..<n] (links cfg)"
    by (intro rewire_loop [of "\<lambda>c. ready c n", OF assms]) (use ready_rewired in blast)+
  then obtain cfg' where c: "ConnectAll cfg = Some cfg'" "rewired cfg cfg'"
    "links cfg' = fold (\<lambda>i L. L \<union> both_ways i {..<n}) [0..<n] (links cfg)"
    by (auto simp: ConnectAll_def n)
  have "fold (\<lambda>i L. L \<union> both_ways i {..<n}) xs L = L \<union> (\<Union>i \<in> set xs. both_ways i {..<n})" for xs L
    by (induction xs arbitrary: L) auto
  moreover have "(\<Union>i \<in> set [0..<n]. both_ways i {..<n}) = {(Srv i, j) | i j. i < n \<and> j < n}" by (auto simp: both_ways_def)
  ultimately show ?thesis using c by auto
qed

lemma separate_links:
  assumes "ready cfg n" and "i < n" and "set own \<subseteq> {..<n}" and "set other \<subseteq> {..<n}" and "distinct other"
  shows "\<exists>cfg'. separate own other i cfg = Some cfg' \<and> rewired cfg cfg' \<and>
    links cfg' = links cfg - both_ways i (set other) \<union> both_ways i (set own)"
proof -
  have w: "wired cfg" "all_started cfg" "kv_n cfg = n" using assms(1) by (simp_all add: ready_def)
  have "length other = card (set other)" using assms(5) by (simp add: distinct_card)
  also have "\<dots> \<le> n" using card_mono [OF _ assms(4)] by simp
  finally obtain c where c: "disconnectUnlocked i other cfg = Some c" "rewired cfg c" "links c = links cfg - both_ways i (set other)"
    using disconnectUnlocked_links [OF w(1,2), of i other] assms w(3) by auto
  have "ready c n" by (rule ready_rewired [OF assms(1) c(2)])
  then obtain c' where "connectUnlocked i own c = Some c'" "rewired c c'" "links c' = links c \<union> both_ways i (set own)"
    using connectUnlocked_links [of c i own] assms by (auto simp: ready_def)
  then show ?thesis using c rewired_trans [OF c(2)] by (auto simp: separate_def)
qed

text \<open>The links between two sides of a partition, and those within one side.\<close>

definition across :: "nat set \<Rightarrow> nat set \<Rightarrow> (owner \<times> nat) set" where
  "across A B = {(Srv i, j) | i j. i \<in> A \<and> j \<in> B \<or> i \<in> B \<and> j \<in> A}"

definition within :: "nat set \<Rightarrow> (owner \<times> nat) set" where
  "within A = {(Srv i, j) | i j. i \<in> A \<and> j \<in> A}"

lemma fold_separate:
  assumes "A \<inter> B = {}" and "set is \<subseteq> A"
  shows "fold (\<lambda>i L. L - both_ways i B \<union> both_ways i A) is L =
    L - (\<Union>i \<in> set is. both_ways i B) \<union> (\<Union>i \<in> set is. both_ways i A)"
  using assms(2)
proof (induction "is" arbitrary: L)
  case (Cons i "is")
  have "both_ways i A \<inter> both_ways j B = {}" if "j \<in> A" for j
    using assms(1) Cons.prems that by (auto simp: both_ways_def)
  then have "both_ways i A \<inter> (\<Union>j \<in> set is. both_ways j B) = {}" using Cons.prems by auto
  then show ?case using Cons.IH [of "L - both_ways i B \<union> both_ways i A"] Cons.prems by auto
qed simp

lemma partition_links_ready:
  assumes "ready cfg n" and "set p1 \<subseteq> {..<n}" and "set p2 \<subseteq> {..<n}" and "distinct (p1 @ p2)"
  shows "\<exists>cfg'. partition p1 p2 cfg = Some cfg' \<and> rewired cfg cfg' \<and>
    links cfg' = links cfg - across (set p1) (set p2) \<union> within (set p1) \<union> within (set p2)"
proof -
  have side: "\<exists>c'. for_each (separate p q) p c = Some c' \<and> rewired c c' \<and>
      links c' = fold (\<lambda>i L. L - both_ways i (set q) \<union> both_ways i (set p)) p (links c)"
    if "ready c n" "set p \<subseteq> {..<n}" "set q \<subseteq> {..<n}" "distinct q" for p q and c :: "('a, 'b, 'c, 'd) kvconfig"
    by (rule rewire_loop [of "\<lambda>c. ready c n", OF that(1) ready_rewired], assumption, assumption, rule separate_links) (use that in auto)
  obtain c where c: "for_each (separate p1 p2) p1 cfg = Some c" "rewired cfg c"
    "links c = fold (\<lambda>i L. L - both_ways i (set p2) \<union> both_ways i (set p1)) p1 (links cfg)"
    using side [OF assms(1-3)] assms(4) by auto
  obtain c' where c': "for_each (separate p2 p1) p2 c = Some c'" "rewired c c'"
    "links c' = fold (\<lambda>i L. L - both_ways i (set p1) \<union> both_ways i (set p2)) p2 (links c)"
    using side [OF ready_rewired [OF assms(1) c(2)] assms(3,2)] assms(4) by auto
  have d: "set p1 \<inter> set p2 = {}" "set p2 \<inter> set p1 = {}" using assms(4) by auto
  have U: "(\<Union>i \<in> A. both_ways i B) = across A B" "across A A = within A" for A B
    by (auto simp: both_ways_def across_def within_def)
  have "links c' = links cfg - across (set p1) (set p2) \<union> within (set p1) - across (set p2) (set p1) \<union> within (set p2)"
    using c(3) c'(3) fold_separate [OF d(1), of p1 "links cfg"] fold_separate [OF d(2), of p2 "links c"] by (simp add: U)
  moreover have "within (set p1) \<inter> across (set p2) (set p1) = {}" "across (set p2) (set p1) = across (set p1) (set p2)"
    using d by (auto simp: within_def across_def)
  ultimately have "links c' = links cfg - across (set p1) (set p2) \<union> within (set p1) \<union> within (set p2)" by auto
  then show ?thesis using c(1,2) c'(1,2) rewired_trans by (auto simp: partition_def)
qed

subsection \<open>New ends\<close>

lemma open_ends_from:
  assumes "for_each (\<lambda>(j, e) rn. do { rn' \<leftarrow> MakeEnd e rn; Some (Connect e j rn') }) (enumerate k es) rn = Some rn'"
  shows "distinct es \<and> (\<forall>e \<in> set es. ends rn e = None) \<and> (\<forall>e. ends rn' e \<noteq> None \<longleftrightarrow> e \<in> set es \<or> ends rn e \<noteq> None) \<and>
    (\<forall>j < length es. connections rn' (es ! j) = Some (Some (k + j))) \<and>
    (\<forall>e. e \<notin> set es \<longrightarrow> connections rn' e = connections rn e) \<and>
    (\<forall>e. enabled rn' e = (if e \<in> set es then Some False else enabled rn e)) \<and>
    Network.servers rn' = Network.servers rn \<and> objs rn' = objs rn"
  using assms
proof (induction es arbitrary: k rn)
  case (Cons e es)
  let ?f = "\<lambda>(j, e) rn. do { rn' \<leftarrow> MakeEnd e rn; Some (Connect e j rn') }"
  obtain r where r: "MakeEnd e rn = Some r" "for_each ?f (enumerate (Suc k) es) (Connect e k r) = Some rn'"
    using Cons.prems by (auto split: bind_splits)
  have e: "ends rn e = None" "ends (Connect e k r) = (ends rn)(e \<mapsto> e)" "connections (Connect e k r) = (connections rn)(e \<mapsto> Some k)"
    "enabled (Connect e k r) = (enabled rn)(e \<mapsto> False)" "Network.servers (Connect e k r) = Network.servers rn" "objs (Connect e k r) = objs rn"
    using r(1) by (auto simp: MakeEnd_def Connect_def split: if_splits)
  note IH = Cons.IH [OF r(2)]
  have ne: "e \<notin> set es" "\<forall>f \<in> set es. ends rn f = None" using IH e(2) by (auto split: if_splits)
  have "connections rn' ((e # es) ! j) = Some (Some (k + j))" if "j < length (e # es)" for j
    using IH e(3) ne(1) that by (cases j) auto
  then show ?case using IH e ne by auto
qed simp

lemma open_ends_Some:
  assumes "open_ends es rn = Some rn'"
  shows "distinct es" and "e \<in> set es \<Longrightarrow> ends rn e = None" and "ends rn' e \<noteq> None \<longleftrightarrow> e \<in> set es \<or> ends rn e \<noteq> None"
    and "j < length es \<Longrightarrow> connections rn' (es ! j) = Some (Some j)" and "e \<notin> set es \<Longrightarrow> connections rn' e = connections rn e"
    and "enabled rn' e = (if e \<in> set es then Some False else enabled rn e)"
    and "Network.servers rn' = Network.servers rn" and "objs rn' = objs rn"
  using open_ends_from [of 0 es rn rn'] assms by (auto simp: open_ends_def)

lemma open_ends_total:
  assumes "distinct es" and "\<forall>e \<in> set es. ends rn e = None"
  shows "open_ends es rn \<noteq> None"
proof -
  let ?f = "\<lambda>(j, e) rn. do { rn' \<leftarrow> MakeEnd e rn; Some (Connect e j rn') }"
  have "for_each ?f (enumerate k es) rn \<noteq> None" if "distinct es" "\<forall>e \<in> set es. ends rn e = None" for k es rn
    using that
  proof (induction es arbitrary: k rn)
    case (Cons e es)
    have "\<forall>f \<in> set es. ends (Connect e k (rn\<lparr>ends := (ends rn)(e \<mapsto> e), enabled := (enabled rn)(e \<mapsto> False),
        connections := (connections rn)(e \<mapsto> None)\<rparr>)) f = None" using Cons.prems by (auto simp: Connect_def)
    then show ?case using Cons by (simp add: MakeEnd_def)
  qed simp
  then show ?thesis using assms by (simp add: open_ends_def)
qed

text \<open>A row of new names in place of a row that was there or not.\<close>

lemma wired_new_row:
  assumes w: "wired cfg" and o: "open_ends es (kv_net cfg) = Some rn" and len: "length es = kv_n cfg"
    and row: "\<And>v. row v cfg' = (if v = w then Some es else row v cfg)"
    and same: "kv_n cfg' = kv_n cfg" "length (kvservers cfg') = kv_n cfg" "length (kv_saved cfg') = kv_n cfg"
      "length (kv_endnames cfg') = kv_n cfg" "ends (kv_net cfg') = ends rn" "connections (kv_net cfg') = connections rn"
    and ck: "\<And>ck. clerks cfg' ck \<noteq> None \<Longrightarrow> ck < kv_fresh cfg'"
  shows "wired cfg'" and "enabled (kv_net cfg') = enabled rn \<Longrightarrow> links cfg' = {(v, j) \<in> links cfg. v \<noteq> w}"
proof -
  note O = open_ends_Some [OF o]
  have E: "end_of v j cfg' = (if v = w then slot es j else end_of v j cfg)" for v j by (simp add: end_of_def row)
  have new: "e \<in> set es" "e = es ! j" "j < length es" if "slot es j = Some e" for j e using that by (auto simp: go_panic)
  have old: "e \<notin> set es" if "end_of v j cfg = Some e" for v j e using wiredD(6) [OF w that] O(2) [of e] by auto
  have "v = v' \<and> j = j'" if "end_of v j cfg' = Some e" "end_of v' j' cfg' = Some e" for v j v' j' e
    using that wiredD(5) [OF w, of v j e v' j'] old [of v j e] old [of v' j' e] new [of j e] new [of j' e] O(1)
    by (auto simp: E nth_eq_iff_index_eq split: if_splits)
  moreover have "ends (kv_net cfg') e \<noteq> None \<and> connections (kv_net cfg') e = Some (Some j)" if "end_of v j cfg' = Some e" for v j e
    using that new [of j e] old [of v j e] wiredD(6,7) [OF w, of v j e] O(3) [of e] O(4) [of j] O(5) [of e]
    by (auto simp: E same split: if_splits)
  moreover have "length fs = kv_n cfg'" if "row v cfg' = Some fs" for v fs
    using that wiredD(4) [OF w, of v fs] len by (auto simp: row same split: if_splits)
  ultimately show "wired cfg'" using same ck unfolding wired_def by auto
  show "links cfg' = {(v, j) \<in> links cfg. v \<noteq> w}" if "enabled (kv_net cfg') = enabled rn"
    using new old O(6) by (auto simp: links_def E that zget_def split: if_splits) metis+
qed

subsection \<open>Servers and clerks come and go\<close>

text \<open>The persister a restarted server is given.\<close>

definition last_saved :: "('v, 'c, 'a, 'b) kind \<Rightarrow> nat \<Rightarrow> ('v, 'c, 'a, 'b) kvconfig \<Rightarrow> 'c gobval Persister" where
  "last_saved K i cfg =
     (case kv_saved_get K (kv_saved cfg ! i) cfg of None \<Rightarrow> MakePersister | Some ps \<Rightarrow> Copy ps)"

lemma hostedD:
  assumes "hosted cfg" and "i < kv_n cfg"
  shows "zget None (Network.servers (kv_net cfg)) i = kvservers cfg ! i"
    and "kvservers cfg ! i = Some p \<longleftrightarrow> kv_saved cfg ! i = Shared p"
    and "kvservers cfg ! i = Some p \<Longrightarrow> kv_heap cfg p \<noteq> None \<and> p < kv_fresh cfg"
proof -
  show "zget None (Network.servers (kv_net cfg)) i = kvservers cfg ! i" "kvservers cfg ! i = Some p \<longleftrightarrow> kv_saved cfg ! i = Shared p"
    using assms unfolding hosted_def by blast+
  assume "kvservers cfg ! i = Some p"
  then have "kv_heap cfg p \<noteq> None" "kv_fresh cfg \<le> p \<longrightarrow> kv_heap cfg p = None" using assms unfolding hosted_def by blast+
  then show "kv_heap cfg p \<noteq> None \<and> p < kv_fresh cfg" by linarith
qed

text \<open>Under the invariant a persister that is not \<open>nil\<close> can be copied.\<close>

lemma saved_get_ok:
  assumes "hosted cfg" and "i < kv_n cfg" and "kv_saved cfg ! i \<noteq> Nil_saved"
  shows "kv_saved_get K (kv_saved cfg ! i) cfg \<noteq> None"
  using assms hostedD(2,3) [OF assms(1,2)] by (cases "kv_saved cfg ! i") (auto simp: kv_saved_get_def)

definition started_cfg ::
  "('v, 'c, 'a, 'b) kind \<Rightarrow> (nat \<Rightarrow> string) \<Rightarrow> int \<times> int \<times> int \<Rightarrow> nat \<Rightarrow> (string, nat, 'a, 'b, receiver) Network \<Rightarrow>
   ('v, 'c, 'a, 'b) kvconfig \<Rightarrow> ('v, 'c, 'a, 'b) kvconfig" where
  "started_cfg K names seed i rn cfg =
     (let p = kv_fresh cfg; (now, rnd1, rnd2) = seed in
      cfg\<lparr>kv_endnames := (kv_endnames cfg)[i := Some (map names [0..<kv_n cfg])],
          kv_saved := (kv_saved cfg)[i := Shared p], kvservers := (kvservers cfg)[i := Some p],
          kv_heap := (kv_heap cfg)(p \<mapsto> k_start K (kv_maxraftstate cfg) (kv_n cfg) (int i) (last_saved K i cfg) now rnd1 rnd2),
          kv_fresh := p + 1,
          kv_net := AddServer i p (rn\<lparr>objs := (objs rn)(p \<mapsto> AddService (MakeService ''Raft'' (Rf p) (r_methods K))
             (AddService (MakeService (k_name K) (Kv p) (k_methods K)) MakeServer))\<rparr>)\<rparr>)"

lemma StartServer_eq:
  assumes "wired cfg" and "hosted cfg" and "i < kv_n cfg"
  shows "StartServer K names seed i cfg =
    map_option (\<lambda>rn. started_cfg K names seed i rn cfg) (open_ends (map names [0..<kv_n cfg]) (kv_net cfg))"
proof -
  have "(if kv_saved cfg ! i = Nil_saved then Some MakePersister else map_option Copy (kv_saved_get K (kv_saved cfg ! i) cfg)) =
      Some (last_saved K i cfg)"
    using saved_get_ok [OF assms(2,3), of K] by (auto simp: last_saved_def kv_saved_get_def)
  then show ?thesis using assms(3) wiredD(1-3) [OF assms(1)]
    by (cases "open_ends (map names [0..<kv_n cfg]) (kv_net cfg)")
      (simp_all add: StartServer_def started_cfg_def Let_def split: prod.splits)
qed

lemma started_cfg_simps [simp]:
  "kv_n (started_cfg K names seed i rn cfg) = kv_n cfg"
  "kvservers (started_cfg K names seed i rn cfg) = (kvservers cfg)[i := Some (kv_fresh cfg)]"
  "kv_saved (started_cfg K names seed i rn cfg) = (kv_saved cfg)[i := Shared (kv_fresh cfg)]"
  "kv_endnames (started_cfg K names seed i rn cfg) = (kv_endnames cfg)[i := Some (map names [0..<kv_n cfg])]"
  "clerks (started_cfg K names seed i rn cfg) = clerks cfg"
  "kv_fresh (started_cfg K names seed i rn cfg) = kv_fresh cfg + 1"
  "ends (kv_net (started_cfg K names seed i rn cfg)) = ends rn"
  "connections (kv_net (started_cfg K names seed i rn cfg)) = connections rn"
  "enabled (kv_net (started_cfg K names seed i rn cfg)) = enabled rn"
  "Network.servers (kv_net (started_cfg K names seed i rn cfg)) = (Network.servers rn)(i \<mapsto> Some (kv_fresh cfg))"
  "kv_heap (started_cfg K names seed i rn cfg) = (kv_heap cfg)(kv_fresh cfg \<mapsto>
     (case seed of (now, rnd1, rnd2) \<Rightarrow> k_start K (kv_maxraftstate cfg) (kv_n cfg) (int i) (last_saved K i cfg) now rnd1 rnd2))"
  "kv_maxraftstate (started_cfg K names seed i rn cfg) = kv_maxraftstate cfg"
  by (simp_all add: started_cfg_def Let_def AddServer_def split: prod.splits)

lemma started_row:
  assumes "wired cfg" and "i < kv_n cfg"
  shows "row v (started_cfg K names seed i rn cfg) = (if v = Srv i then Some (map names [0..<kv_n cfg]) else row v cfg)"
  using assms wiredD(3) [OF assms(1)] by (cases v) (auto simp: row_def slot_def)

lemma hosted_started:
  assumes "wired cfg" and "hosted cfg" and "i < kv_n cfg" and "Network.servers rn = Network.servers (kv_net cfg)"
  shows "hosted (started_cfg K names seed i rn cfg)"
  unfolding hosted_def
proof (intro conjI allI impI)
  fix k p assume k: "k < kv_n (started_cfg K names seed i rn cfg)"
  note H = hostedD [OF assms(2), of k] and len = wiredD(1,2) [OF assms(1)]
  show "zget None (Network.servers (kv_net (started_cfg K names seed i rn cfg))) k = kvservers (started_cfg K names seed i rn cfg) ! k"
    "kvservers (started_cfg K names seed i rn cfg) ! k = Some p \<longleftrightarrow> kv_saved (started_cfg K names seed i rn cfg) ! k = Shared p"
    using H(1,2) k len assms(3,4) by (cases "k = i"; auto simp: zget_def)+
  show "kv_heap (started_cfg K names seed i rn cfg) p \<noteq> None" if "kvservers (started_cfg K names seed i rn cfg) ! k = Some p"
    using H(3) [of p] k len that assms(3) by (cases "k = i") auto
next
  fix p assume "kv_fresh (started_cfg K names seed i rn cfg) \<le> p"
  then show "kv_heap (started_cfg K names seed i rn cfg) p = None" using assms(2) by (auto simp: hosted_def)
qed

lemma StartServer_effect:
  assumes w: "wired cfg" and h: "hosted cfg" and i: "i < kv_n cfg" and s: "StartServer K names seed i cfg = Some cfg'"
  shows "\<exists>rn. cfg' = started_cfg K names seed i rn cfg" and "wired cfg'" and "hosted cfg'"
    and "links cfg' = {(v, j) \<in> links cfg. v \<noteq> Srv i}"
    and "all_started cfg \<Longrightarrow> all_started cfg'"
proof -
  obtain rn where rn: "open_ends (map names [0..<kv_n cfg]) (kv_net cfg) = Some rn" "cfg' = started_cfg K names seed i rn cfg"
    using s by (auto simp: StartServer_eq [OF w h i])
  show "\<exists>rn. cfg' = started_cfg K names seed i rn cfg" using rn(2) by blast
  note R = started_row [OF w i, of _ K names seed rn]
  have ck: "clerks (started_cfg K names seed i rn cfg) ck \<noteq> None \<Longrightarrow> ck < kv_fresh (started_cfg K names seed i rn cfg)" for ck
    using wiredD(8) [OF w, of ck] by simp
  have "wired (started_cfg K names seed i rn cfg)" "links (started_cfg K names seed i rn cfg) = {(v, j) \<in> links cfg. v \<noteq> Srv i}"
    using wired_new_row [OF w rn(1) _ R _ _ _ _ _ _ ck] wiredD(1-3) [OF w] by simp_all
  then show "wired cfg'" "links cfg' = {(v, j) \<in> links cfg. v \<noteq> Srv i}" using rn(2) by simp_all
  show "hosted cfg'" using hosted_started [OF w h i open_ends_Some(7) [OF rn(1)]] rn(2) by simp
  show "all_started cfg'" if "all_started cfg" using that R rn(2) by (simp add: all_started_def)
qed

lemma StartServer_total:
  assumes "wired cfg" and "hosted cfg" and "i < kv_n cfg" and "inj_on names {..<kv_n cfg}"
    and "\<And>j. j < kv_n cfg \<Longrightarrow> ends (kv_net cfg) (names j) = None"
  shows "StartServer K names seed i cfg \<noteq> None"
  unfolding StartServer_eq [OF assms(1-3)]
  using open_ends_total [of "map names [0..<kv_n cfg]" "kv_net cfg"] assms(4,5)
  by (auto simp: distinct_map lessThan_atLeast0)

definition stopped_cfg :: "('v, 'c, 'a, 'b) kind \<Rightarrow> nat \<Rightarrow> ('v, 'c, 'a, 'b) kvconfig \<Rightarrow> ('v, 'c, 'a, 'b) kvconfig" where
  "stopped_cfg K i cfg =
     cfg\<lparr>kv_net := DeleteServer i (kv_net cfg),
         kv_saved := (kv_saved cfg)[i := if kv_saved cfg ! i = Nil_saved then Nil_saved else Own (last_saved K i cfg)],
         kvservers := (kvservers cfg)[i := None],
         kv_heap := (case kvservers cfg ! i of None \<Rightarrow> kv_heap cfg
                     | Some p \<Rightarrow> (kv_heap cfg)(p := map_option (k_kill K) (kv_heap cfg p)))\<rparr>"

lemma ShutdownServer_eq:
  assumes "ready cfg n" and "hosted cfg" and "i < n"
  shows "\<exists>c. rewired cfg c \<and> links c = links cfg - both_ways i {..<n} \<and> ShutdownServer K i cfg = Some (stopped_cfg K i c)"
proof -
  have w: "wired cfg" "all_started cfg" "kv_n cfg = n" using assms(1) by (simp_all add: ready_def)
  obtain c where c: "disconnectUnlocked i (All cfg) cfg = Some c" "rewired cfg c" "links c = links cfg - both_ways i {..<n}"
    using disconnectUnlocked_links [OF w(1,2), of i "All cfg"] w(3) assms(3) by (auto simp: All_def lessThan_atLeast0)
  let ?c = "c\<lparr>kv_net := DeleteServer i (kv_net c)\<rparr>"
  have h: "hosted c" and wc: "wired c" and n: "kv_n c = n" using assms(2) w rewired_inv [OF c(2)] rewiredD(1) [OF c(2)] by simp_all
  have i: "i < kv_n c" using assms(3) n by simp
  have "kv_saved_get K (kv_saved c ! i) ?c = kv_saved_get K (kv_saved c ! i) c" by (simp add: kv_saved_get_def split: saved.splits)
  then have "(if kv_saved c ! i = Nil_saved then Some Nil_saved else map_option (\<lambda>ps. Own (Copy ps)) (kv_saved_get K (kv_saved c ! i) ?c)) =
      Some (if kv_saved c ! i = Nil_saved then Nil_saved else Own (last_saved K i c))"
    using saved_get_ok [OF h i, of K] by (auto simp: last_saved_def)
  then have "ShutdownServer K i cfg = Some (stopped_cfg K i c)"
    using c(1) i wiredD(1,2) [OF wc] by (auto simp: ShutdownServer_def stopped_cfg_def kill_server_def Let_def list_update_same_conv
        split: option.split intro!: kvconfig.equality list_update_same_conv [THEN iffD2, symmetric])
  then show ?thesis using c by blast
qed

lemma stopped_cfg_simps [simp]:
  "kv_n (stopped_cfg K i cfg) = kv_n cfg" "row w (stopped_cfg K i cfg) = row w cfg" "end_of w j (stopped_cfg K i cfg) = end_of w j cfg"
  "links (stopped_cfg K i cfg) = links cfg" "clerks (stopped_cfg K i cfg) = clerks cfg" "kv_fresh (stopped_cfg K i cfg) = kv_fresh cfg"
  "kv_maxraftstate (stopped_cfg K i cfg) = kv_maxraftstate cfg"
proof -
  show row: "row w (stopped_cfg K i cfg) = row w cfg" for w by (simp add: stopped_cfg_def row_def split: owner.split)
  show e: "end_of w j (stopped_cfg K i cfg) = end_of w j cfg" for w j by (simp add: end_of_def row)
  have "enabled (kv_net (stopped_cfg K i cfg)) = enabled (kv_net cfg)" by (simp add: stopped_cfg_def DeleteServer_def)
  then show "links (stopped_cfg K i cfg) = links cfg" by (simp add: links_def e)
qed (simp_all add: stopped_cfg_def)

lemma stopped_ends: "ends (kv_net (stopped_cfg K i cfg)) = ends (kv_net cfg)"
  by (simp add: stopped_cfg_def DeleteServer_def)

lemma stopped_inv:
  assumes "wired cfg" and "hosted cfg" and "i < kv_n cfg"
  shows "wired (stopped_cfg K i cfg)" and "hosted (stopped_cfg K i cfg)"
proof -
  have net: "ends (kv_net (stopped_cfg K i cfg)) = ends (kv_net cfg)" "connections (kv_net (stopped_cfg K i cfg)) = connections (kv_net cfg)"
    "length (kvservers (stopped_cfg K i cfg)) = length (kvservers cfg)" "length (kv_saved (stopped_cfg K i cfg)) = length (kv_saved cfg)"
    "kv_endnames (stopped_cfg K i cfg) = kv_endnames cfg"
    by (simp_all add: stopped_cfg_def DeleteServer_def)
  show "wired (stopped_cfg K i cfg)" using assms(1) unfolding wired_def net stopped_cfg_simps .
  show "hosted (stopped_cfg K i cfg)"
    unfolding hosted_def
  proof (intro conjI allI impI)
    fix k p assume k: "k < kv_n (stopped_cfg K i cfg)"
    note H = hostedD [OF assms(2), of k] and len = wiredD(1,2) [OF assms(1)]
    show "zget None (Network.servers (kv_net (stopped_cfg K i cfg))) k = kvservers (stopped_cfg K i cfg) ! k"
      "kvservers (stopped_cfg K i cfg) ! k = Some p \<longleftrightarrow> kv_saved (stopped_cfg K i cfg) ! k = Shared p"
      using H(1,2) k len assms(3) by (cases "k = i"; auto simp: stopped_cfg_def DeleteServer_def zget_def)+
    show "kv_heap (stopped_cfg K i cfg) p \<noteq> None" if "kvservers (stopped_cfg K i cfg) ! k = Some p"
      using H(3) [of p] k len that assms(3) by (cases "k = i") (auto simp: stopped_cfg_def split: option.split)
  next
    fix p assume "kv_fresh (stopped_cfg K i cfg) \<le> p"
    then show "kv_heap (stopped_cfg K i cfg) p = None" using assms(2) by (auto simp: hosted_def stopped_cfg_def split: option.split)
  qed
qed

lemma client_links:
  assumes "wired cfg" and "clerks cfg ck \<noteq> None" and "set js \<subseteq> {..<kv_n cfg}"
  shows "\<exists>cfg'. for_each (\<lambda>j. switch b (Clk ck) j) js cfg = Some cfg' \<and> rewired cfg cfg' \<and>
    links cfg' = (if b then links cfg \<union> Pair (Clk ck) ` set js else links cfg - Pair (Clk ck) ` set js)"
proof -
  have "end_of w j cfg \<noteq> None" if "(w, j) \<in> set (map (Pair (Clk ck)) js)" for w j
    using that assms(2,3) end_of_row [OF assms(1), of "Clk ck" j] by (auto simp: row_def)
  then show ?thesis using switches_links [OF assms(1), of "map (Pair (Clk ck)) js" b] by (cases b) (simp_all add: for_each_map)
qed

lemma makeClient_effect:
  assumes r: "ready cfg n" and h: "hosted cfg" and to: "set to \<subseteq> {..<n}"
    and m: "makeClient rs names to cfg = Some (cfg', ck, hs)"
  shows "ready cfg' n" and "hosted cfg'" and "links cfg' = links cfg \<union> Pair (Clk ck) ` set to"
    and "clerks cfg' = (clerks cfg)(ck \<mapsto> map names [0..<n])" and "clerks cfg ck = None"
    and "random_handles rs (map names [0..<n]) = Some hs"
    and "kvservers cfg' = kvservers cfg" and "kv_heap cfg' = kv_heap cfg"
proof -
  have w: "wired cfg" "all_started cfg" "kv_n cfg = n" using r by (simp_all add: ready_def)
  let ?es = "map names [0..<n]"
  obtain rn where rn: "open_ends ?es (kv_net cfg) = Some rn" "random_handles rs ?es = Some hs" "ck = kv_fresh cfg"
    "ConnectClientUnlocked ck to (cfg\<lparr>kv_net := rn, clerks := (clerks cfg)(ck \<mapsto> ?es), nextClientId := nextClientId cfg + 1,
       kv_fresh := ck + 1\<rparr>) = Some cfg'" (is "ConnectClientUnlocked ck to ?c = _")
    using m w(3) by (auto simp: makeClient_def Let_def split: bind_splits)
  have new: "clerks cfg ck = None" using wiredD(8) [OF w(1), of ck] rn(3) by (cases "clerks cfg ck") auto
  have R: "row v ?c = (if v = Clk ck then Some ?es else row v cfg)" for v by (auto simp: row_def split: owner.split)
  have "\<And>k. clerks ?c k \<noteq> None \<Longrightarrow> k < kv_fresh ?c" using wiredD(8) [OF w(1)] rn(3) by (auto simp: less_Suc_eq)
  then have c: "wired ?c" "links ?c = {(v, j) \<in> links cfg. v \<noteq> Clk ck}"
    using wired_new_row [OF w(1) rn(1) _ R] wiredD(1-3) [OF w(1)] w(3) by simp_all
  have "links cfg \<inter> {(v, j). v = Clk ck} = {}" using new by (auto simp: links_def end_of_def row_def)
  then have L: "links ?c = links cfg" using c(2) by auto
  obtain d where d: "Some cfg' = Some d" "rewired ?c d" "links d = links ?c \<union> Pair (Clk ck) ` set to"
    using client_links [OF c(1), of ck to True] to w(3) rn(4) by (auto simp: ConnectClientUnlocked_def)
  have rc: "ready ?c n" using c(1) w(2,3) by (auto simp: ready_def all_started_def row_def)
  have hc: "hosted ?c" using h open_ends_Some(7) [OF rn(1)] rn(3) by (auto simp: hosted_def)
  show "ready cfg' n" "hosted cfg'" using ready_rewired [OF rc d(2)] rewired_inv(2) [OF d(2)] hc d(1) by simp_all
  show "links cfg' = links cfg \<union> Pair (Clk ck) ` set to" using d L by simp
  show "clerks cfg' = (clerks cfg)(ck \<mapsto> ?es)" "kvservers cfg' = kvservers cfg" "kv_heap cfg' = kv_heap cfg"
    using d(1) rewiredD(2,5,6) [OF d(2)] by simp_all
  show "clerks cfg ck = None" by (rule new)
  show "random_handles rs ?es = Some hs" by (rule rn(2))
qed

lemma makeClient_total:
  assumes "ready cfg n" and "set to \<subseteq> {..<n}" and "\<And>i. rs i \<le> i" and "inj_on names {..<n}"
    and "\<And>j. j < n \<Longrightarrow> ends (kv_net cfg) (names j) = None"
  shows "makeClient rs names to cfg \<noteq> None"
proof -
  have w: "wired cfg" "kv_n cfg = n" using assms(1) by (simp_all add: ready_def)
  let ?es = "map names [0..<n]" and ?ck = "kv_fresh cfg"
  have "open_ends ?es (kv_net cfg) \<noteq> None"
    using open_ends_total [of ?es "kv_net cfg"] assms(4,5) by (auto simp: distinct_map lessThan_atLeast0)
  then obtain rn where rn: "open_ends ?es (kv_net cfg) = Some rn" by blast
  obtain hs where hs: "random_handles rs ?es = Some hs" using random_handles_perm [of ?es rs] assms(3) by blast
  let ?c = "cfg\<lparr>kv_net := rn, clerks := (clerks cfg)(?ck \<mapsto> ?es), nextClientId := nextClientId cfg + 1, kv_fresh := ?ck + 1\<rparr>"
  have R: "row v ?c = (if v = Clk ?ck then Some ?es else row v cfg)" for v by (auto simp: row_def split: owner.split)
  have "\<And>k. clerks ?c k \<noteq> None \<Longrightarrow> k < kv_fresh ?c" using wiredD(8) [OF w(1)] by (auto simp: less_Suc_eq)
  then have "wired ?c" using wired_new_row(1) [OF w(1) rn _ R] wiredD(1-3) [OF w(1)] w(2) by simp
  then obtain d where "ConnectClientUnlocked ?ck to ?c = Some d"
    using client_links [of ?c ?ck to True] assms(2) w(2) by (auto simp: ConnectClientUnlocked_def)
  then show ?thesis using rn hs w(2) by (simp add: makeClient_def)
qed

lemma deleteClient_effect:
  assumes "ready cfg n" and "hosted cfg"
  shows "ready (fst (deleteClient ck cfg)) n" and "hosted (fst (deleteClient ck cfg))"
    and "links (fst (deleteClient ck cfg)) = {(w, j) \<in> links cfg. w \<noteq> Clk ck}"
proof -
  let ?c = "fst (deleteClient ck cfg)"
  have c: "?c = cfg\<lparr>clerks := (clerks cfg)(ck := None)\<rparr>" by (simp add: deleteClient_def)
  have R: "row w ?c = (if w = Clk ck then None else row w cfg)" for w by (auto simp: c row_def split: owner.split)
  have E: "end_of w j ?c = (if w = Clk ck then None else end_of w j cfg)" for w j by (simp add: end_of_def R)
  have w: "wired cfg" using assms(1) by (simp add: ready_def)
  have "wired ?c"
    unfolding wired_def R E using wiredD [OF w] by (auto simp: c split: if_splits)
  then show "ready ?c n" using assms(1) R by (simp add: ready_def all_started_def c)
  show "hosted ?c" using assms(2) by (simp add: hosted_def c)
  show "links ?c = {(w, j) \<in> links cfg. w \<noteq> Clk ck}" by (auto simp: links_def E) (auto simp: c)
qed

subsection \<open>Runs of the harness\<close>

text \<open>
  A fresh harness, then the operations a test may call, in any order; between them the servers work,
  which may change any object in the heap.
\<close>

inductive kv_step :: "('v, 'c, 'a, 'b) kind \<Rightarrow> ('v, 'c, 'a, 'b) kvconfig \<Rightarrow> ('v, 'c, 'a, 'b) kvconfig \<Rightarrow> bool" for K where
  connect: "connectUnlocked i to cfg = Some cfg' \<Longrightarrow> kv_step K cfg cfg'"
| disconnect: "disconnectUnlocked i from cfg = Some cfg' \<Longrightarrow> kv_step K cfg cfg'"
| connect_all: "ConnectAll cfg = Some cfg' \<Longrightarrow> kv_step K cfg cfg'"
| partition: "partition p1 p2 cfg = Some cfg' \<Longrightarrow> kv_step K cfg cfg'"
| client: "set to \<subseteq> {..<kv_n cfg} \<Longrightarrow> makeClient rs names to cfg = Some (cfg', ck, hs) \<Longrightarrow> kv_step K cfg cfg'"
| delete: "kv_step K cfg (fst (deleteClient ck cfg))"
| connect_client: "ConnectClientUnlocked ck to cfg = Some cfg' \<Longrightarrow> kv_step K cfg cfg'"
| disconnect_client: "DisconnectClientUnlocked ck from cfg = Some cfg' \<Longrightarrow> kv_step K cfg cfg'"
| shutdown: "i < kv_n cfg \<Longrightarrow> ShutdownServer K i cfg = Some cfg' \<Longrightarrow> kv_step K cfg cfg'"
| start: "i < kv_n cfg \<Longrightarrow> StartServer K names seed i cfg = Some cfg' \<Longrightarrow> kv_step K cfg cfg'"
| work: "kv_heap cfg p = Some v \<Longrightarrow> kv_step K cfg (cfg\<lparr>kv_heap := (kv_heap cfg)(p \<mapsto> v')\<rparr>)"

inductive kv_reach :: "('v, 'c, 'a, 'b) kind \<Rightarrow> nat \<Rightarrow> ('v, 'c, 'a, 'b) kvconfig \<Rightarrow> bool" for K n where
  boot: "kv_make_config K names seeds n unreliable mx = Some cfg \<Longrightarrow> kv_reach K n cfg"
| step: "kv_reach K n cfg \<Longrightarrow> kv_step K cfg cfg' \<Longrightarrow> kv_reach K n cfg'"

lemma switch_rewired: "switch b w j cfg = Some cfg' \<Longrightarrow> rewired cfg cfg'"
  by (auto simp: switch_def rewired_def split: bind_splits)

lemma loop_rewired:
  assumes "for_each f xs s = Some s'" and "\<And>x t t'. f x t = Some t' \<Longrightarrow> rewired t t'"
  shows "rewired s s'"
  by (rule for_each_inv [OF assms(1), of "rewired s"]) (simp, rule rewired_trans, assumption, rule assms(2))

lemma connectUnlocked_rewired: "connectUnlocked i to cfg = Some cfg' \<Longrightarrow> rewired cfg cfg'"
  by (auto simp: connectUnlocked_def split: bind_splits dest!: loop_rewired intro: switch_rewired rewired_trans)

lemma disconnectUnlocked_rewired: "disconnectUnlocked i from cfg = Some cfg' \<Longrightarrow> rewired cfg cfg'"
proof -
  assume "disconnectUnlocked i from cfg = Some cfg'"
  moreover have "disconnect_row k i j c = Some c' \<Longrightarrow> rewired c c'" for k i j and c c' :: "('a, 'b, 'c, 'd) kvconfig"
    by (auto simp: disconnect_row_def switch_rewired split: bind_splits if_splits)
  ultimately show ?thesis
    by (auto simp: disconnectUnlocked_def split: bind_splits dest!: loop_rewired intro: rewired_trans)
qed

lemma separate_rewired: "separate own other i cfg = Some cfg' \<Longrightarrow> rewired cfg cfg'"
  by (auto simp: separate_def split: bind_splits intro: rewired_trans disconnectUnlocked_rewired connectUnlocked_rewired)

lemma partition_rewired: "partition p1 p2 cfg = Some cfg' \<Longrightarrow> rewired cfg cfg'"
  by (auto simp: partition_def split: bind_splits dest!: loop_rewired intro: separate_rewired rewired_trans)

lemma ConnectAll_rewired: "ConnectAll cfg = Some cfg' \<Longrightarrow> rewired cfg cfg'"
  by (auto simp: ConnectAll_def dest!: loop_rewired intro: connectUnlocked_rewired)

lemma client_rewired:
  "ConnectClientUnlocked ck to cfg = Some cfg' \<Longrightarrow> rewired cfg cfg'"
  "DisconnectClientUnlocked ck to cfg = Some cfg' \<Longrightarrow> rewired cfg cfg'"
  by (auto simp: ConnectClientUnlocked_def DisconnectClientUnlocked_def dest!: loop_rewired intro: switch_rewired)

lemma heap_simps:
  "row w (cfg\<lparr>kv_heap := h\<rparr>) = row w cfg" "end_of w j (cfg\<lparr>kv_heap := h\<rparr>) = end_of w j cfg"
  "wired (cfg\<lparr>kv_heap := h\<rparr>) = wired cfg" "ready (cfg\<lparr>kv_heap := h\<rparr>) n = ready cfg n"
proof -
  show row: "row w (cfg\<lparr>kv_heap := h\<rparr>) = row w cfg" for w by (simp add: row_def split: owner.split)
  show e: "end_of w j (cfg\<lparr>kv_heap := h\<rparr>) = end_of w j cfg" for w j by (simp add: end_of_def row)
  show "wired (cfg\<lparr>kv_heap := h\<rparr>) = wired cfg" by (simp add: wired_def row e)
  then show "ready (cfg\<lparr>kv_heap := h\<rparr>) n = ready cfg n" by (simp add: ready_def all_started_def row)
qed

lemma kv_step_inv:
  assumes "kv_step K cfg cfg'" and inv: "ready cfg n" "hosted cfg"
  shows "ready cfg' n \<and> hosted cfg'"
proof -
  have rew: ?thesis if "rewired cfg cfg'" using that inv ready_rewired [OF inv(1)] rewired_inv(2) [OF that] by simp
  have n: "kv_n cfg = n" "wired cfg" "all_started cfg" using inv(1) by (simp_all add: ready_def)
  show ?thesis
    using assms(1)
  proof (cases rule: kv_step.cases)
    case (client to rs names ck hs)
    then show ?thesis using makeClient_effect(1,2) [OF inv] n(1) by simp
  next
    case (delete ck)
    then show ?thesis using deleteClient_effect(1,2) [OF inv] by simp
  next
    case (shutdown i)
    then obtain c where c: "rewired cfg c" "cfg' = stopped_cfg K i c"
      using ShutdownServer_eq [OF inv, of i K] n(1) by auto
    have "ready c n" "hosted c" using ready_rewired [OF inv(1) c(1)] rewired_inv(2) [OF c(1)] inv(2) by simp_all
    then show ?thesis using c(2) stopped_inv [of c i K] shutdown(1) n(1) by (simp add: ready_def all_started_def)
  next
    case (start i names seed)
    note S = StartServer_effect [OF n(2) inv(2) start]
    then show ?thesis using n(1,3) by (auto simp: ready_def)
  next
    case (work p v v')
    have "ready cfg' n" using inv(1) by (simp add: work(1) heap_simps)
    moreover have "hosted cfg'" using inv(2) work(2) by (auto simp: work(1) hosted_def)
    ultimately show ?thesis by blast
  qed (erule connectUnlocked_rewired [THEN rew] disconnectUnlocked_rewired [THEN rew] ConnectAll_rewired [THEN rew]
      partition_rewired [THEN rew] client_rewired [THEN rew])+
qed

text \<open>Starting the servers one after the other.\<close>

definition kv_booted :: "('v, 'c, 'a, 'b) kind \<Rightarrow> (nat \<Rightarrow> int \<times> int \<times> int) \<Rightarrow> nat \<Rightarrow> int \<Rightarrow> nat \<Rightarrow> ('v, 'c, 'a, 'b) kvconfig \<Rightarrow> bool" where
  "kv_booted K seeds n mx k cfg \<longleftrightarrow>
     wired cfg \<and> hosted cfg \<and> kv_n cfg = n \<and> kv_maxraftstate cfg = mx \<and> kv_fresh cfg = k \<and> links cfg = {} \<and>
     (\<forall>i < n. k \<le> i \<longrightarrow> kv_saved cfg ! i = Nil_saved) \<and>
     (\<forall>i < k. row (Srv i) cfg \<noteq> None \<and> kvservers cfg ! i = Some i \<and>
        kv_heap cfg i = Some (case seeds i of (now, rnd1, rnd2) \<Rightarrow> k_start K mx n (int i) MakePersister now rnd1 rnd2))"

lemma kv_booted_0: "kv_booted K seeds n mx 0 (kv_config0 n mx)"
proof -
  have "row w (kv_config0 n mx :: ('a, 'b, 'c, 'd) kvconfig) = None" for w
    by (auto simp: row_def kv_config0_def slot_def split: owner.splits)
  then show ?thesis
    by (simp add: kv_booted_def wired_def hosted_def links_def end_of_def) (simp add: kv_config0_def MakeNetwork_def zget_def)
qed

lemma kv_boot_step:
  assumes b: "kv_booted K seeds n mx k cfg" and k: "k < n" and s: "StartServer K names (seeds k) k cfg = Some cfg'"
  shows "kv_booted K seeds n mx (Suc k) cfg'"
proof -
  have c: "wired cfg" "hosted cfg" "kv_n cfg = n" "kv_fresh cfg = k" "kv_maxraftstate cfg = mx" "links cfg = {}"
    "kv_saved cfg ! k = Nil_saved" using b k by (simp_all add: kv_booted_def)
  have i: "k < kv_n cfg" using k c(3) by simp
  note S = StartServer_effect [OF c(1,2) i s]
  obtain rn where rn: "cfg' = started_cfg K names (seeds k) k rn cfg" using S(1) by blast
  have "last_saved K k cfg = MakePersister" using c(7) by (simp add: last_saved_def kv_saved_get_def)
  then show ?thesis
    using b k S(2-4) c wiredD(1,2) [OF c(1)] started_row [OF c(1) i, of _ K names "seeds k" rn]
    by (auto simp: kv_booted_def rn less_Suc_eq nth_list_update)
qed

lemma kv_boot_all:
  assumes "for_each (\<lambda>i. StartServer K (names i) (seeds i) i) [0..<k] (kv_config0 n mx) = Some cfg" and "k \<le> n"
  shows "kv_booted K seeds n mx k cfg"
  using assms
proof (induction k arbitrary: cfg)
  case 0
  then show ?case using kv_booted_0 [of K seeds n mx] by simp
next
  case (Suc k)
  obtain c where c: "for_each (\<lambda>i. StartServer K (names i) (seeds i) i) [0..<k] (kv_config0 n mx) = Some c"
    "StartServer K (names k) (seeds k) k c = Some cfg" using Suc.prems(1) by (auto simp: for_each_append split: bind_splits)
  show ?case by (rule kv_boot_step [OF Suc.IH [OF c(1)] _ c(2)]) (use Suc.prems in auto)
qed

lemma kv_booted_ready: "kv_booted K seeds n mx n cfg \<Longrightarrow> ready cfg n"
  by (simp add: kv_booted_def ready_def all_started_def)

lemma reliable_simps [simp]:
  "end_of w j (cfg\<lparr>kv_net := Reliable b rn\<rparr>) = end_of w j cfg" "enabled (Reliable b rn) = enabled rn"
  "ends (Reliable b rn) = ends rn" "connections (Reliable b rn) = connections rn" "Network.servers (Reliable b rn) = Network.servers rn"
  "objs (Reliable b rn) = objs rn" "reliable (Reliable b rn) = b"
  by (simp_all add: Reliable_def)

lemma make_config_Some:
  assumes "kv_make_config K names seeds n unreliable mx = Some cfg"
  shows "ready cfg n" and "hosted cfg" and "links cfg = {(Srv i, j) | i j. i < n \<and> j < n}" and "reliable (kv_net cfg) = (\<not> unreliable)"
    and "i < n \<Longrightarrow> kvservers cfg ! i = Some i \<and>
      kv_heap cfg i = Some (case seeds i of (now, rnd1, rnd2) \<Rightarrow> k_start K mx n (int i) MakePersister now rnd1 rnd2)"
proof -
  obtain c1 c2 where c: "for_each (\<lambda>i. StartServer K (names i) (seeds i) i) [0..<n] (kv_config0 n mx) = Some c1"
    "ConnectAll c1 = Some c2" "cfg = c2\<lparr>kv_net := Reliable (\<not> unreliable) (kv_net c2)\<rparr>"
    using assms by (auto simp: kv_make_config_def split: bind_splits)
  have b: "kv_booted K seeds n mx n c1" by (rule kv_boot_all [OF c(1) order_refl])
  have r: "rewired c1 c2" "links c2 = {(Srv i, j) | i j. i < n \<and> j < n}"
    using ConnectAll_links [OF kv_booted_ready [OF b]] c(2) b by (auto simp: kv_booted_def)
  have c3: "rewired c2 cfg" using c(3) by (auto simp: rewired_def)
  show "ready cfg n" by (rule ready_rewired [OF ready_rewired [OF kv_booted_ready [OF b] r(1)] c3])
  show "hosted cfg" using b rewired_inv(2) [OF r(1)] rewired_inv(2) [OF c3] by (simp add: kv_booted_def)
  show "links cfg = {(Srv i, j) | i j. i < n \<and> j < n}" using r(2) c(3) by (simp add: links_def)
  show "reliable (kv_net cfg) = (\<not> unreliable)" using c(3) by simp
  show "kvservers cfg ! i = Some i \<and>
      kv_heap cfg i = Some (case seeds i of (now, rnd1, rnd2) \<Rightarrow> k_start K mx n (int i) MakePersister now rnd1 rnd2)" if "i < n"
    using that b rewiredD(2,6) [OF r(1)] rewiredD(2,6) [OF c3] by (simp add: kv_booted_def)
qed

lemma kv_reach_inv: "kv_reach K n cfg \<Longrightarrow> ready cfg n \<and> hosted cfg"
  by (induction rule: kv_reach.induct) (use make_config_Some(1,2) kv_step_inv in blast)+

lemma make_config_total:
  assumes "distinct_names names n"
  shows "\<exists>cfg. kv_make_config K names seeds n unreliable mx = Some cfg \<and>
    (\<forall>e. ends (kv_net cfg) e \<noteq> None \<longrightarrow> (\<exists>i < n. \<exists>j < n. e = names i j))"
proof -
  let ?loop = "\<lambda>k. for_each (\<lambda>i. StartServer K (names i) (seeds i) i) [0..<k] (kv_config0 n mx)"
  have "\<exists>c. ?loop k = Some c \<and> (\<forall>e. ends (kv_net c) e \<noteq> None \<longrightarrow> (\<exists>i < k. \<exists>j < n. e = names i j))" if "k \<le> n" for k
    using that
  proof (induction k)
    case 0
    then show ?case by (simp add: kv_config0_def MakeNetwork_def)
  next
    case (Suc k)
    then obtain c where c: "?loop k = Some c" "\<And>e. ends (kv_net c) e \<noteq> None \<Longrightarrow> \<exists>i < k. \<exists>j < n. e = names i j" by auto
    have b: "kv_booted K seeds n mx k c" by (rule kv_boot_all [OF c(1)]) (use Suc.prems in simp)
    then have w: "wired c" "hosted c" "kv_n c = n" "k < kv_n c" using Suc.prems by (simp_all add: kv_booted_def)
    have new: "ends (kv_net c) (names k j) = None" if "j < n" for j
    proof (rule ccontr)
      assume "ends (kv_net c) (names k j) \<noteq> None"
      then obtain i j' where "i < k" "j' < n" "names k j = names i j'" using c(2) by blast
      then show False using distinct_namesD [OF assms, of k j i j'] that Suc.prems by simp
    qed
    have inj: "inj_on (names k) {..<kv_n c}" using distinct_namesD [OF assms, of k _ k] Suc.prems w(3) by (auto simp: inj_on_def)
    have "StartServer K (names k) (seeds k) k c \<noteq> None" by (rule StartServer_total [OF w(1,2,4) inj]) (use new w(3) in simp)
    then obtain rn where rn: "open_ends (map (names k) [0..<n]) (kv_net c) = Some rn"
      "StartServer K (names k) (seeds k) k c = Some (started_cfg K (names k) (seeds k) k rn c)"
      using StartServer_eq [OF w(1,2,4), of K "names k" "seeds k"] w(3) by auto
    have "\<exists>i < Suc k. \<exists>j < n. e = names i j" if "ends rn e \<noteq> None" for e
    proof -
      have "e \<in> names k ` {..<n} \<or> ends (kv_net c) e \<noteq> None"
        using that open_ends_Some(3) [OF rn(1), of e] by (simp add: lessThan_atLeast0)
      then show ?thesis using c(2) [of e] by (metis imageE lessThan_iff less_SucI lessI)
    qed
    then show ?case using c(1) rn(2) by (simp add: for_each_append)
  qed
  then obtain c where c: "?loop n = Some c" "\<forall>e. ends (kv_net c) e \<noteq> None \<longrightarrow> (\<exists>i < n. \<exists>j < n. e = names i j)" by blast
  then show ?thesis using ConnectAll_links [OF kv_booted_ready [OF kv_boot_all [OF c(1) order_refl]]] rewiredD(11)
    by (fastforce simp: kv_make_config_def)
qed

subsection \<open>What the network passes on\<close>

text \<open>An end in use passes requests exactly when it is switched on and its server runs.\<close>

lemma links_admit:
  assumes "kv_reach K n cfg" and e: "end_of w j cfg = Some e"
  shows "admit r1 e (kv_net cfg) = Admitted j p (reliable (kv_net cfg)) (longReordering (kv_net cfg)) \<longleftrightarrow>
    (w, j) \<in> links cfg \<and> kvservers cfg ! j = Some p \<and> \<not> (\<not> reliable (kv_net cfg) \<and> r1 < 100)"
proof -
  have w: "wired cfg" and h: "hosted cfg" using kv_reach_inv [OF assms(1)] by (simp_all add: ready_def)
  have j: "j < kv_n cfg" using end_of_less [OF w e] by simp
  have "zget None (connections (kv_net cfg)) e = Some j" using wiredD(7) [OF w e] by (simp add: zget_def)
  moreover have "(w, j) \<in> links cfg \<longleftrightarrow> zget False (enabled (kv_net cfg)) e" using e by (simp add: links_def)
  ultimately show ?thesis using hostedD(1) [OF h j] by (auto simp: admit_Admitted)
qed

lemma find_leader_range: "find_leader K is cfg = Some (b, l) \<Longrightarrow> l \<in> set is \<or> l = 0"
  by (induction K "is" cfg rule: find_leader.induct) (auto split: bind_splits if_splits)

lemma Leader_less: "Leader K cfg = Some (b, l) \<Longrightarrow> 0 < kv_n cfg \<Longrightarrow> l < kv_n cfg"
  using find_leader_range [of K "[0..<kv_n cfg]" cfg b l] by (auto simp: Leader_def)

text \<open>
  C26: the partition the tests use. With an odd number of servers, three or more, \<open>make_partition\<close> puts the leader
  that \<open>Leader\<close> found, or server 0 if nobody leads, into a minority, and after \<open>partition\<close> two servers have their ends to each other switched on
  exactly when they are on the same side, whatever was connected before.
\<close>
theorem leader_in_minority:
  assumes "kv_reach K n cfg" and "odd n" and "3 \<le> n" and "Leader K cfg = Some (b, l)"
  shows "\<exists>p1 p2 cfg'. make_partition K cfg = Some (p1, p2) \<and> partition p1 p2 cfg = Some cfg' \<and>
    l \<in> set p2 \<and> length p2 = n div 2 \<and> length p1 = n div 2 + 1 \<and> set p1 \<union> set p2 = {..<n} \<and> set p1 \<inter> set p2 = {} \<and>
    (\<forall>i j. i < n \<and> j < n \<longrightarrow> ((Srv i, j) \<in> links cfg' \<longleftrightarrow> (i \<in> set p1 \<longleftrightarrow> j \<in> set p1)))"
proof -
  have r: "ready cfg n" and n: "kv_n cfg = n" using kv_reach_inv [OF assms(1)] by (simp_all add: ready_def)
  have l: "l < kv_n cfg" using Leader_less [OF assms(4)] assms(3) n by simp
  obtain p1 q where p: "make_partition K cfg = Some (p1, q @ [l])" "p1 @ q = filter (\<lambda>i. i \<noteq> l) [0..<n]" "length p1 = n div 2 + 1"
    using make_partition_odd [OF assms(4) l] assms(2,3) n by auto
  let ?p2 = "q @ [l]"
  have s: "set (p1 @ q) = {..<n} - {l}" "distinct (p1 @ q)" unfolding p(2) by auto
  then have d: "distinct (p1 @ ?p2)" "set p1 \<union> set ?p2 = {..<n}" "set p1 \<inter> set ?p2 = {}" using l n by auto
  have "length (p1 @ ?p2) = card {..<n}" using distinct_card [OF d(1)] d(2) by (metis set_append)
  then have "length ?p2 = n div 2" using p(3) assms(2) by (auto elim!: oddE)
  moreover obtain cfg' where c: "partition p1 ?p2 cfg = Some cfg'"
    "links cfg' = links cfg - across (set p1) (set ?p2) \<union> within (set p1) \<union> within (set ?p2)"
    using partition_links_ready [OF r _ _ d(1)] d(2) by blast
  moreover have "(Srv i, j) \<in> links cfg' \<longleftrightarrow> (i \<in> set p1 \<longleftrightarrow> j \<in> set p1)" if "i < n" "j < n" for i j
  proof -
    have *: "i \<in> set p1 \<or> i \<in> set ?p2" "j \<in> set p1 \<or> j \<in> set ?p2" using d(2) that by blast+
    have "(Srv i, j) \<in> across (set p1) (set ?p2) \<longleftrightarrow> (i \<in> set p1) \<noteq> (j \<in> set p1)"
      "(Srv i, j) \<in> within (set p1) \<union> within (set ?p2) \<longleftrightarrow> (i \<in> set p1) = (j \<in> set p1)"
      using * d(3) by (auto simp: across_def within_def)
    then show ?thesis unfolding c(2) by blast
  qed
  ultimately show ?thesis using p(1,3) d(2,3) by (metis in_set_conv_decomp)
qed

text \<open>With an even number, the unused slots of the minority are 0, so server 0 is on both sides.\<close>

lemma make_partition_even:
  assumes "Leader K cfg = Some (b, l)" and "kv_n cfg = 2 * k" and "2 \<le> k" and "l < 2 * k" and "l \<noteq> 0"
  shows "\<exists>p1 p2. make_partition K cfg = Some (p1, p2) \<and> 0 \<in> set p1 \<and> 0 \<in> set p2"
proof -
  define xs where "xs = filter (\<lambda>i. i \<noteq> l) [0..<2 * k]"
  have len: "length xs = 2 * k - 1" and l: "l \<notin> set xs" using filter_upt_others [OF assms(4)] by (simp_all add: xs_def)
  have "[0..<2 * k] = 0 # [1..<2 * k]" using assms(3) by (simp add: upt_conv_Cons)
  then have hd: "xs = 0 # filter (\<lambda>i. i \<noteq> l) [1..<2 * k]" using assms(5) by (simp add: xs_def)
  have "drop (length xs) (replicate (k + 1) (0 :: nat)) = []" "drop (length xs - (k + 1)) (replicate k (0 :: nat)) = [0, 0]"
    using len assms(3) by (simp_all only: drop_replicate) (auto simp: numeral_2_eq_2)
  then have "for_each (place l) xs (0, replicate (k + 1) 0, replicate k 0) = Some (2 * k - 1, take (k + 1) xs, drop (k + 1) xs @ [0, 0])"
    using place_all [OF l, of "replicate (k + 1) 0" "replicate k 0"] len assms(3) by (simp del: replicate_Suc)
  then have "for_each (place l) [0..<kv_n cfg] (0, replicate (kv_n cfg div 2 + 1) 0, replicate (kv_n cfg div 2) 0) =
     Some (2 * k - 1, take (k + 1) xs, drop (k + 1) xs @ [0, 0])"
    unfolding assms(2) place_skip [of l "[0..<2 * k]"] xs_def [symmetric] by simp
  moreover have "(drop (k + 1) xs @ [0, 0])[length (drop (k + 1) xs @ [0, 0 :: nat]) - 1 := l] = drop (k + 1) xs @ [0, l]"
    by (simp add: list_update_append)
  ultimately have "make_partition K cfg = Some (take (k + 1) xs, drop (k + 1) xs @ [0, l])"
    unfolding make_partition_def assms(1) by (simp del: upt_Suc replicate_Suc length_append)
  moreover have "0 \<in> set (take (k + 1) xs)" using hd by simp
  ultimately show ?thesis by auto
qed

text \<open>
  A clerk. A new clerk gets one end to every server, in an order that is a permutation of the servers
  whatever random numbers are drawn; of its ends exactly those in \<open>to\<close> are switched on, and no other end
  changes.
\<close>
theorem make_client_ends:
  assumes "kv_reach K n cfg" and "set to \<subseteq> {..<n}" and "\<And>i. rs i \<le> i"
    and "makeClient rs names to cfg = Some (cfg', ck, hs)"
  shows "mset hs = mset (map names [0..<n]) \<and> clerks cfg' ck = Some (map names [0..<n]) \<and> clerks cfg ck = None \<and>
    links cfg' = links cfg \<union> Pair (Clk ck) ` set to"
proof -
  note M = makeClient_effect [OF conjunct1 [OF kv_reach_inv [OF assms(1)]] conjunct2 [OF kv_reach_inv [OF assms(1)]] assms(2,4)]
  have "\<exists>sa. random_handles rs (map names [0..<n]) = Some sa \<and> mset sa = mset (map names [0..<n])"
    by (rule random_handles_perm) (rule assms(3))
  then show ?thesis using M(3-6) by auto
qed

subsection \<open>Servers on Raft\<close>

text \<open>
  What the harness relies on: a new server runs the peer that \<open>Make\<close> builds from its persister, and to kill
  a server is to kill its peer.
\<close>

locale server_kind =
  fixes K :: "('v, 'c, 'a, 'b) kind"
  assumes rf_start: "k_rf K (k_start K mx n i ps now r1 r2) = Make n i ps now r1 r2"
    and rf_kill: "k_rf K (k_kill K v) = Raft.Kill (k_rf K v)"
begin

lemma shutdown_stops:
  assumes "kv_reach K n cfg" and "i < n"
  shows "\<exists>cfg'. ShutdownServer K i cfg = Some cfg' \<and> kvservers cfg' ! i = None \<and>
    links cfg' = links cfg - both_ways i {..<n} \<and>
    (\<forall>p v. kvservers cfg ! i = Some p \<and> kv_heap cfg p = Some v \<longrightarrow>
       (\<exists>v'. kv_heap cfg' p = Some v' \<and> \<not> running (k_rf K v') \<and> kv_saved cfg' ! i = Own (Copy (persister (k_rf K v)))))"
proof -
  have r: "ready cfg n" and h: "hosted cfg" using kv_reach_inv [OF assms(1)] by simp_all
  obtain c where c: "rewired cfg c" "links c = links cfg - both_ways i {..<n}" "ShutdownServer K i cfg = Some (stopped_cfg K i c)"
    using ShutdownServer_eq [OF r h assms(2)] by blast
  have i: "i < kv_n cfg" using r assms(2) by (simp add: ready_def)
  have len: "i < length (kvservers c)" "i < length (kv_saved c)"
    using wiredD(1,2) [of cfg] r i rewiredD(2,3) [OF c(1)] by (simp_all add: ready_def)
  have "\<exists>v'. kv_heap (stopped_cfg K i c) p = Some v' \<and> \<not> running (k_rf K v') \<and>
      kv_saved (stopped_cfg K i c) ! i = Own (Copy (persister (k_rf K v)))"
    if p: "kvservers cfg ! i = Some p" "kv_heap cfg p = Some v" for p v
    using p hostedD(2) [OF h i, of p] len rewiredD(2,3,6) [OF c(1)]
    by (simp add: stopped_cfg_def last_saved_def kv_saved_get_def rf_kill Raft.Kill_def)
  moreover have "kvservers (stopped_cfg K i c) ! i = None" using len by (simp add: stopped_cfg_def)
  ultimately show ?thesis using c by auto
qed

lemma restart_keeps:
  assumes reach: "kv_reach K n cfg" and i: "i < n" and p: "kvservers cfg ! i = Some p" "kv_heap cfg p = Some v" "durable (k_rf K v)"
    and stop: "ShutdownServer K i cfg = Some c" and start: "StartServer K names seed i c = Some cfg'"
  shows "\<exists>q v'. q \<noteq> p \<and> kvservers cfg' ! i = Some q \<and> kv_heap cfg' q = Some v' \<and>
    currentTerm (k_rf K v') = currentTerm (k_rf K v) \<and> votedFor (k_rf K v') = votedFor (k_rf K v) \<and>
    logs (k_rf K v') = logs (k_rf K v) \<and> role (k_rf K v') = 0 \<and> commitIndex (k_rf K v') = 0"
proof -
  have S: "kv_saved c ! i = Own (Copy (persister (k_rf K v)))"
    using shutdown_stops [OF reach i] stop p(1,2) by auto
  have "kv_step K cfg c" by (rule kv_step.shutdown [OF _ stop]) (use i kv_reach_inv [OF reach] in \<open>simp add: ready_def\<close>)
  then have c: "ready c n" "hosted c" using kv_reach_inv [OF kv_reach.step [OF reach]] by blast+
  have w: "wired c" "i < kv_n c" using c(1) i by (simp_all add: ready_def)
  obtain rn where rn: "cfg' = started_cfg K names seed i rn c" using StartServer_effect(1) [OF w(1) c(2) w(2) start] by blast
  obtain now r1 r2 where seed: "seed = (now, r1, r2)" by (cases seed)
  let ?ps = "Copy (Copy (persister (k_rf K v)))" and ?q = "kv_fresh c"
  have v': "kv_heap cfg' ?q = Some (k_start K (kv_maxraftstate c) (kv_n c) (int i) ?ps now r1 r2)"
    using S by (simp add: rn seed last_saved_def kv_saved_get_def)
  have "?q = kv_fresh cfg"
    using ShutdownServer_eq [of cfg n i K] stop kv_reach_inv [OF reach] i rewiredD(7) by auto
  moreover have "p < kv_fresh cfg" using hostedD(3) [of cfg i p] kv_reach_inv [OF reach] p(1) i by (simp add: ready_def)
  ultimately have "?q \<noteq> p" by simp
  moreover have "kvservers cfg' ! i = Some ?q" using wiredD(1) [OF w(1)] w(2) by (simp add: rn)
  moreover have "stored ?ps = (currentTerm (k_rf K v), votedFor (k_rf K v), logs (k_rf K v))"
    using p(3) by (simp add: durable_def stored_def ps.copy_state)
  ultimately show ?thesis using v' Make_stored [of ?ps] Make_simps [of _ _ ?ps] by (auto simp: rf_start)
qed

end

end
