(* ===== verification/Raft_Handlers.thy ===== *)
theory Raft_Handlers
  imports Raft
begin

text \<open>
  What the handlers and critical sections of one peer guarantee by themselves, whatever the other
  peers do: the vote handler, the append handler, the commit rule of a leader, the election timer,
  the guard of the heartbeat loop, and the round trip through the persister.
\<close>

subsection \<open>Sequences of vote requests\<close>

fun serve_votes :: "(int \<times> RequestVoteArgs) list \<Rightarrow> 'c Raft \<Rightarrow> (RequestVoteArgs \<times> RequestVoteReply) list" where
  "serve_votes [] rf = []"
| "serve_votes ((now, args) # rs) rf =
     (let (rf', rep) = RequestVote now args rf in (args, rep) # serve_votes rs rf')"

definition granted_in :: "int \<Rightarrow> (RequestVoteArgs \<times> RequestVoteReply) list \<Rightarrow> int set" where
  "granted_in T rs = {CandidateId a | a r. (a, r) \<in> set rs \<and> VoteGranted r \<and> rvTerm a = T}"

lemma granted_in_Nil [simp]: "granted_in T [] = {}"
  by (simp add: granted_in_def)

lemma granted_in_Cons:
  "granted_in T ((a, r) # rs) =
     (if VoteGranted r \<and> rvTerm a = T then {CandidateId a} else {}) \<union> granted_in T rs"
  by (auto simp: granted_in_def)

text \<open>A peer beyond term \<open>T\<close> grants nothing in it; one that has voted in it repeats its vote.\<close>

lemma granted_past: "T < currentTerm rf \<Longrightarrow> granted_in T (serve_votes rs rf) = {}"
proof (induction rs rf rule: serve_votes.induct)
  case (2 now args rs rf)
  obtain rf' rep where rv: "RequestVote now args rf = (rf', rep)" by fastforce
  show ?case using 2 rv by (cases rule: RequestVote_cases [OF rv]) (auto simp: granted_in_Cons)
qed simp

lemma granted_voted:
  assumes "currentTerm rf = T" and "votedFor rf = c" and "c \<noteq> -1"
    and "\<forall>(now, a) \<in> set rs. CandidateId a \<noteq> -1"
  shows "granted_in T (serve_votes rs rf) \<subseteq> {c}"
  using assms
proof (induction rs rf rule: serve_votes.induct)
  case (2 now args rs rf)
  obtain rf' rep where rv: "RequestVote now args rf = (rf', rep)" by fastforce
  show ?case
  proof (cases "currentTerm rf' = T")
    case True
    then have "votedFor rf' = c \<and> (VoteGranted rep \<and> rvTerm args = T \<longrightarrow> CandidateId args = c)"
      using 2 by (cases rule: RequestVote_cases [OF rv]) auto
    then show ?thesis using 2 rv True by (auto simp: granted_in_Cons)
  next
    case False
    then have "T < currentTerm rf'" "\<not> (VoteGranted rep \<and> rvTerm args = T)"
      using 2 by (cases rule: RequestVote_cases [OF rv]; auto)+
    then show ?thesis using rv granted_past [of T rf' rs] by (auto simp: granted_in_Cons)
  qed
qed simp

text \<open>
  One vote per term. However many vote requests a peer serves, and in whatever order, the
  requests it grants in one term all come from the same candidate.
\<close>
theorem vote_once:
  assumes "\<forall>(now, a) \<in> set rs. CandidateId a \<noteq> -1"
    and "c \<in> granted_in T (serve_votes rs rf)" and "d \<in> granted_in T (serve_votes rs rf)"
  shows "c = d"
  using assms
proof (induction rs rf rule: serve_votes.induct)
  case (2 now args rs rf)
  obtain rf' rep where rv: "RequestVote now args rf = (rf', rep)" by fastforce
  show ?case
  proof (cases "VoteGranted rep \<and> rvTerm args = T")
    case True
    then have "currentTerm rf' = T" "votedFor rf' = CandidateId args"
      by (cases rule: RequestVote_cases [OF rv]; simp)+
    then have "granted_in T (serve_votes rs rf') \<subseteq> {CandidateId args}"
      using 2 by (intro granted_voted) auto
    then show ?thesis using 2 rv True by (auto simp: granted_in_Cons)
  next
    case False
    then show ?thesis using 2 rv by (auto simp: granted_in_Cons)
  qed
qed simp

definition fresh_peer :: "int Raft" where
  "fresh_peer = Make 3 0 MakePersister 0 0 0"

lemma fresh_peer_simps [simp]:
  "currentTerm fresh_peer = 0" "votedFor fresh_peer = 0" "logs fresh_peer = []"
  "commitIndex fresh_peer = 0" "applyCh fresh_peer = []" "role fresh_peer = 0" "npeers fresh_peer = 3"
  by (simp_all add: fresh_peer_def Make_def readPersist_def ps.fresh_state)

definition vote_args :: "int \<Rightarrow> int \<Rightarrow> RequestVoteArgs" where
  "vote_args t c = \<lparr>rvTerm = t, CandidateId = c, LastLogIndex = 0, LastLogTerm = 0\<rparr>"

theorem vote_once_witness:
  "serve_votes [(5, vote_args 1 2), (6, vote_args 1 1), (7, vote_args 1 2)] fresh_peer =
     [(vote_args 1 2, \<lparr>rvrTerm = 1, VoteGranted = True\<rparr>), (vote_args 1 1, \<lparr>rvrTerm = 1, VoteGranted = False\<rparr>),
      (vote_args 1 2, \<lparr>rvrTerm = 1, VoteGranted = True\<rparr>)] \<and>
   1 \<notin> granted_in 1 (serve_votes [(5, vote_args 1 2), (6, vote_args 1 1), (7, vote_args 1 2)] fresh_peer)"
proof -
  let ?rs = "[(5, vote_args 1 2), (6, vote_args 1 1), (7, vote_args 1 2)]"
  have run: "serve_votes ?rs fresh_peer =
     [(vote_args 1 2, \<lparr>rvrTerm = 1, VoteGranted = True\<rparr>), (vote_args 1 1, \<lparr>rvrTerm = 1, VoteGranted = False\<rparr>),
      (vote_args 1 2, \<lparr>rvrTerm = 1, VoteGranted = True\<rparr>)]"
    unfolding fresh_peer_def vote_args_def by code_simp
  have "2 \<in> granted_in 1 (serve_votes ?rs fresh_peer)"
    unfolding run by (simp add: granted_in_Cons vote_args_def)
  moreover have "\<forall>(now, a) \<in> set ?rs. CandidateId a \<noteq> -1" by (simp add: vote_args_def)
  ultimately have "1 \<notin> granted_in 1 (serve_votes ?rs fresh_peer)"
    using vote_once [of ?rs 1 1 fresh_peer 2] by auto
  then show ?thesis using run by blast
qed

text \<open>
  The election restriction. A vote is granted exactly to a request of the peer's term or a
  newer one, if the peer has not voted for another candidate in that term, and if the candidate's
  log is at least as up to date: its last term is higher, or equal with a log that is not shorter.
\<close>
lemma vote_granted_iff:
  "VoteGranted (snd (RequestVote now args rf)) \<longleftrightarrow>
     currentTerm rf \<le> rvTerm args \<and>
     (currentTerm rf = rvTerm args \<longrightarrow> votedFor rf \<in> {-1, CandidateId args}) \<and>
     (lastTerm (logs rf) < LastLogTerm args \<or>
      lastTerm (logs rf) = LastLogTerm args \<and> int (length (logs rf)) \<le> LastLogIndex args)"
  by (auto simp: RequestVote_def Let_def)

subsection \<open>Persistence\<close>

text \<open>
  The state that \<open>persist\<close> writes is read back by \<open>readPersist\<close>: whatever the fields of the
  reading peer were, it ends up with the writer's term, vote and log, and nothing else changes.
\<close>
lemma persist_roundtrip:
  "readPersist (ReadRaftState (persister (persist rf))) rf0 =
     rf0\<lparr>currentTerm := currentTerm rf, votedFor := votedFor rf, logs := logs rf\<rparr>"
  by (simp add: readPersist_def persist_def ps.state_state encode_state_def)

subsection \<open>The append handler\<close>

lemma apply_msg_commands:
  assumes "0 \<le> a" and "a \<le> b" and "b \<le> int (length l)"
  shows "map Command (map (apply_msg l) [a + 1..b]) = map ecommand (take (nat (b - a)) (drop (nat a) l))"
proof (rule nth_equalityI)
  show "length (map Command (map (apply_msg l) [a + 1..b])) =
      length (map ecommand (take (nat (b - a)) (drop (nat a) l)))"
    using assms by simp
  fix k assume "k < length (map Command (map (apply_msg l) [a + 1..b]))"
  then have k: "k < nat (b - a)" by simp
  then have "[a + 1..b] ! k = a + 1 + int k" using assms by (intro nth_upto) linarith
  moreover have "nat (a + int k) = nat a + k" using assms(1) by simp
  ultimately show "map Command (map (apply_msg l) [a + 1..b]) ! k =
      map ecommand (take (nat (b - a)) (drop (nat a) l)) ! k"
    using k assms by (simp add: apply_msg_def)
qed

text \<open>
  C19: the append handler. If the request is not stale and the entry before the new ones matches,
  the log becomes the old prefix followed by the new entries, and the entries between the two
  commit indexes are delivered once each, in order; the reply reports success.
\<close>
theorem append_accepted:
  assumes "currentTerm rf \<le> aeTerm args" and "0 \<le> PrevLogIndex args"
    and "PrevLogIndex args \<le> int (length (logs rf))"
    and "0 < PrevLogIndex args \<longrightarrow> eterm (logs rf ! nat (PrevLogIndex args - 1)) = PrevLogTerm args"
    and "0 \<le> commitIndex rf" and "commitIndex rf \<le> LeaderCommit args"
    and "LeaderCommit args \<le> PrevLogIndex args + int (length (Entries args))"
  shows "\<exists>rf' rep. AppendEntries now args rf = Some (rf', rep) \<and> Success rep \<and>
    logs rf' = take (nat (PrevLogIndex args)) (logs rf) @ Entries args \<and>
    commitIndex rf' = LeaderCommit args \<and>
    map Index (applyCh rf') = map Index (applyCh rf) @ [commitIndex rf + 1..LeaderCommit args] \<and>
    map Command (applyCh rf') = map Command (applyCh rf) @
      map ecommand (take (nat (LeaderCommit args - commitIndex rf)) (drop (nat (commitIndex rf)) (logs rf')))"
proof -
  let ?l = "take (nat (PrevLogIndex args)) (logs rf) @ Entries args"
  have "prev_matches args (logs rf)" using assms(3,4) by (auto simp: prev_matches_def)
  note acc = AppendEntries_accept [OF assms(1) this assms(2,5,7), of now]
  have "int (length ?l) = PrevLogIndex args + int (length (Entries args))"
    using assms(2,3) by simp
  then have "map Command (map (apply_msg ?l) [commitIndex rf + 1..LeaderCommit args]) =
      map ecommand (take (nat (LeaderCommit args - commitIndex rf)) (drop (nat (commitIndex rf)) ?l))"
    using assms(5-7) by (intro apply_msg_commands) auto
  then show ?thesis
    unfolding acc by (simp add: comp_def apply_msg_def)
qed

definition append_args :: "int AppendEntriesArgs" where
  "append_args = \<lparr>aeTerm = 1, LeaderId = 1, PrevLogIndex = 0, PrevLogTerm = 0,
     Entries = [\<lparr>ecommand = 7, eterm = 1\<rparr>, \<lparr>ecommand = 8, eterm = 1\<rparr>], LeaderCommit = 1\<rparr>"

theorem append_accepted_witness:
  "\<exists>rf' rep. AppendEntries 5 append_args fresh_peer = Some (rf', rep) \<and> Success rep \<and>
     map ecommand (logs rf') = [7, 8] \<and> map Command (applyCh rf') = [7]"
  using append_accepted [of fresh_peer append_args 5] by (auto simp: append_args_def)

text \<open>
  C20: a refused append. A stale request changes nothing but the persisted copy; a request whose
  preceding entry does not match makes the peer a follower of the sender's term, leaves the log and
  the commit index alone, delivers nothing, and reports the length of the log.
\<close>
theorem append_refused:
  assumes "aeTerm args < currentTerm rf \<or> \<not> prev_matches args (logs rf)"
  shows "\<exists>rf' rep. AppendEntries now args rf = Some (rf', rep) \<and> \<not> Success rep \<and>
    logs rf' = logs rf \<and> commitIndex rf' = commitIndex rf \<and> applyCh rf' = applyCh rf \<and>
    aerTerm rep = currentTerm rf' \<and> currentTerm rf' = max (currentTerm rf) (aeTerm args) \<and>
    (currentTerm rf \<le> aeTerm args \<longrightarrow>
       role rf' = 0 \<and> votedFor rf' = LeaderId args \<and> Len rep = int (length (logs rf)))"
  using assms AppendEntries_stale [of args rf now] AppendEntries_refuse [of rf args now]
  by (cases "aeTerm args < currentTerm rf") (auto simp: max_def)

theorem append_refused_witness:
  "\<exists>rf' rep. AppendEntries 5 (append_args\<lparr>PrevLogIndex := 1\<rparr>) fresh_peer = Some (rf', rep) \<and>
     \<not> Success rep \<and> logs rf' = [] \<and> currentTerm rf' = 1"
  using append_refused [of "append_args\<lparr>PrevLogIndex := 1\<rparr>" fresh_peer 5]
  by (auto simp: append_args_def prev_matches_def)

subsection \<open>The commit rule of a leader\<close>

text \<open>
  C18: the commit rule. When a leader learns that a follower has stored its entries, it records that
  and moves its commit index to the largest index whose entry belongs to its own term (or a later
  one) and is stored by a majority, or leaves it where it was if there is none; it delivers exactly
  the entries in between, in order, and does not panic.
\<close>
theorem leader_commit:
  assumes "role rf = 2" and "aeTerm args = currentTerm rf" and "0 \<le> commitIndex rf"
    and "j < length (matchIndex rf)" and "npeers rf \<le> length (matchIndex rf)"
  defines "rf1 \<equiv> rf\<lparr>matchIndex := (matchIndex rf)[j := PrevLogIndex args + int (length (Entries args))]\<rparr>"
  shows "\<exists>c \<ge> commitIndex rf. submit_reply (int j) args True rf = Some (committed rf1 c) \<and>
    (c = commitIndex rf \<or>
      c \<le> int (length (logs rf)) \<and> currentTerm rf \<le> eterm (logs rf ! nat (c - 1)) \<and> replicated rf1 (c - 1)) \<and>
    (\<forall>k \<ge> c. k < int (length (logs rf)) \<longrightarrow> currentTerm rf \<le> eterm (logs rf ! nat k) \<longrightarrow> \<not> replicated rf1 k)"
proof -
  have "submit_reply (int j) args True rf = commit_loop (commitIndex rf1) rf1"
    using assms(1,2,4) by (simp add: submit_reply_def go_upd_def rf1_def)
  moreover obtain c where "commit_loop (commitIndex rf1) rf1 = Some (committed rf1 c)"
    "commit_point rf1 (commitIndex rf1) c" "commitIndex rf1 \<le> c"
    using commit_loop_correct [of rf1 "commitIndex rf1"] assms(3,5) by (auto simp: rf1_def)
  ultimately show ?thesis
    by (intro exI [of _ c]) (auto simp: commit_point_def rf1_def)
qed

definition leader_peer :: "int Raft" where
  "leader_peer = fst (Start 8 (fst (Start 7 (become_leader (become_candidate 0 fresh_peer)))))"

theorem leader_commit_witness:
  "\<exists>c. submit_reply 1 append_args True leader_peer =
      Some (committed (leader_peer\<lparr>matchIndex := [0, 2, 0]\<rparr>) c) \<and> c \<ge> 0"
proof -
  have "role leader_peer = 2" "currentTerm leader_peer = 1" "commitIndex leader_peer = 0"
    "matchIndex leader_peer = [0, 0, 0]" "npeers leader_peer = 3"
    by (simp_all add: leader_peer_def Start_def Let_def numeral_3_eq_3)
  then show ?thesis
    using leader_commit [of leader_peer append_args 1] by (auto simp: append_args_def)
qed

subsection \<open>Starting a command\<close>

text \<open>
  \<open>Start\<close> on a leader appends the command with the current term, persists it, and returns the
  index at which the entry stands; on any other peer it changes nothing and says so.
\<close>
lemma start_index:
  "case Start cmd rf of (rf', index, t, isLeader) \<Rightarrow>
     isLeader = (role rf = 2) \<and> t = currentTerm rf \<and>
     (if isLeader then logs rf' ! nat (index - 1) = \<lparr>ecommand = cmd, eterm = t\<rparr> \<and>
        int (length (logs rf')) = index \<and> take (length (logs rf)) (logs rf') = logs rf \<and> persisted rf'
      else rf' = rf)"
  by (simp add: Start_def Let_def nth_append)

subsection \<open>The heartbeat loop\<close>

text \<open>
  The heartbeat loops of a peer: \<open>EnterLoop\<close> is the start of a \<open>doSubmit\<close> goroutine, \<open>TickLoop\<close> one
  turn of a loop that runs, \<open>Other\<close> a step of the peer that sets its role and its running flag. The
  number of loops that run is counted beside the peer.
\<close>

datatype loop_event = EnterLoop | TickLoop | Other int bool

fun loop_step :: "loop_event \<Rightarrow> 'c Raft \<times> nat \<Rightarrow> 'c Raft \<times> nat" where
  "loop_step EnterLoop (rf, k) =
     (let (rf', go) = doSubmit_enter rf in (rf', if go then k + 1 else k))"
| "loop_step TickLoop (rf, k) =
     (if k = 0 then (rf, k)
      else case doSubmit_tick rf of
             (rf', None) \<Rightarrow> (rf', k - 1)
           | (rf', Some ps) \<Rightarrow> (rf', k))"
| "loop_step (Other r b) (rf, k) = (rf\<lparr>role := r, running := b\<rparr>, k)"

lemma loop_step_inv:
  "counter rf = int k \<Longrightarrow> k \<le> 1 \<Longrightarrow> loop_step e (rf, k) = (rf', k') \<Longrightarrow> counter rf' = int k' \<and> k' \<le> 1"
  by (cases e) (auto simp: doSubmit_enter_def doSubmit_tick_def Let_def split: if_splits)

text \<open>
  At most one heartbeat loop. Whatever sequence of elections, ticks, role changes and kills a
  peer goes through, the guard on \<open>counter\<close> keeps at most one loop running, and the counter is
  the number of running loops.
\<close>
theorem single_heartbeat_loop:
  assumes "fold loop_step es (Make n i ps now r1 r2, 0) = (rf', k)"
  shows "counter rf' = int k \<and> k \<le> 1"
proof -
  have "counter (fst (fold loop_step es x)) = int (snd (fold loop_step es x)) \<and> snd (fold loop_step es x) \<le> 1"
    if "counter (fst x) = int (snd x)" "snd x \<le> 1" for x :: "'a Raft \<times> nat"
    using that
  proof (induction es arbitrary: x)
    case (Cons e es)
    then show ?case using loop_step_inv [of "fst x" "snd x" e] by (metis fold_simps(2) prod.collapse)
  qed simp
  from this [of "(Make n i ps now r1 r2, 0)"] assms show ?thesis
    by (simp add: Make_def Let_def split: prod.splits)
qed

theorem single_heartbeat_loop_witness:
  "snd (fold loop_step [EnterLoop, EnterLoop, Other 2 True, TickLoop, Other 0 True, TickLoop, EnterLoop]
     (fresh_peer, 0)) \<le> 1 \<and>
   snd (fold loop_step [EnterLoop, EnterLoop] (fresh_peer, 0)) = 1"
proof -
  let ?es = "[EnterLoop, EnterLoop, Other 2 True, TickLoop, Other 0 True, TickLoop, EnterLoop]"
  obtain rf k where "fold loop_step ?es (Make 3 0 MakePersister 0 0 0, 0) = (rf :: int Raft, k)"
    by fastforce
  with single_heartbeat_loop [OF this] have "snd (fold loop_step ?es (fresh_peer, 0)) \<le> 1"
    by (simp add: fresh_peer_def)
  moreover have "snd (fold loop_step [EnterLoop, EnterLoop] (fresh_peer, 0)) = 1"
    by (simp add: doSubmit_enter_def Let_def fresh_peer_def Make_def readPersist_def ps.fresh_state)
  ultimately show ?thesis by blast
qed

end
