(* ===== verification/KVRaft.thy ===== *)
theory KVRaft
  imports Raft_Handlers
begin

text \<open>
  The key/value service on top of Raft, \<^verbatim>\<open>src/kvraft\<close>: the server (\<^verbatim>\<open>server.go\<close>), which submits
  every request to its Raft peer, polls until the request's index has been applied, and computes a
  value by replaying the committed log; and the clerk (\<^verbatim>\<open>client.go\<close>), which retries until a server
  accepts.

  A handler holds \<open>kv.mu\<close> while it polls, but the Raft goroutines and the applier go on. What the
  handler observes at its \<open>k\<close>-th poll is given by two functions: \<open>seen k\<close> is \<open>kv.currentIndex\<close> and
  \<open>peer k\<close> the Raft peer at the three moments at which \<open>GetState2\<close>, which takes no lock, reads the role, the log and
  the commit index. The elements of the log are taken as they are when the slice is read. A panic is \<open>None\<close>.
\<close>

subsection \<open>Data\<close>

definition OK :: string where "OK = ''OK''"
definition ErrNoKey :: string where "ErrNoKey = ''ErrNoKey''"

record Op =
  Opt :: string
  opKey :: string
  opValue :: string
  opUUID :: string

record PutAppendArgs =
  paKey :: string
  paValue :: string
  paOpt :: string
  paUUID :: string

record PutAppendReply =
  paWrongLeader :: bool
  paErr :: string
  paID :: int

record GetArgs =
  gKey :: string
  gUUID :: string

record GetReply =
  gWrongLeader :: bool
  gErr :: string
  gValue :: string
  gID :: int

record RaftKV =
  kvme :: int
  rf :: "Op Raft"
  maxraftstate :: int
  currentIndex :: int

subsection \<open>The server\<close>

text \<open>Replaying the log: the database and, per request identifier, how often it was seen.\<close>

type_synonym replica = "(string \<rightharpoonup> string) \<times> (string \<rightharpoonup> int)"

definition replay_op :: "Op \<Rightarrow> replica \<Rightarrow> replica" where
  "replay_op op st =
     (case st of (db, UUIDs) \<Rightarrow>
       if Opt op \<noteq> ''Get'' \<and> zget 0 UUIDs (opUUID op) > 0 then (db, UUIDs)
       else
         let UUIDs = UUIDs(opUUID op \<mapsto> zget 0 UUIDs (opUUID op) + 1)
         in if Opt op = ''Get'' then (db, UUIDs)
            else if Opt op = ''Put'' then (db(opKey op \<mapsto> opValue op), UUIDs)
            else if Opt op = ''Append''
            then (db(opKey op \<mapsto> zget '''' db (opKey op) @ opValue op), UUIDs)
            else (db, UUIDs))"

function replay_from :: "int \<Rightarrow> int \<Rightarrow> Op entry list \<Rightarrow> replica \<Rightarrow> replica option" where
  "replay_from i hi l st =
     (if i < hi then
        do { e \<leftarrow> go_nth l i;
             replay_from (i + 1) hi l (replay_op (ecommand e) st) }
      else Some st)"
  by pat_completeness auto
termination
  by (relation "measure (\<lambda>(i, hi, l, st). nat (hi - i))") auto

declare replay_from.simps [simp del]

definition replay_log :: "Op entry list \<Rightarrow> int \<Rightarrow> replica option" where
  "replay_log l commit = replay_from 0 commit l (Map.empty, Map.empty)"

text \<open>The polling loops of the two handlers, from the \<open>cnt\<close>-th poll on.\<close>

function get_wait :: "(nat \<Rightarrow> int) \<Rightarrow> (nat \<Rightarrow> Op moments) \<Rightarrow> string \<Rightarrow> int \<Rightarrow> nat \<Rightarrow> GetReply \<Rightarrow> GetReply option" where
  "get_wait seen peer key index cnt reply =
     (let cnt = cnt + 1
      in if cnt > 30 then Some reply
         else if seen cnt = index then
           do { let (isl, logs, commitIndex) = GetState2 (peer cnt);
                (db, UUIDs) \<leftarrow> replay_log logs commitIndex;
                Some (reply\<lparr>gWrongLeader := False, gValue := zget '''' db key, gID := index\<rparr>) }
         else get_wait seen peer key index cnt reply)"
  by pat_completeness auto
termination
  by (relation "measure (\<lambda>(seen, peer, key, index, cnt, reply). 31 - cnt)") auto

function put_wait :: "(nat \<Rightarrow> int) \<Rightarrow> (nat \<Rightarrow> Op moments) \<Rightarrow> Op \<Rightarrow> int \<Rightarrow> nat \<Rightarrow> PutAppendReply \<Rightarrow> PutAppendReply option" where
  "put_wait seen peer op index cnt reply =
     (let cnt = cnt + 1
      in if cnt > 500 then Some reply
         else if seen cnt \<ge> index then
           do { let (isl, logs, commitIndex) = GetState2 (peer cnt);
                e \<leftarrow> go_nth logs (index - 1);
                let tmp = ecommand e;
                Some (if Opt tmp = Opt op \<and> opKey tmp = opKey op \<and> opValue tmp = opValue op
                      then reply\<lparr>paWrongLeader := False, paID := index\<rparr> else reply) }
         else put_wait seen peer op index cnt reply)"
  by pat_completeness auto
termination
  by (relation "measure (\<lambda>(seen, peer, op, index, cnt, reply). 501 - cnt)") auto

declare get_wait.simps [simp del] put_wait.simps [simp del]

definition get_reply0 :: GetReply where
  "get_reply0 = \<lparr>gWrongLeader = False, gErr = '''', gValue = '''', gID = 0\<rparr>"

definition put_reply0 :: PutAppendReply where
  "put_reply0 = \<lparr>paWrongLeader = False, paErr = '''', paID = 0\<rparr>"

definition Get ::
  "(nat \<Rightarrow> int) \<Rightarrow> (nat \<Rightarrow> Op moments) \<Rightarrow> GetArgs \<Rightarrow> RaftKV \<Rightarrow> (RaftKV \<times> GetReply) option" where
  "Get seen peer args kv =
     (let op = \<lparr>Opt = ''Get'', opKey = gKey args, opValue = '''', opUUID = gUUID args\<rparr>;
          (rf', index, t, isLeader) = Start op (rf kv);
          kv' = kv\<lparr>rf := rf'\<rparr>;
          reply = get_reply0\<lparr>gWrongLeader := True\<rparr>
      in if isLeader
         then do { reply \<leftarrow> get_wait seen peer (gKey args) index 0 reply; Some (kv', reply) }
         else Some (kv', reply))"

definition PutAppend ::
  "(nat \<Rightarrow> int) \<Rightarrow> (nat \<Rightarrow> Op moments) \<Rightarrow> PutAppendArgs \<Rightarrow> RaftKV \<Rightarrow> (RaftKV \<times> PutAppendReply) option" where
  "PutAppend seen peer args kv =
     (let op = \<lparr>Opt = paOpt args, opKey = paKey args, opValue = paValue args, opUUID = paUUID args\<rparr>;
          (rf', index, t, isLeader) = Start op (rf kv);
          kv' = kv\<lparr>rf := rf'\<rparr>;
          reply = put_reply0\<lparr>paWrongLeader := True\<rparr>
      in if isLeader
         then do { reply \<leftarrow> put_wait seen peer op index 0 reply; Some (kv', reply) }
         else Some (kv', reply))"

definition Kill :: "RaftKV \<Rightarrow> RaftKV" where
  "Kill kv = kv\<lparr>rf := Raft.Kill (rf kv)\<rparr>"

definition StartKVServer :: "nat \<Rightarrow> int \<Rightarrow> Op gobval Persister \<Rightarrow> int \<Rightarrow> int \<Rightarrow> int \<Rightarrow> int \<Rightarrow> RaftKV" where
  "StartKVServer n i ps maxraft now r1 r2 =
     \<lparr>kvme = i, rf = Make n i ps now r1 r2, maxraftstate = maxraft, currentIndex = 0\<rparr>"

text \<open>The applier goroutine: one message from \<open>applyCh\<close>.\<close>

definition apply_one :: "Op ApplyMsg \<Rightarrow> RaftKV \<Rightarrow> RaftKV" where
  "apply_one msg kv =
     (if Index msg > currentIndex kv then kv\<lparr>currentIndex := Index msg\<rparr> else kv)"

subsection \<open>The clerk\<close>

text \<open>
  A call to server \<open>i\<close> in round \<open>k\<close> of a loop either fails (\<open>None\<close>) or returns a reply; the
  environment is the function \<open>net\<close>. The loops may run forever, so they are partial.
\<close>

record Clerk =
  servers :: nat
  ckid :: int
  ckcnt :: int

definition MakeClerk :: "nat \<Rightarrow> Clerk" where
  "MakeClerk n = \<lparr>servers = n, ckid = 0, ckcnt = 0\<rparr>"

definition clerk_UUID :: "Clerk \<Rightarrow> string" where
  "clerk_UUID ck = Itoa (ckid ck) @ ''_'' @ Itoa (ckcnt ck)"

text \<open>One sweep over the servers of \<open>Get\<close>: it stops at the first server that answers.\<close>

fun get_sweep :: "(nat \<Rightarrow> GetArgs \<Rightarrow> GetReply option) \<Rightarrow> string \<Rightarrow> nat list \<Rightarrow> Clerk \<Rightarrow> (Clerk \<times> string option)" where
  "get_sweep call key [] ck = (ck, None)"
| "get_sweep call key (i # is) ck =
     (case call i \<lparr>gKey = key, gUUID = clerk_UUID ck\<rparr> of
        Some reply \<Rightarrow>
          if \<not> gWrongLeader reply
          then ((if ckid ck = 0 then ck\<lparr>ckid := gID reply\<rparr> else ck), Some (gValue reply))
          else get_sweep call key is ck
      | None \<Rightarrow> get_sweep call key is ck)"

partial_function (option) get_loop ::
  "(nat \<Rightarrow> nat \<Rightarrow> GetArgs \<Rightarrow> GetReply option) \<Rightarrow> string \<Rightarrow> nat \<Rightarrow> Clerk \<Rightarrow> (Clerk \<times> string) option" where
  "get_loop net key k ck =
     (case get_sweep (net k) key [0..<servers ck] ck of
        (ck', Some v) \<Rightarrow> Some (ck', v)
      | (ck', None) \<Rightarrow> get_loop net key (k + 1) ck')"

definition clerk_Get :: "(nat \<Rightarrow> nat \<Rightarrow> GetArgs \<Rightarrow> GetReply option) \<Rightarrow> string \<Rightarrow> Clerk \<Rightarrow> (Clerk \<times> string) option" where
  "clerk_Get net key ck =
     do { (ck', v) \<leftarrow> get_loop net key 0 ck;
          Some (ck'\<lparr>ckcnt := ckcnt ck' + 1\<rparr>, v) }"

text \<open>
  One sweep of \<open>PutAppend\<close>: it calls every server, also after one has accepted. The result tells
  whether one of them has.
\<close>

fun put_sweep :: "(nat \<Rightarrow> PutAppendArgs \<Rightarrow> PutAppendReply option) \<Rightarrow> PutAppendArgs \<Rightarrow> nat list \<Rightarrow> bool \<Rightarrow> bool" where
  "put_sweep call args [] success = success"
| "put_sweep call args (i # is) success =
     (case call i args of
        Some reply \<Rightarrow> put_sweep call args is (if \<not> paWrongLeader reply then True else success)
      | None \<Rightarrow> put_sweep call args is success)"

partial_function (option) put_loop ::
  "(nat \<Rightarrow> nat \<Rightarrow> PutAppendArgs \<Rightarrow> PutAppendReply option) \<Rightarrow> PutAppendArgs \<Rightarrow> nat \<Rightarrow> nat \<Rightarrow> nat option" where
  "put_loop net args n k =
     (if put_sweep (net k) args [0..<n] False then Some (k + 1)
      else put_loop net args n (k + 1))"

definition clerk_PutAppend ::
  "(nat \<Rightarrow> nat \<Rightarrow> GetArgs \<Rightarrow> GetReply option) \<Rightarrow> (nat \<Rightarrow> nat \<Rightarrow> PutAppendArgs \<Rightarrow> PutAppendReply option) \<Rightarrow>
   string \<Rightarrow> string \<Rightarrow> string \<Rightarrow> Clerk \<Rightarrow> Clerk option" where
  "clerk_PutAppend gnet pnet key val opt ck =
     do { ck1 \<leftarrow> (if ckid ck = 0 then map_option fst (clerk_Get gnet ''nobody'' ck) else Some ck);
          rounds \<leftarrow> put_loop pnet \<lparr>paKey = key, paValue = val, paOpt = opt, paUUID = clerk_UUID ck1\<rparr> (servers ck1) 0;
          Some (ck1\<lparr>ckcnt := ckcnt ck1 + 1\<rparr>) }"

definition clerk_Put ::
  "(nat \<Rightarrow> nat \<Rightarrow> GetArgs \<Rightarrow> GetReply option) \<Rightarrow> (nat \<Rightarrow> nat \<Rightarrow> PutAppendArgs \<Rightarrow> PutAppendReply option) \<Rightarrow>
   string \<Rightarrow> string \<Rightarrow> Clerk \<Rightarrow> Clerk option" where
  "clerk_Put gnet pnet key val ck = clerk_PutAppend gnet pnet key val ''Put'' ck"

definition clerk_Append ::
  "(nat \<Rightarrow> nat \<Rightarrow> GetArgs \<Rightarrow> GetReply option) \<Rightarrow> (nat \<Rightarrow> nat \<Rightarrow> PutAppendArgs \<Rightarrow> PutAppendReply option) \<Rightarrow>
   string \<Rightarrow> string \<Rightarrow> Clerk \<Rightarrow> Clerk option" where
  "clerk_Append gnet pnet key val ck = clerk_PutAppend gnet pnet key val ''Append'' ck"

subsection \<open>The replayed database and its specification\<close>

text \<open>
  The specification: drop every write whose identifier has been used before, then apply the rest in
  order. A read uses up its identifier too, as in the code.
\<close>

fun fresh_ops :: "string set \<Rightarrow> Op list \<Rightarrow> Op list" where
  "fresh_ops U [] = []"
| "fresh_ops U (op # ops) =
     (if Opt op \<noteq> ''Get'' \<and> opUUID op \<in> U then fresh_ops U ops
      else op # fresh_ops (insert (opUUID op) U) ops)"

definition apply_op :: "Op \<Rightarrow> (string \<rightharpoonup> string) \<Rightarrow> (string \<rightharpoonup> string)" where
  "apply_op op db =
     (if Opt op = ''Put'' then db(opKey op \<mapsto> opValue op)
      else if Opt op = ''Append'' then db(opKey op \<mapsto> zget '''' db (opKey op) @ opValue op)
      else db)"

definition spec_db :: "Op list \<Rightarrow> (string \<rightharpoonup> string)" where
  "spec_db ops = fold apply_op (fresh_ops {} ops) Map.empty"

definition counts :: "(string \<rightharpoonup> int) \<Rightarrow> string set \<Rightarrow> bool" where
  "counts UUIDs U \<longleftrightarrow> (\<forall>u. 0 \<le> zget 0 UUIDs u \<and> (0 < zget 0 UUIDs u \<longleftrightarrow> u \<in> U))"

lemma replay_op_fresh:
  assumes "counts UUIDs U" and "Opt op = ''Get'' \<or> opUUID op \<notin> U"
  shows "\<exists>UUIDs'. replay_op op (db, UUIDs) = (apply_op op db, UUIDs') \<and> counts UUIDs' (insert (opUUID op) U)"
proof -
  have "\<not> (Opt op \<noteq> ''Get'' \<and> 0 < zget 0 UUIDs (opUUID op))" using assms by (auto simp: counts_def)
  moreover have "counts (UUIDs(opUUID op \<mapsto> zget 0 UUIDs (opUUID op) + 1)) (insert (opUUID op) U)"
    using assms(1) by (auto simp: counts_def add_pos_nonneg add_nonneg_pos)
  ultimately show ?thesis by (auto simp: replay_op_def apply_op_def Let_def)
qed

lemma replay_op_seen:
  "counts UUIDs U \<Longrightarrow> Opt op \<noteq> ''Get'' \<Longrightarrow> opUUID op \<in> U \<Longrightarrow> replay_op op (db, UUIDs) = (db, UUIDs)"
  by (simp add: replay_op_def counts_def)

lemma replay_ops:
  "counts UUIDs U \<Longrightarrow> fst (fold replay_op ops (db, UUIDs)) = fold apply_op (fresh_ops U ops) db"
proof (induction ops arbitrary: U UUIDs db)
  case (Cons op ops)
  show ?case
  proof (cases "Opt op \<noteq> ''Get'' \<and> opUUID op \<in> U")
    case True
    then show ?thesis using Cons by (simp add: replay_op_seen)
  next
    case False
    with replay_op_fresh [OF Cons.prems, of op db] obtain UUIDs' where
      "replay_op op (db, UUIDs) = (apply_op op db, UUIDs')" "counts UUIDs' (insert (opUUID op) U)" by auto
    then show ?thesis using Cons.IH False by auto
  qed
qed simp

lemma replay_from_fold:
  "0 \<le> i \<Longrightarrow> i \<le> hi \<Longrightarrow> hi \<le> int (length l) \<Longrightarrow>
   replay_from i hi l st = Some (fold replay_op (map ecommand (take (nat (hi - i)) (drop (nat i) l))) st)"
proof (induction i hi l st rule: replay_from.induct)
  case (1 i hi l st)
  show ?case
  proof (cases "i < hi")
    case True
    have nth: "go_nth l i = Some (l ! nat i)" using True "1.prems" by (simp add: go_nth_def)
    have "drop (nat i) l = l ! nat i # drop (nat (i + 1)) l"
      using True "1.prems" by (simp add: Cons_nth_drop_Suc nat_add_distrib)
    moreover have "nat (hi - i) = Suc (nat (hi - (i + 1)))" using True by simp
    ultimately show ?thesis
      using "1.IH" [OF True nth] True nth "1.prems" by (simp add: replay_from.simps [of i hi])
  next
    case False
    then show ?thesis using "1.prems" by (subst replay_from.simps) simp
  qed
qed

lemma replay_log_fold:
  "0 \<le> c \<Longrightarrow> c \<le> int (length l) \<Longrightarrow>
   replay_log l c = Some (fold replay_op (map ecommand (take (nat c) l)) (Map.empty, Map.empty))"
  by (simp add: replay_log_def replay_from_fold)

lemma counts_empty [simp]: "counts Map.empty {}"
  by (simp add: counts_def)

lemma replay_value:
  "0 \<le> c \<Longrightarrow> c \<le> int (length l) \<Longrightarrow>
   map_option fst (replay_log l c) = Some (spec_db (map ecommand (take (nat c) l)))"
  by (simp add: replay_log_fold replay_ops [OF counts_empty] spec_db_def)

lemma replay_whole: "map_option fst (replay_log l (int (length l))) = Some (spec_db (map ecommand l))"
  by (simp add: replay_value)

text \<open>
  C16: the replay of \<open>Get\<close> computes the specified database: each write of the committed prefix of the
  log takes effect once, at the first entry with its identifier, and in log order.
\<close>
theorem replay_correct:
  assumes "0 \<le> c" and "c \<le> int (length l)"
  shows "map_option fst (replay_log l c) = Some (spec_db (map ecommand (take (nat c) l)))"
  using assms by (rule replay_value)

definition op_entry :: "string \<Rightarrow> string \<Rightarrow> string \<Rightarrow> string \<Rightarrow> Op entry" where
  "op_entry opt k v u = \<lparr>ecommand = \<lparr>Opt = opt, opKey = k, opValue = v, opUUID = u\<rparr>, eterm = 1\<rparr>"

theorem replay_correct_witness:
  "map_option (\<lambda>st. fst st ''k'')
     (replay_log [op_entry ''Append'' ''k'' ''a'' ''1_1'', op_entry ''Append'' ''k'' ''a'' ''1_1'',
                  op_entry ''Append'' ''k'' ''b'' ''1_2'', op_entry ''Put'' ''k'' ''z'' ''1_3''] 3) =
   Some (Some ''ab'')"
proof -
  let ?l = "[op_entry ''Append'' ''k'' ''a'' ''1_1'', op_entry ''Append'' ''k'' ''a'' ''1_1'',
             op_entry ''Append'' ''k'' ''b'' ''1_2'', op_entry ''Put'' ''k'' ''z'' ''1_3'']"
  have "map_option fst (replay_log ?l 3) = Some (spec_db (map ecommand (take (nat 3) ?l)))"
    by (rule replay_correct) simp_all
  moreover have "spec_db (map ecommand (take (nat 3) ?l)) ''k'' = Some ''ab''"
    by (simp add: spec_db_def op_entry_def apply_op_def)
  ultimately show ?thesis by (cases "replay_log ?l 3") auto
qed

lemma fresh_ops_append:
  "fresh_ops U (xs @ ys) = fresh_ops U xs @ fresh_ops (U \<union> opUUID ` set xs) ys"
  by (induction xs arbitrary: U) (auto simp: insert_absorb)

text \<open>
  C17: at most once. A retry that reaches the log a second time, perhaps in a later term, has no
  effect: the replayed database is that of the log without it.
\<close>
theorem retry_has_no_effect:
  assumes "opUUID (ecommand e') = opUUID (ecommand e)" and "Opt (ecommand e') \<noteq> ''Get''"
  shows "map_option fst (replay_log (xs @ e # ys @ e' # zs) (int (length xs + length ys + length zs + 2))) =
    map_option fst (replay_log (xs @ e # ys @ zs) (int (length xs + length ys + length zs + 1)))"
proof -
  have "fresh_ops {} (map ecommand (xs @ e # ys @ e' # zs)) = fresh_ops {} (map ecommand (xs @ e # ys @ zs))"
    using assms by (simp add: fresh_ops_append insert_absorb)
  then show ?thesis
    using replay_whole [of "xs @ e # ys @ e' # zs"] replay_whole [of "xs @ e # ys @ zs"]
    by (auto simp: spec_db_def add.assoc)
qed

theorem retry_has_no_effect_witness:
  "map_option fst (replay_log [op_entry ''Append'' ''k'' ''a'' ''1_1'', op_entry ''Append'' ''k'' ''a'' ''1_1''] 2) =
   map_option fst (replay_log [op_entry ''Append'' ''k'' ''a'' ''1_1''] 1)"
  using retry_has_no_effect [of "op_entry ''Append'' ''k'' ''a'' ''1_1''" "op_entry ''Append'' ''k'' ''a'' ''1_1''" "[]" "[]" "[]"]
  by (simp add: op_entry_def)

text \<open>The value of a key to which a history only appends.\<close>

lemma apply_ops_append:
  "\<forall>op \<in> set ops. opKey op = k \<longrightarrow> Opt op \<noteq> ''Put'' \<Longrightarrow>
   zget '''' (fold apply_op ops db) k =
     zget '''' db k @ concat (map opValue (filter (\<lambda>op. opKey op = k \<and> Opt op = ''Append'') ops))"
  by (induction ops arbitrary: db) (auto simp: apply_op_def)

lemma fresh_ops_subset: "set (fresh_ops U ops) \<subseteq> set ops"
  by (induction U ops rule: fresh_ops.induct) auto

text \<open>
  A key to which the committed log only appends holds the appended values, each once and in
  log order: no update is lost, repeated or reordered.
\<close>
theorem append_history:
  assumes "\<forall>e \<in> set l. opKey (ecommand e) = k \<longrightarrow> Opt (ecommand e) \<noteq> ''Put''"
    and "replay_log l (int (length l)) = Some (db, UUIDs)"
  shows "zget '''' db k = concat (map opValue
    (filter (\<lambda>op. opKey op = k \<and> Opt op = ''Append'') (fresh_ops {} (map ecommand l))))"
proof -
  have "db = fold apply_op (fresh_ops {} (map ecommand l)) Map.empty"
    using replay_whole [of l] assms(2) by (simp add: spec_db_def)
  moreover have "\<forall>op \<in> set (fresh_ops {} (map ecommand l)). opKey op = k \<longrightarrow> Opt op \<noteq> ''Put''"
    using assms(1) fresh_ops_subset [of "{}" "map ecommand l"] by auto
  ultimately show ?thesis using apply_ops_append [of _ k Map.empty] by simp
qed

theorem append_history_witness:
  "\<exists>db UUIDs. replay_log [op_entry ''Append'' ''k'' ''a'' ''1_1'', op_entry ''Append'' ''k'' ''b'' ''2_1'',
       op_entry ''Append'' ''k'' ''a'' ''1_1''] 3 = Some (db, UUIDs) \<and> zget '''' db ''k'' = ''ab''"
proof -
  let ?l = "[op_entry ''Append'' ''k'' ''a'' ''1_1'', op_entry ''Append'' ''k'' ''b'' ''2_1'', op_entry ''Append'' ''k'' ''a'' ''1_1'']"
  obtain db UUIDs where *: "replay_log ?l (int (length ?l)) = Some (db, UUIDs)"
    using replay_log_fold [of "int (length ?l)" ?l] by fastforce
  have "zget '''' db ''k'' = ''ab''"
    using append_history [OF _ *, of "''k''"] by (simp add: op_entry_def)
  then show ?thesis using * by auto
qed

subsection \<open>The interface to Raft\<close>

text \<open>
  What the service relies on in the peer below it: \<open>start\<close> on a leader puts the command at the index
  it returns, at the end of the log; on any other peer it does nothing.
\<close>

locale raft_service =
  fixes start :: "'c \<Rightarrow> 's \<Rightarrow> 's \<times> int \<times> int \<times> bool"
    and view :: "'s \<Rightarrow> bool \<times> 'c entry list \<times> int"
  assumes start_leader: "start c s = (s', i, t, True) \<Longrightarrow>
      \<exists>l. fst (snd (view s')) = l @ [\<lparr>ecommand = c, eterm = t\<rparr>] \<and> i = int (length l) + 1"
    and start_other: "start c s = (s', i, t, False) \<Longrightarrow> s' = s"
begin

lemma start_positive: "start c s = (s', i, t, True) \<Longrightarrow> 0 < i"
  using start_leader by fastforce

text \<open>As long as the log only grows, the command stays at its index.\<close>

lemma submitted_stays:
  assumes "start c s = (s', i, t, True)" and "take (nat i) l = fst (snd (view s'))"
  shows "go_nth l (i - 1) = Some \<lparr>ecommand = c, eterm = t\<rparr>"
proof -
  obtain l0 where l0: "fst (snd (view s')) = l0 @ [\<lparr>ecommand = c, eterm = t\<rparr>]" "i = int (length l0) + 1"
    using start_leader [OF assms(1)] by blast
  then have tk: "take (Suc (length l0)) l = l0 @ [\<lparr>ecommand = c, eterm = t\<rparr>]"
    using assms(2) by (simp add: nat_add_distrib)
  then have len: "length l0 < length l" by (metis Suc_le_lessD length_append_singleton nat_le_linear take_all)
  have "l ! length l0 = \<lparr>ecommand = c, eterm = t\<rparr>"
    using tk by (metis lessI nth_append_length nth_take)
  then show ?thesis using len l0(2) by (simp add: go_nth_def)
qed

end

interpretation rs: raft_service Start "\<lambda>rf. GetState2 (still2 rf)"
  by unfold_locales (auto simp: Start_def GetState2_def Let_def split: if_splits)

subsection \<open>The handlers\<close>

text \<open>A polling loop ends at its first poll that succeeds, or with the reply unchanged.\<close>

lemma put_wait_first:
  assumes "cnt < k" and "k \<le> 500" and "index \<le> seen k" and "\<forall>j. cnt < j \<and> j < k \<longrightarrow> seen j < index"
  shows "put_wait seen peer op index cnt reply =
    map_option (\<lambda>e. if Opt (ecommand e) = Opt op \<and> opKey (ecommand e) = opKey op \<and> opValue (ecommand e) = opValue op
                    then reply\<lparr>paWrongLeader := False, paID := index\<rparr> else reply)
      (go_nth (logs_at (peer k)) (index - 1))"
  using assms
proof (induction seen peer op index cnt reply rule: put_wait.induct)
  case (1 seen peer op index cnt reply)
  show ?case
  proof (cases "k = cnt + 1")
    case True
    then show ?thesis using "1.prems"
      by (subst put_wait.simps) (simp add: GetState2_def Let_def map_conv_bind_option comp_def)
  next
    case False
    then have later: "seen (Suc cnt) < index" "Suc cnt < k" using "1.prems" by auto
    then have "put_wait seen peer op index cnt reply = put_wait seen peer op index (cnt + 1) reply"
      using "1.prems"(2) by (subst put_wait.simps) (simp add: Let_def)
    then show ?thesis using "1.IH" [of "cnt + 1"] "1.prems" later by auto
  qed
qed

lemma put_wait_none:
  "\<forall>j. cnt < j \<and> j \<le> 500 \<longrightarrow> seen j < index \<Longrightarrow> put_wait seen peer op index cnt reply = Some reply"
proof (induction seen peer op index cnt reply rule: put_wait.induct)
  case (1 seen peer op index cnt reply)
  show ?case
  proof (cases "cnt + 1 > 500")
    case True
    then show ?thesis by (subst put_wait.simps) (simp add: Let_def)
  next
    case False
    then have "seen (Suc cnt) < index" using "1.prems" by auto
    with False "1.IH" [of "cnt + 1"] "1.prems" show ?thesis
      by (subst put_wait.simps) (auto simp: Let_def)
  qed
qed

lemma get_wait_first:
  assumes "cnt < k" and "k \<le> 30" and "seen k = index" and "\<forall>j. cnt < j \<and> j < k \<longrightarrow> seen j \<noteq> index"
  shows "get_wait seen peer key index cnt reply =
    map_option (\<lambda>st. reply\<lparr>gWrongLeader := False, gValue := zget '''' (fst st) key, gID := index\<rparr>)
      (replay_log (logs_at (peer k)) (commit_at (peer k)))"
  using assms
proof (induction seen peer key index cnt reply rule: get_wait.induct)
  case (1 seen peer key index cnt reply)
  show ?case
  proof (cases "k = cnt + 1")
    case True
    then show ?thesis using "1.prems"
      by (subst get_wait.simps)
        (simp add: GetState2_def Let_def map_conv_bind_option comp_def case_prod_unfold)
  next
    case False
    then have later: "seen (Suc cnt) \<noteq> index" "Suc cnt < k" using "1.prems" by auto
    then have "get_wait seen peer key index cnt reply = get_wait seen peer key index (cnt + 1) reply"
      using "1.prems"(2) by (subst get_wait.simps) (simp add: Let_def)
    then show ?thesis using "1.IH" [of "cnt + 1"] "1.prems" later by auto
  qed
qed

text \<open>The first number in a range at which a predicate holds.\<close>

lemma first_poll:
  assumes "(P :: nat \<Rightarrow> bool) m" and "0 < m"
  obtains k where "0 < k" "k \<le> m" "P k" "\<forall>j. 0 < j \<and> j < k \<longrightarrow> \<not> P j"
proof -
  let ?Q = "\<lambda>k. 0 < k \<and> P k"
  have "?Q (Least ?Q)" using assms by (intro LeastI [of ?Q m]) simp
  moreover have "Least ?Q \<le> m" using assms by (intro Least_le) simp
  moreover have "\<not> ?Q j" if "j < Least ?Q" for j using that not_less_Least by blast
  ultimately show thesis using that by blast
qed

text \<open>
  C30: a write that goes through. If the server's peer leads, its applied index reaches the index of
  the write within 500 polls, and every log a poll reads up to then still begins with the log and the write,
  then \<open>PutAppend\<close> returns success with that index.
\<close>
theorem put_succeeds:
  assumes "role (rf kv) = 2" and "0 < m" and "m \<le> 500"
    and "int (length (logs (rf kv))) < seen m"
    and "\<forall>k. 0 < k \<and> k \<le> m \<longrightarrow>
      take (length (logs (rf kv)) + 1) (logs_at (peer k)) = logs (rf kv) @
        [\<lparr>ecommand = \<lparr>Opt = paOpt args, opKey = paKey args, opValue = paValue args, opUUID = paUUID args\<rparr>,
          eterm = currentTerm (rf kv)\<rparr>]"
  shows "\<exists>kv' reply. PutAppend seen peer args kv = Some (kv', reply) \<and> \<not> paWrongLeader reply \<and>
    paID reply = int (length (logs (rf kv))) + 1"
proof -
  let ?op = "\<lparr>Opt = paOpt args, opKey = paKey args, opValue = paValue args, opUUID = paUUID args\<rparr>"
  let ?i = "int (length (logs (rf kv))) + 1"
  obtain rf' where start: "Start ?op (rf kv) = (rf', ?i, currentTerm (rf kv), True)"
    and log: "logs rf' = logs (rf kv) @ [\<lparr>ecommand = ?op, eterm = currentTerm (rf kv)\<rparr>]"
    using assms(1) by (simp add: Start_def Let_def)
  obtain k where k: "0 < k" "k \<le> m" "?i \<le> seen k" "\<forall>j. 0 < j \<and> j < k \<longrightarrow> \<not> ?i \<le> seen j"
    using first_poll [of "\<lambda>k. ?i \<le> seen k" m] assms(2,4) by auto
  have "go_nth (logs_at (peer k)) (?i - 1) = Some \<lparr>ecommand = ?op, eterm = currentTerm (rf kv)\<rparr>"
    using assms(5) k(1,2) log by (intro rs.submitted_stays [OF start]) (simp add: GetState2_def nat_add_distrib)
  moreover have "k \<le> 500" using k(2) assms(3) by simp
  ultimately have "put_wait seen peer ?op ?i 0 reply = Some (reply\<lparr>paWrongLeader := False, paID := ?i\<rparr>)" for reply
    using put_wait_first [of 0 k ?i seen] k by (simp add: not_le)
  then show ?thesis by (simp add: PutAppend_def start)
qed

definition kv_leader :: RaftKV where
  "kv_leader = (let kv = StartKVServer 1 0 MakePersister (-1) 0 0 0
     in kv\<lparr>rf := become_leader (become_candidate 0 (rf kv))\<rparr>)"

definition put_args :: PutAppendArgs where
  "put_args = \<lparr>paKey = ''k'', paValue = ''v'', paOpt = ''Put'', paUUID = ''1_1''\<rparr>"

definition put_op :: Op where
  "put_op = \<lparr>Opt = ''Put'', opKey = ''k'', opValue = ''v'', opUUID = ''1_1''\<rparr>"

lemma kv_leader_simps [simp]:
  "role (rf kv_leader) = 2" "logs (rf kv_leader) = []" "currentTerm (rf kv_leader) = 1"
  by (simp_all add: kv_leader_def StartKVServer_def Make_def readPersist_def ps.fresh_state Let_def)

theorem put_succeeds_witness:
  "\<exists>kv' reply. PutAppend (\<lambda>k. if k < 3 then 0 else 1) (\<lambda>k. still2 (fst (Start put_op (rf kv_leader)))) put_args kv_leader =
     Some (kv', reply) \<and> \<not> paWrongLeader reply \<and> paID reply = 1"
  using put_succeeds [of kv_leader 3 "\<lambda>k. if k < 3 then 0 else 1" "\<lambda>k. still2 (fst (Start put_op (rf kv_leader)))" put_args]
  by (simp add: Start_def Let_def put_args_def put_op_def)

text \<open>
  What an acknowledgement means. If \<open>PutAppend\<close> reports success, the server's peer was the leader
  when it took the request, the reply's index is where it put the request, and at some poll that
  index had been applied and the entry there had the request's operation, key and value.
\<close>
theorem put_acknowledged:
  assumes "PutAppend seen peer args kv = Some (kv', reply)" and "\<not> paWrongLeader reply"
  shows "role (rf kv) = 2 \<and> paID reply = int (length (logs (rf kv))) + 1 \<and>
    (\<exists>k e. 0 < k \<and> k \<le> 500 \<and> paID reply \<le> seen k \<and>
      go_nth (logs_at (peer k)) (paID reply - 1) = Some e \<and>
      Opt (ecommand e) = paOpt args \<and> opKey (ecommand e) = paKey args \<and> opValue (ecommand e) = paValue args)"
proof -
  let ?op = "\<lparr>Opt = paOpt args, opKey = paKey args, opValue = paValue args, opUUID = paUUID args\<rparr>"
  let ?i = "int (length (logs (rf kv))) + 1"
  have lead: "role (rf kv) = 2"
    using assms by (auto simp: PutAppend_def Start_def Let_def split: if_splits)
  then have w: "put_wait seen peer ?op ?i 0 (put_reply0\<lparr>paWrongLeader := True\<rparr>) = Some reply"
    using assms(1) by (auto simp: PutAppend_def Start_def Let_def split: bind_splits)
  have "\<exists>m. 0 < m \<and> m \<le> 500 \<and> ?i \<le> seen m"
  proof (rule ccontr)
    assume "\<not> ?thesis"
    then have "\<forall>j. 0 < j \<and> j \<le> 500 \<longrightarrow> seen j < ?i" using not_le by blast
    then have "put_wait seen peer ?op ?i 0 (put_reply0\<lparr>paWrongLeader := True\<rparr>) =
        Some (put_reply0\<lparr>paWrongLeader := True\<rparr>)"
      by (rule put_wait_none)
    with w have "reply = put_reply0\<lparr>paWrongLeader := True\<rparr>" by simp
    with assms(2) show False by simp
  qed
  then obtain m where m: "0 < m" "m \<le> 500" "?i \<le> seen m" by blast
  obtain k where k: "0 < k" "k \<le> m" "?i \<le> seen k" "\<forall>j. 0 < j \<and> j < k \<longrightarrow> \<not> ?i \<le> seen j"
    using first_poll [of "\<lambda>k. ?i \<le> seen k" m] m by auto
  then show ?thesis
    using w lead m(2) assms(2) put_wait_first [of 0 k ?i seen peer ?op "put_reply0\<lparr>paWrongLeader := True\<rparr>"]
    by (auto simp: not_le split: if_splits)
qed

theorem put_acknowledged_witness:
  "\<exists>kv' reply k e. PutAppend (\<lambda>k. 1) (\<lambda>k. still2 (fst (Start put_op (rf kv_leader)))) put_args kv_leader = Some (kv', reply) \<and>
     (0 :: nat) < k \<and> go_nth (logs (fst (Start put_op (rf kv_leader)))) (paID reply - 1) = Some e \<and>
     opValue (ecommand e) = ''v''"
proof -
  let ?peer = "\<lambda>k :: nat. still2 (fst (Start put_op (rf kv_leader)))"
  obtain kv' reply where *: "PutAppend (\<lambda>k. 1) ?peer put_args kv_leader = Some (kv', reply)" "\<not> paWrongLeader reply"
    by (simp add: PutAppend_def Start_def Let_def put_args_def put_op_def put_wait.simps GetState2_def go_nth_def)
  from put_acknowledged [OF this] show ?thesis using * by (auto simp: put_args_def)
qed

text \<open>
  Acknowledgement by another request's entry. The handler compares operation, key and value but
  not the identifier, so an entry that another clerk's equal request put at the index is taken for
  the handler's own: the write is acknowledged although no entry with its identifier exists.
\<close>
theorem put_foreign_acknowledged:
  "\<exists>seen peer kv' reply. PutAppend seen peer put_args kv_leader = Some (kv', reply) \<and> \<not> paWrongLeader reply \<and>
     (\<forall>k. paUUID put_args \<notin> (\<lambda>e. opUUID (ecommand e)) ` set (logs_at (peer k)))"
proof -
  let ?rf = "fst (Start (put_op\<lparr>opUUID := ''9_9''\<rparr>) (rf kv_leader))"
  obtain kv' reply where *: "PutAppend (\<lambda>k. 1) (\<lambda>k. still2 ?rf) put_args kv_leader = Some (kv', reply)" "\<not> paWrongLeader reply"
    by (simp add: PutAppend_def Start_def Let_def put_args_def put_op_def put_wait.simps GetState2_def go_nth_def)
  moreover have "paUUID put_args \<notin> (\<lambda>e. opUUID (ecommand e)) ` set (logs ?rf)"
    by (simp add: Start_def Let_def put_op_def put_args_def)
  ultimately show ?thesis
    by (intro exI [of _ "\<lambda>k. 1"] exI [of _ "\<lambda>k. still2 ?rf"] exI [of _ kv'] exI [of _ reply]) simp
qed

text \<open>
  C31: what \<open>Get\<close> returns. If at some poll the applied index equals the index of the request, and the
  commit index read at the first such poll lies within the log read there, \<open>Get\<close> succeeds with the value that the
  specified database of that prefix of the log holds for the key, or the empty string if there is none.
\<close>
theorem get_value_correct:
  assumes "role (rf kv) = 2" and "0 < k" and "k \<le> 30" and "seen k = int (length (logs (rf kv))) + 1"
    and "\<forall>j. 0 < j \<and> j < k \<longrightarrow> seen j \<noteq> int (length (logs (rf kv))) + 1"
    and "0 \<le> commit_at (peer k)" and "commit_at (peer k) \<le> int (length (logs_at (peer k)))"
  shows "\<exists>kv' reply. Get seen peer args kv = Some (kv', reply) \<and> \<not> gWrongLeader reply \<and>
    gID reply = int (length (logs (rf kv))) + 1 \<and>
    gValue reply = zget '''' (spec_db (map ecommand (take (nat (commit_at (peer k))) (logs_at (peer k))))) (gKey args)"
proof -
  obtain st where st: "replay_log (logs_at (peer k)) (commit_at (peer k)) = Some st"
    "fst st = spec_db (map ecommand (take (nat (commit_at (peer k))) (logs_at (peer k))))"
    using replay_value [OF assms(6,7)] by auto
  have "get_wait seen peer (gKey args) (int (length (logs (rf kv))) + 1) 0 reply =
      Some (reply\<lparr>gWrongLeader := False, gValue := zget '''' (fst st) (gKey args),
                  gID := int (length (logs (rf kv))) + 1\<rparr>)" for reply
    using get_wait_first [of 0 k seen "int (length (logs (rf kv))) + 1" peer "gKey args" reply] assms(2-5) st(1) by simp
  then show ?thesis using assms(1) st(2) by (simp add: Get_def Start_def Let_def)
qed

theorem get_value_correct_witness:
  "\<exists>kv' reply. Get (\<lambda>k. 1) (\<lambda>k. still2 ((fst (Start put_op (rf kv_leader)))\<lparr>commitIndex := 1\<rparr>))
       \<lparr>gKey = ''k'', gUUID = ''1_2''\<rparr> kv_leader = Some (kv', reply) \<and> \<not> gWrongLeader reply \<and> gValue reply = ''v''"
  using get_value_correct [of kv_leader 1 "\<lambda>k. 1" "\<lambda>k. still2 ((fst (Start put_op (rf kv_leader)))\<lparr>commitIndex := 1\<rparr>)"
      "\<lparr>gKey = ''k'', gUUID = ''1_2''\<rparr>"]
  by (auto simp: Start_def Let_def put_op_def spec_db_def apply_op_def)

text \<open>The applier keeps the largest index it has seen.\<close>

lemma apply_one_simps [simp]:
  "currentIndex (apply_one msg kv) = max (currentIndex kv) (Index msg)" "rf (apply_one msg kv) = rf kv"
  by (auto simp: apply_one_def)

lemma currentIndex_fold:
  "currentIndex (fold apply_one msgs kv) = fold max (map Index msgs) (currentIndex kv)"
  by (induction msgs arbitrary: kv) (simp_all add: max.commute)

text \<open>
  The applied index of a server that reads messages \<open>1, 2, \<dots>, m\<close> is \<open>m\<close>, and messages that are
  delivered again do not lower it.
\<close>
lemma applier_index:
  assumes "map Index msgs = map int [1..<Suc m] @ again" and "\<forall>i \<in> set again. i \<le> int m"
  shows "currentIndex (fold apply_one msgs (StartKVServer n i ps mx now r1 r2)) = int m"
proof -
  have "fold max (map int [1..<Suc m]) (0 :: int) = int m" for m
    by (induction m) (simp_all add: max_def)
  moreover have "\<forall>i \<in> set again. i \<le> c \<Longrightarrow> fold max again c = c" for c :: int
    by (induction again) (simp_all add: max_def)
  ultimately show ?thesis using assms by (simp add: currentIndex_fold StartKVServer_def)
qed

subsection \<open>The clerk\<close>

lemma clerk_UUID_inject:
  "clerk_UUID ck = clerk_UUID ck' \<longleftrightarrow> ckid ck = ckid ck' \<and> ckcnt ck = ckcnt ck'"
  by (simp add: clerk_UUID_def append_sep_inject)

lemma get_sweep_frame:
  "get_sweep call key is ck = (ck', v) \<Longrightarrow>
   ckcnt ck' = ckcnt ck \<and> servers ck' = servers ck \<and> (v = None \<longrightarrow> ck' = ck)"
  by (induction "is") (auto split: option.splits if_splits)

lemma get_loop_frame:
  "get_loop net key k ck = Some r \<Longrightarrow> ckcnt (fst r) = ckcnt ck \<and> servers (fst r) = servers ck"
proof (rule get_loop.raw_induct [of "\<lambda>net key k ck r. ckcnt (fst r) = ckcnt ck \<and> servers (fst r) = servers ck"])
  fix gl net key k ck r
  assume IH: "\<And>net key k ck r. gl net key k ck = Some r \<Longrightarrow> ckcnt (fst r) = ckcnt ck \<and> servers (fst r) = servers ck"
    and body: "(case get_sweep (net k) key [0..<servers ck] ck of
        (ck', None) \<Rightarrow> gl net key (k + 1) ck' | (ck', Some v) \<Rightarrow> Some (ck', v)) = Some r"
  obtain ck' v where sw: "get_sweep (net k) key [0..<servers ck] ck = (ck', v)" by fastforce
  show "ckcnt (fst r) = ckcnt ck \<and> servers (fst r) = servers ck"
    using body sw get_sweep_frame [OF sw] IH [of net key "k + 1" ck'] by (cases v) auto
qed

text \<open>A server that answers a read, and the result of a sweep.\<close>

definition get_answers :: "(nat \<Rightarrow> GetArgs \<Rightarrow> GetReply option) \<Rightarrow> string \<Rightarrow> Clerk \<Rightarrow> nat \<Rightarrow> bool" where
  "get_answers call key ck i \<longleftrightarrow>
     (case call i \<lparr>gKey = key, gUUID = clerk_UUID ck\<rparr> of None \<Rightarrow> False | Some r \<Rightarrow> \<not> gWrongLeader r)"

lemma get_sweep_none:
  "\<forall>i \<in> set is. \<not> get_answers call key ck i \<Longrightarrow> get_sweep call key is ck = (ck, None)"
  by (induction "is") (auto simp: get_answers_def split: option.splits)

lemma get_sweep_append_none:
  "\<forall>i \<in> set is. \<not> get_answers call key ck i \<Longrightarrow> get_sweep call key (is @ js) ck = get_sweep call key js ck"
  by (induction "is") (auto simp: get_answers_def split: option.splits)

lemma get_loop_skip:
  assumes "\<forall>j < m. \<forall>i < servers ck. \<not> get_answers (net (k + j)) key ck i"
  shows "get_loop net key k ck = get_loop net key (k + m) ck"
  using assms
proof (induction m)
  case (Suc m)
  then have "get_sweep (net (k + m)) key [0..<servers ck] ck = (ck, None)"
    by (intro get_sweep_none) auto
  then have "get_loop net key (k + m) ck = get_loop net key (k + Suc m) ck"
    by (subst get_loop.simps) simp
  then show ?case using Suc by simp
qed simp

text \<open>
  C31: the read of a clerk returns. If some server answers in round \<open>m\<close> and none did before, \<open>Get\<close>
  returns the value of the first server that answers in that round, adopts the reply's index as the
  clerk's identity if it had none, and moves the request counter on.
\<close>
theorem clerk_get_returns:
  assumes "\<forall>j < m. \<forall>i < servers ck. \<not> get_answers (net j) key ck i"
    and "i < servers ck" and "\<forall>i' < i. \<not> get_answers (net m) key ck i'"
    and "net m i \<lparr>gKey = key, gUUID = clerk_UUID ck\<rparr> = Some reply" and "\<not> gWrongLeader reply"
  shows "clerk_Get net key ck =
    Some (ck\<lparr>ckid := (if ckid ck = 0 then gID reply else ckid ck), ckcnt := ckcnt ck + 1\<rparr>, gValue reply)"
proof -
  have "get_sweep (net m) key [0..<servers ck] ck =
      ((if ckid ck = 0 then ck\<lparr>ckid := gID reply\<rparr> else ck), Some (gValue reply))"
    using assms(3-5) by (simp add: upt_split [OF assms(2)] get_sweep_append_none)
  moreover have "get_loop net key 0 ck = get_loop net key m ck"
    using get_loop_skip [of m ck net 0 key] assms(1) by simp
  ultimately show ?thesis by (simp add: clerk_Get_def get_loop.simps [of net key m])
qed

theorem clerk_get_returns_witness:
  "clerk_Get (\<lambda>k i args. if k < 2 \<or> i \<noteq> 1 then None else Some (get_reply0\<lparr>gValue := ''v'', gID := 4\<rparr>)) ''k'' (MakeClerk 3) =
     Some (\<lparr>servers = 3, ckid = 4, ckcnt = 1\<rparr>, ''v'')"
  using clerk_get_returns [of 2 "MakeClerk 3" "\<lambda>k i args. if k < 2 \<or> i \<noteq> 1 then None else Some (get_reply0\<lparr>gValue := ''v'', gID := 4\<rparr>)"
      "''k''" 1 "get_reply0\<lparr>gValue := ''v'', gID := 4\<rparr>"]
  by (simp add: get_answers_def MakeClerk_def get_reply0_def)

lemma put_sweep_iff:
  "put_sweep call args is b \<longleftrightarrow>
     b \<or> (\<exists>i \<in> set is. \<exists>r. call i args = Some r \<and> \<not> paWrongLeader r)"
  by (induction "is" arbitrary: b) (auto split: option.splits)

lemma put_loop_rounds:
  assumes "\<forall>j < m. \<not> put_sweep (net (k + j)) args [0..<n] False" and "put_sweep (net (k + m)) args [0..<n] False"
  shows "put_loop net args n k = Some (k + m + 1)"
  using assms
proof (induction m arbitrary: k)
  case 0
  then show ?case by (subst put_loop.simps) simp
next
  case (Suc m)
  then have "\<not> put_sweep (net k) args [0..<n] False" by fastforce
  moreover have "put_loop net args n (k + 1) = Some (k + 1 + m + 1)"
    using Suc.prems by (intro Suc.IH) auto
  ultimately show ?case by (subst put_loop.simps) simp
qed

text \<open>
  The write of a clerk returns as soon as one round contains a server that accepts the request;
  every retry carries the same identifier, and the counter moves on by one.
\<close>
theorem clerk_put_returns:
  fixes ck key val opt
  defines "args \<equiv> \<lparr>paKey = key, paValue = val, paOpt = opt, paUUID = clerk_UUID ck\<rparr>"
  assumes "ckid ck \<noteq> 0" and "i < servers ck" and "pnet m i args = Some reply" and "\<not> paWrongLeader reply"
  shows "clerk_PutAppend gnet pnet key val opt ck = Some (ck\<lparr>ckcnt := ckcnt ck + 1\<rparr>)"
proof -
  let ?ok = "\<lambda>k. put_sweep (pnet k) args [0..<servers ck] False"
  have "?ok m" using assms(3-5) by (auto simp: put_sweep_iff)
  then obtain m0 where "?ok m0" "\<forall>j < m0. \<not> ?ok j" using exists_least_iff [of ?ok] by blast
  then have "put_loop pnet args (servers ck) 0 = Some (m0 + 1)"
    using put_loop_rounds [of m0 pnet 0 args "servers ck"] by simp
  then show ?thesis using assms(2) by (simp add: clerk_PutAppend_def args_def)
qed

theorem clerk_put_returns_witness:
  "clerk_PutAppend (\<lambda>k i a. None) (\<lambda>k i a. if k = 7 \<and> i = 2 then Some put_reply0 else None) ''k'' ''v'' ''Put''
     \<lparr>servers = 3, ckid = 4, ckcnt = 1\<rparr> = Some \<lparr>servers = 3, ckid = 4, ckcnt = 2\<rparr>"
  using clerk_put_returns [of "\<lparr>servers = 3, ckid = 4, ckcnt = 1\<rparr>" 2
      "\<lambda>k i a. if k = 7 \<and> i = 2 then Some put_reply0 else None" 7 "''k''" "''v''" "''Put''" put_reply0 "\<lambda>k i a. None"]
  by (simp add: put_reply0_def)

text \<open>
  The identifiers of a clerk's requests, latest first, as the clerk goes through its operations. A
  write of a clerk that has no identity yet performs a read first.
\<close>

inductive clerk_history :: "nat \<Rightarrow> string list \<Rightarrow> Clerk \<Rightarrow> bool" for n where
  start: "clerk_history n [] (MakeClerk n)"
| get: "clerk_history n us ck \<Longrightarrow> clerk_Get net key ck = Some (ck', v) \<Longrightarrow>
    clerk_history n (clerk_UUID ck # us) ck'"
| put: "clerk_history n us ck \<Longrightarrow> ckid ck \<noteq> 0 \<Longrightarrow> clerk_PutAppend gnet pnet key val opt ck = Some ck' \<Longrightarrow>
    clerk_history n (clerk_UUID ck # us) ck'"
| put_first: "clerk_history n us ck \<Longrightarrow> ckid ck = 0 \<Longrightarrow> clerk_Get gnet ''nobody'' ck = Some (ck1, v) \<Longrightarrow>
    clerk_PutAppend gnet pnet key val opt ck = Some ck' \<Longrightarrow>
    clerk_history n (clerk_UUID ck1 # clerk_UUID ck # us) ck'"

lemma clerk_Get_cnt: "clerk_Get net key ck = Some (ck', v) \<Longrightarrow> ckcnt ck' = ckcnt ck + 1"
  by (auto simp: clerk_Get_def dest: get_loop_frame split: bind_splits)

lemma clerk_PutAppend_cnt:
  "clerk_PutAppend gnet pnet key val opt ck = Some ck' \<Longrightarrow> ckid ck \<noteq> 0 \<Longrightarrow> ckcnt ck' = ckcnt ck + 1"
  "clerk_PutAppend gnet pnet key val opt ck = Some ck' \<Longrightarrow> ckid ck = 0 \<Longrightarrow>
     clerk_Get gnet ''nobody'' ck = Some (ck1, v) \<Longrightarrow> ckcnt ck' = ckcnt ck1 + 1"
  by (auto simp: clerk_PutAppend_def split: bind_splits)

lemma clerk_history_inv:
  assumes "clerk_history n us ck"
  shows "distinct us \<and> (\<forall>u \<in> set us. \<exists>ck0. u = clerk_UUID ck0 \<and> ckcnt ck0 < ckcnt ck)"
  using assms
proof (induction rule: clerk_history.induct)
  case (get us ck net key ck' v)
  then show ?case using clerk_Get_cnt [OF get(2)] by (fastforce simp: clerk_UUID_inject)
next
  case (put us ck gnet pnet key val opt ck')
  then show ?case using clerk_PutAppend_cnt(1) [OF put(3,2)] by (fastforce simp: clerk_UUID_inject)
next
  case (put_first us ck gnet ck1 v pnet key val opt ck')
  then show ?case
    using clerk_Get_cnt [OF put_first(3)] clerk_PutAppend_cnt(2) [OF put_first(4,2,3)]
    by (fastforce simp: clerk_UUID_inject)
qed simp

text \<open>
  A clerk never uses an identifier twice: the identifiers of all its requests, reads and writes,
  are pairwise distinct, also across the adoption of its identity.
\<close>
theorem clerk_UUIDs_distinct:
  assumes "clerk_history n us ck"
  shows "distinct us"
  using clerk_history_inv [OF assms] by blast

theorem clerk_UUIDs_distinct_witness:
  "\<exists>us ck. clerk_history 3 us ck \<and> us = [''0_0''] \<and> distinct us \<and> ckid ck = 4"
proof -
  let ?net = "\<lambda>k i args. if i \<noteq> 1 then None else Some (get_reply0\<lparr>gValue := ''v'', gID := 4\<rparr>)"
  have "clerk_Get ?net ''k'' (MakeClerk 3) = Some (\<lparr>servers = 3, ckid = 4, ckcnt = 1\<rparr>, ''v'')"
    unfolding clerk_Get_def by (subst get_loop.simps) (simp add: MakeClerk_def get_reply0_def upt_rec)
  then have h: "clerk_history 3 [clerk_UUID (MakeClerk 3)] \<lparr>servers = 3, ckid = 4, ckcnt = 1\<rparr>"
    by (rule clerk_history.get [OF clerk_history.start])
  moreover have "clerk_UUID (MakeClerk 3) = ''0_0''"
    by code_simp
  ultimately show ?thesis using clerk_UUIDs_distinct [OF h] by auto
qed

end
