(* ===== verification/KV_Config.thy ===== *)
theory KV_Config
  imports Group_Config KVRaft Shards
begin

text \<open>
  The two harnesses of replicated services: \<^verbatim>\<open>src/kvraft/config.go\<close>, whose servers are \<open>RaftKV\<close>, and
  \<^verbatim>\<open>src/shardmaster/config.go\<close>, whose servers are \<open>ShardMaster\<close>. Both interpret the contract \<open>server_kind\<close>.
\<close>

definition kv_kind :: "('a, 'b, receiver) Method list \<Rightarrow> ('a, 'b, receiver) Method list \<Rightarrow> (RaftKV, Op, 'a, 'b) kind" where
  "kv_kind kms rms =
     \<lparr>k_name = ''RaftKV'', k_start = (\<lambda>mx n i ps now r1 r2. StartKVServer n i ps mx now r1 r2), k_rf = rf,
      k_kill = KVRaft.Kill, k_methods = kms, r_methods = rms\<rparr>"

definition sm_kind :: "('a, 'b, receiver) Method list \<Rightarrow> ('a, 'b, receiver) Method list \<Rightarrow> (ShardMaster, unit, 'a, 'b) kind" where
  "sm_kind kms rms =
     \<lparr>k_name = ''ShardMaster'', k_start = (\<lambda>mx n i ps now r1 r2. Shards.sm_StartServer n i ps now r1 r2), k_rf = sm_rf,
      k_kill = sm_Kill, k_methods = kms, r_methods = rms\<rparr>"

interpretation kvk: server_kind "kv_kind kms rms" for kms rms
  by unfold_locales (simp_all add: kv_kind_def StartKVServer_def KVRaft.Kill_def)

interpretation smk: server_kind "sm_kind kms rms" for kms rms
  by unfold_locales (simp_all add: sm_kind_def Shards.sm_StartServer_def sm_Kill_def)

subsection \<open>The harness of the shard master\<close>

type_synonym ('a, 'b) smconfig = "(ShardMaster, unit, 'a, 'b) kvconfig"

text \<open>The operations that do not look at a server, at the type of this harness.\<close>

definition smcfg_connectUnlocked :: "nat \<Rightarrow> nat list \<Rightarrow> ('a, 'b) smconfig \<Rightarrow> ('a, 'b) smconfig option" where
  "smcfg_connectUnlocked i to cfg = connectUnlocked i to cfg"

definition smcfg_disconnectUnlocked :: "nat \<Rightarrow> nat list \<Rightarrow> ('a, 'b) smconfig \<Rightarrow> ('a, 'b) smconfig option" where
  "smcfg_disconnectUnlocked i from cfg = disconnectUnlocked i from cfg"

definition smcfg_ConnectAll :: "('a, 'b) smconfig \<Rightarrow> ('a, 'b) smconfig option" where
  "smcfg_ConnectAll cfg = for_each (\<lambda>i. smcfg_connectUnlocked i (All cfg)) [0..<kv_n cfg] cfg"

definition smcfg_partition :: "nat list \<Rightarrow> nat list \<Rightarrow> ('a, 'b) smconfig \<Rightarrow> ('a, 'b) smconfig option" where
  "smcfg_partition p1 p2 cfg = partition p1 p2 cfg"

definition smcfg_makeClient ::
  "(nat \<Rightarrow> nat) \<Rightarrow> (nat \<Rightarrow> string) \<Rightarrow> nat list \<Rightarrow> ('a, 'b) smconfig \<Rightarrow> (('a, 'b) smconfig \<times> nat \<times> string list) option" where
  "smcfg_makeClient r names to cfg = makeClient r names to cfg"

definition smcfg_deleteClient :: "nat \<Rightarrow> ('a, 'b) smconfig \<Rightarrow> ('a, 'b) smconfig \<times> string list" where
  "smcfg_deleteClient ck cfg = deleteClient ck cfg"

definition smcfg_ConnectClient :: "nat \<Rightarrow> nat list \<Rightarrow> ('a, 'b) smconfig \<Rightarrow> ('a, 'b) smconfig option" where
  "smcfg_ConnectClient ck to cfg = ConnectClientUnlocked ck to cfg"

definition smcfg_DisconnectClient :: "nat \<Rightarrow> nat list \<Rightarrow> ('a, 'b) smconfig \<Rightarrow> ('a, 'b) smconfig option" where
  "smcfg_DisconnectClient ck from cfg = DisconnectClientUnlocked ck from cfg"

definition smcfg_cleanup :: "('a, 'b) smconfig \<Rightarrow> ('a, 'b) smconfig" where
  "smcfg_cleanup cfg = kv_cleanup (sm_kind [] []) cfg"

definition smcfg_LogSize :: "('a, 'b) smconfig \<Rightarrow> int option" where
  "smcfg_LogSize cfg = LogSize (sm_kind [] []) cfg"

definition smcfg_ShutdownServer :: "nat \<Rightarrow> ('a, 'b) smconfig \<Rightarrow> ('a, 'b) smconfig option" where
  "smcfg_ShutdownServer i cfg = ShutdownServer (sm_kind [] []) i cfg"

definition smcfg_StartServer ::
  "('a, 'b, receiver) Method list \<Rightarrow> ('a, 'b, receiver) Method list \<Rightarrow> (nat \<Rightarrow> string) \<Rightarrow> int \<times> int \<times> int \<Rightarrow> nat \<Rightarrow>
   ('a, 'b) smconfig \<Rightarrow> ('a, 'b) smconfig option" where
  "smcfg_StartServer kms rms names seed i cfg = StartServer (sm_kind kms rms) names seed i cfg"

definition smcfg_Leader :: "('a, 'b) smconfig \<Rightarrow> (bool \<times> nat) option" where
  "smcfg_Leader cfg = Leader (sm_kind [] []) cfg"

definition smcfg_make_partition :: "('a, 'b) smconfig \<Rightarrow> (nat list \<times> nat list) option" where
  "smcfg_make_partition cfg = make_partition (sm_kind [] []) cfg"

text \<open>This harness has no field \<open>maxraftstate\<close>; the field of the record is not read.\<close>

definition smcfg_make_config ::
  "('a, 'b, receiver) Method list \<Rightarrow> ('a, 'b, receiver) Method list \<Rightarrow> (nat \<Rightarrow> nat \<Rightarrow> string) \<Rightarrow>
   (nat \<Rightarrow> int \<times> int \<times> int) \<Rightarrow> nat \<Rightarrow> bool \<Rightarrow> ('a, 'b) smconfig option" where
  "smcfg_make_config kms rms names seeds n unrel = kv_make_config (sm_kind kms rms) names seeds n unrel 0"

subsection \<open>What the tests rely on\<close>

text \<open>
  Restart of a key/value server. \<open>ShutdownServer\<close> followed by \<open>StartServer\<close> replaces a running server by
  a new instance whose Raft peer has the term, the vote and the log of the old one, and which has applied
  nothing yet.
\<close>
theorem kv_restart_keeps:
  assumes "kv_reach (kv_kind kms rms) n cfg" and "i < n" and "kvservers cfg ! i = Some p" and "kv_heap cfg p = Some kv"
    and "durable (rf kv)" and "ShutdownServer (kv_kind kms rms) i cfg = Some c"
    and "StartServer (kv_kind kms rms) names seed i c = Some cfg'"
  shows "\<exists>q kv'. q \<noteq> p \<and> kvservers cfg' ! i = Some q \<and> kv_heap cfg' q = Some kv' \<and>
    currentTerm (rf kv') = currentTerm (rf kv) \<and> votedFor (rf kv') = votedFor (rf kv) \<and> logs (rf kv') = logs (rf kv) \<and>
    role (rf kv') = 0 \<and> commitIndex (rf kv') = 0"
proof -
  have rf: "k_rf (kv_kind kms rms) = rf" by (simp add: kv_kind_def)
  show ?thesis by (rule kvk.restart_keeps [of kms rms n cfg i p kv c names seed cfg', unfolded rf, OF assms])
qed

lemma smcfg_Shutdown_kind:
  fixes cfg :: "('a, 'b) smconfig"
  shows "smcfg_ShutdownServer i cfg = ShutdownServer (sm_kind kms rms) i cfg"
proof -
  let ?K = "sm_kind [] [] :: (ShardMaster, unit, 'a, 'b) kind"
  have "kv_saved_get ?K = kv_saved_get (sm_kind kms rms)" "kill_server ?K = kill_server (sm_kind kms rms)"
    by (auto simp: fun_eq_iff kv_saved_get_def kill_server_def sm_kind_def split: saved.splits)
  then show ?thesis unfolding smcfg_ShutdownServer_def ShutdownServer_def by (simp only:)
qed

text \<open>
  A shard master that is shut down is cut off: it is no longer registered, its peer has stopped, and no
  end from it or to it is switched on.
\<close>
theorem shutdown_cuts_off:
  assumes "kv_reach (sm_kind kms rms) n cfg" and "i < n"
  shows "\<exists>cfg'. smcfg_ShutdownServer i cfg = Some cfg' \<and> kvservers cfg' ! i = None \<and>
    (\<forall>j < n. (Srv i, j) \<notin> links cfg' \<and> (Srv j, i) \<notin> links cfg') \<and>
    (\<forall>p sm. kvservers cfg ! i = Some p \<and> kv_heap cfg p = Some sm \<longrightarrow> (\<exists>sm'. kv_heap cfg' p = Some sm' \<and> \<not> running (sm_rf sm')))"
proof -
  have rf: "k_rf (sm_kind kms rms) = sm_rf" by (simp add: sm_kind_def)
  show ?thesis
    unfolding smcfg_Shutdown_kind [of i cfg kms rms]
    using smk.shutdown_stops [OF assms, unfolded rf] by (fastforce simp: both_ways_def)
qed

subsection \<open>Examples\<close>

text \<open>A harness with three servers, in which nobody leads yet.\<close>

lemma three_up:
  fixes K :: "('v, 'c, 'a, 'b) kind"
  obtains cfg where "kv_make_config K pair_name (\<lambda>i. (0, 0, 0)) 3 False (-1) = Some cfg" "kv_reach K 3 cfg"
    "\<And>i. i < 3 \<Longrightarrow> kvservers cfg ! i = Some i \<and> kv_heap cfg i = Some (k_start K (-1) 3 (int i) MakePersister 0 0 0)"
    "\<And>e. ends (kv_net cfg) e \<noteq> None \<Longrightarrow> \<exists>i < 3. \<exists>j < 3. e = pair_name i j"
proof -
  obtain cfg where c: "kv_make_config K pair_name (\<lambda>i. (0, 0, 0)) 3 False (-1) = Some cfg"
    "\<forall>e. ends (kv_net cfg) e \<noteq> None \<longrightarrow> (\<exists>i < 3. \<exists>j < 3. e = pair_name i j)"
    using make_config_total [OF distinct_pair_name] by blast
  show thesis by (rule that [OF c(1) kv_reach.boot [OF c(1)]]) (use make_config_Some(5) [OF c(1)] c(2) in simp_all)
qed

text \<open>The same harness once the peer of server 1 has won an election.\<close>

definition elected_kv :: "RaftKV \<Rightarrow> RaftKV" where
  "elected_kv kv = kv\<lparr>rf := become_leader (become_candidate 0 (rf kv))\<rparr>"

lemma three_leader:
  obtains cfg :: "(RaftKV, Op, unit, unit) kvconfig" where
    "kv_reach (kv_kind [] []) 3 cfg" "Leader (kv_kind [] []) cfg = Some (True, 1)"
proof -
  let ?K = "kv_kind [] [] :: (RaftKV, Op, unit, unit) kind"
  let ?kv = "\<lambda>i. k_start ?K (-1) 3 (int i) MakePersister 0 0 0"
  obtain cfg where r: "kv_reach ?K 3 cfg"
    and s: "\<And>i. i < 3 \<Longrightarrow> kvservers cfg ! i = Some i \<and> kv_heap cfg i = Some (?kv i)"
    by (rule three_up [of ?K]) blast
  let ?cfg = "cfg\<lparr>kv_heap := (kv_heap cfg)(1 \<mapsto> elected_kv (?kv 1))\<rparr>"
  have "kv_step ?K cfg ?cfg" by (rule kv_step.work) (use s [of 1] in simp)
  then have "kv_reach ?K 3 ?cfg" by (rule kv_reach.step [OF r])
  moreover have "Leader ?K ?cfg = Some (True, 1)"
  proof -
    have "kv_n cfg = 3" "wired cfg" using kv_reach_inv [OF r] by (simp_all add: ready_def)
    moreover have "\<not> snd (GetState (still (Make n i ps 0 0 0)))" for n i and ps :: "Op gobval Persister"
      by (simp add: GetState_def Make_simps)
    moreover have "snd (GetState (still (k_rf ?K (elected_kv kv))))" for kv
      by (simp add: GetState_def elected_kv_def kv_kind_def)
    ultimately show ?thesis
      using s [of 0] s [of 1] s [of 2] wiredD(1) [of cfg]
      by (simp add: Leader_def upt_rec numeral_3_eq_3 numeral_2_eq_2 kvk.rf_start)
  qed
  ultimately show thesis by (rule that)
qed

text \<open>Names that such a harness has not used.\<close>

lemma next_names:
  assumes "\<And>e. ends rn e \<noteq> None \<Longrightarrow> \<exists>i < 3. \<exists>j < 3. e = pair_name i j"
  shows "inj_on (pair_name 3) {..<3}" and "j < 3 \<Longrightarrow> ends rn (pair_name 3 j) = None"
proof -
  show "inj_on (pair_name 3) {..<3}" using distinct_namesD [OF distinct_pair_name [of 4], of 3 _ 3] by (auto simp: inj_on_def)
  show "ends rn (pair_name 3 j) = None" if "j < 3"
  proof (rule ccontr)
    assume "ends rn (pair_name 3 j) \<noteq> None"
    then obtain i k where "i < 3" "k < 3" "pair_name 3 j = pair_name i k" using assms by blast
    then show False using distinct_namesD [OF distinct_pair_name [of 4], of 3 j i k] that by simp
  qed
qed

theorem leader_in_minority_witness:
  "\<exists>(cfg :: (RaftKV, Op, unit, unit) kvconfig) p1 p2 cfg'. Leader (kv_kind [] []) cfg = Some (True, 1) \<and>
     make_partition (kv_kind [] []) cfg = Some (p1, p2) \<and> Group_Config.partition p1 p2 cfg = Some cfg' \<and>
     1 \<in> set p2 \<and> length p1 = 2 \<and> length p2 = 1 \<and> (Srv 0, 1) \<notin> links cfg' \<and> (Srv 0, 2) \<in> links cfg'"
proof -
  obtain cfg :: "(RaftKV, Op, unit, unit) kvconfig" where
    c: "kv_reach (kv_kind [] []) 3 cfg" "Leader (kv_kind [] []) cfg = Some (True, 1)" by (rule three_leader)
  have "odd (3 :: nat)" "3 \<le> (3 :: nat)" by simp_all
  from leader_in_minority [OF c(1) this c(2)] obtain p1 p2 cfg' where p: "make_partition (kv_kind [] []) cfg = Some (p1, p2)"
    "Group_Config.partition p1 p2 cfg = Some cfg'" "1 \<in> set p2" "length p2 = 3 div 2" "length p1 = 3 div 2 + 1"
    "set p1 \<union> set p2 = {..<3}" "set p1 \<inter> set p2 = {}"
    and l: "\<forall>i j. i < 3 \<and> j < 3 \<longrightarrow> ((Srv i, j) \<in> links cfg' \<longleftrightarrow> (i \<in> set p1 \<longleftrightarrow> j \<in> set p1))" by (elim exE conjE)
  have "set p2 = {1}" using p(3,4) by (cases p2) auto
  then have "k \<in> set p1 \<longleftrightarrow> k \<noteq> 1" if "k < 3" for k
    using p(6,7) that by (metis Int_iff Un_iff empty_iff insert_iff lessThan_iff)
  then have "0 \<in> set p1" "2 \<in> set p1" "1 \<notin> set p1" by simp_all
  then have "(Srv 0, 1) \<notin> links cfg'" "(Srv 0, 2) \<in> links cfg'"
    using l [rule_format, of 0 1] l [rule_format, of 0 2] by simp_all
  then show ?thesis using c(2) p(1-5) by (intro exI [of _ cfg] exI [of _ p1] exI [of _ p2] exI [of _ cfg']) simp
qed

theorem shutdown_cuts_off_witness:
  "\<exists>(cfg :: (unit, unit) smconfig) cfg'. kv_reach (sm_kind [] []) 3 cfg \<and> kvservers cfg ! 1 = Some 1 \<and>
     smcfg_ShutdownServer 1 cfg = Some cfg' \<and> kvservers cfg' ! 1 = None"
proof -
  obtain cfg where c: "kv_reach (sm_kind [] [] :: (ShardMaster, unit, unit, unit) kind) 3 cfg" "kvservers cfg ! 1 = Some 1"
    by (rule three_up [of "sm_kind [] [] :: (ShardMaster, unit, unit, unit) kind"]) auto
  then show ?thesis using shutdown_cuts_off [OF c(1), of 1] by auto
qed

theorem kv_restart_keeps_witness:
  "\<exists>(cfg :: (RaftKV, Op, unit, unit) kvconfig) c cfg' q kv'. kv_reach (kv_kind [] []) 3 cfg \<and>
     ShutdownServer (kv_kind [] []) 1 cfg = Some c \<and> StartServer (kv_kind [] []) (pair_name 3) (5, 6, 7) 1 c = Some cfg' \<and>
     q \<noteq> 1 \<and> kvservers cfg' ! 1 = Some q \<and> kv_heap cfg' q = Some kv' \<and> logs (rf kv') = []"
proof -
  let ?K = "kv_kind [] [] :: (RaftKV, Op, unit, unit) kind" and ?kv = "StartKVServer 3 1 MakePersister (-1) 0 0 0"
  obtain cfg where r: "kv_reach ?K 3 cfg" and s: "kvservers cfg ! 1 = Some 1" "kv_heap cfg 1 = Some ?kv"
    and e: "\<And>e. ends (kv_net cfg) e \<noteq> None \<Longrightarrow> \<exists>i < 3. \<exists>j < 3. e = pair_name i j"
    by (rule three_up [of ?K]) (auto simp: kv_kind_def)
  have inv: "ready cfg 3" "hosted cfg" using kv_reach_inv [OF r] by simp_all
  obtain d where d: "rewired cfg d" "ShutdownServer ?K 1 cfg = Some (stopped_cfg ?K 1 d)" using ShutdownServer_eq [OF inv, of 1 ?K] by auto
  let ?c = "stopped_cfg ?K 1 d"
  have "kv_step ?K cfg ?c" by (rule kv_step.shutdown [OF _ d(2)]) (use inv in \<open>simp add: ready_def\<close>)
  then have "ready ?c 3 \<and> hosted ?c" by (rule kv_reach_inv [OF kv_reach.step [OF r]])
  then have c: "wired ?c" "hosted ?c" "kv_n ?c = 3" by (simp_all only: ready_def)
  have e': "\<exists>i < 3. \<exists>j < 3. f = pair_name i j" if "ends (kv_net ?c) f \<noteq> None" for f
    using e [of f] that rewiredD(11) [OF d(1)] by (simp only: stopped_ends not_False_eq_True)
  have "StartServer ?K (pair_name 3) (5, 6, 7) 1 ?c \<noteq> None"
    by (rule StartServer_total [OF c(1,2)]) (use c(3) next_names [OF e'] in auto)
  then obtain cfg' where st: "StartServer ?K (pair_name 3) (5, 6, 7) 1 ?c = Some cfg'" by blast
  have "durable (rf ?kv)" "logs (rf ?kv) = []"
    using Make_stored [OF stored_fresh, of 3 1 0 0 0] by (auto simp: StartKVServer_def durable_def Make_simps stored_fresh)
  then show ?thesis using kv_restart_keeps [OF r _ s _ d(2) st] r d(2) st by auto
qed

theorem make_client_ends_witness:
  "\<exists>(cfg :: (RaftKV, Op, unit, unit) kvconfig) cfg' ck hs. kv_reach (kv_kind [] []) 3 cfg \<and>
     makeClient (\<lambda>i. 0) (pair_name 3) [0, 2] cfg = Some (cfg', ck, hs) \<and> mset hs = mset (map (pair_name 3) [0..<3])"
proof -
  let ?K = "kv_kind [] [] :: (RaftKV, Op, unit, unit) kind"
  obtain cfg where r: "kv_reach ?K 3 cfg" and e: "\<And>e. ends (kv_net cfg) e \<noteq> None \<Longrightarrow> \<exists>i < 3. \<exists>j < 3. e = pair_name i j"
    by (rule three_up [of ?K]) blast
  have "makeClient (\<lambda>i. 0) (pair_name 3) [0, 2] cfg \<noteq> None"
    by (rule makeClient_total [of _ 3]) (use kv_reach_inv [OF r] next_names [OF e] in auto)
  then obtain cfg' ck hs where m: "makeClient (\<lambda>i. 0) (pair_name 3) [0, 2] cfg = Some (cfg', ck, hs)" by auto
  have "mset hs = mset (map (pair_name 3) [0..<3])" using make_client_ends [OF r _ _ m] by simp
  then show ?thesis using r m by blast
qed

end
