(* ===== verification/ShardKV_Config.thy ===== *)
theory ShardKV_Config
  imports KV_Config
begin

text \<open>
  The test harness of the sharded key/value service, \<^verbatim>\<open>src/shardkv/config.go\<close>: three shard masters and
  three groups of \<open>n\<close> servers on one network, in which servers are named by strings. Random names of ends
  are given by a function of the place where \<open>randstring\<close> is called, the type \<open>end_label\<close>. Groups, servers, masters
  and persisters are shared by reference as in \<open>Group_Config\<close>; \<open>None\<close> is a panic.
\<close>

subsection \<open>State\<close>

datatype end_label =
    MasterEnd nat nat
  | MckEnd nat
  | GroupEnd nat nat nat
  | GroupMaster nat nat nat
  | ClientEnd nat nat

record group =
  gid :: int
  g_servers :: "nat option list"
  g_saved :: "unit gobval saved list"
  g_endnames :: "string list option list"
  g_mendnames :: "string list option list"

record ('a, 'b) skconfig =
  sk_net :: "(string, string, 'a, 'b, receiver) Network"
  nmasters :: nat
  masterservers :: "nat option list"
  mck :: "string list"
  ngroups :: nat
  sk_n :: nat
  groups :: "group option list"
  sk_clerks :: "(nat \<rightharpoonup> string list) option"
  sk_nextClientId :: int
  sk_maxraftstate :: int
  sk_masters :: "nat \<rightharpoonup> ShardMaster"
  sk_heap :: "nat \<rightharpoonup> ShardKV"
  sk_fresh :: nat

definition mastername :: "nat \<Rightarrow> string" where
  "mastername i = ''master'' @ Itoa (int i)"

definition servername :: "int \<Rightarrow> nat \<Rightarrow> string" where
  "servername g i = ''server-'' @ Itoa g @ ''-'' @ Itoa (int i)"

definition the_group :: "nat \<Rightarrow> ('a, 'b) skconfig \<Rightarrow> group option" where
  "the_group gi cfg = do { g \<leftarrow> slot (groups cfg) gi; g }"

definition set_group :: "nat \<Rightarrow> group \<Rightarrow> ('a, 'b) skconfig \<Rightarrow> ('a, 'b) skconfig" where
  "set_group gi gg cfg = cfg\<lparr>groups := (groups cfg)[gi := Some gg]\<rparr>"

definition sk_saved_get :: "unit gobval saved \<Rightarrow> ('a, 'b) skconfig \<Rightarrow> unit gobval Persister option" where
  "sk_saved_get sv cfg =
     (case sv of Nil_saved \<Rightarrow> None | Shared p \<Rightarrow> map_option (persister \<circ> skv_rf) (sk_heap cfg p) | Own ps \<Rightarrow> Some ps)"

subsection \<open>Ends\<close>

text \<open>\<open>MakeEnd\<close>, \<open>Connect\<close>, \<open>Enable\<close>: also the function \<open>make_end\<close> that servers and clerks are given.\<close>

definition sk_make_end :: "string \<Rightarrow> string \<Rightarrow> (string, string, 'a, 'b, 'r) Network \<Rightarrow> (string, string, 'a, 'b, 'r) Network option" where
  "sk_make_end name server rn = do { rn' \<leftarrow> MakeEnd name rn; Some (Enable name True (Connect name server rn')) }"

definition sk_ends :: "(nat \<Rightarrow> string) \<Rightarrow> (nat \<Rightarrow> string) \<Rightarrow> nat \<Rightarrow> (string, string, 'a, 'b, 'r) Network \<Rightarrow> (string, string, 'a, 'b, 'r) Network option" where
  "sk_ends server names k rn = for_each (\<lambda>j. sk_make_end (names j) (server j)) [0..<k] rn"

subsection \<open>Clerks\<close>

text \<open>
  \<open>makeClient\<close> makes a slice of \<open>cfg.n\<close> names and fills it at the positions of the \<open>cfg.nmasters\<close> masters. The
  result are the address of the clerk and the ends to the masters.
\<close>

definition client_end :: "(nat \<Rightarrow> string) \<Rightarrow> nat \<Rightarrow> string list \<times> (string, string, 'a, 'b, 'r) Network \<Rightarrow>
   (string list \<times> (string, string, 'a, 'b, 'r) Network) option" where
  "client_end names j s =
     (case s of (es, rn) \<Rightarrow>
        do { es' \<leftarrow> put_slot es j (names j); rn' \<leftarrow> sk_make_end (names j) (mastername j) rn; Some (es', rn') })"

definition sk_makeClient :: "(nat \<Rightarrow> string) \<Rightarrow> ('a, 'b) skconfig \<Rightarrow> (('a, 'b) skconfig \<times> nat \<times> string list) option" where
  "sk_makeClient names cfg =
     do { (es, rn) \<leftarrow> for_each (client_end names) [0..<nmasters cfg] (replicate (sk_n cfg) '''', sk_net cfg);
          cks \<leftarrow> sk_clerks cfg;
          let ck = sk_fresh cfg;
          Some (cfg\<lparr>sk_net := rn, sk_clerks := Some (cks(ck \<mapsto> es)), sk_nextClientId := sk_nextClientId cfg + 1,
                    sk_fresh := ck + 1\<rparr>, ck, map names [0..<nmasters cfg]) }"

definition sk_deleteClient :: "nat \<Rightarrow> ('a, 'b) skconfig \<Rightarrow> ('a, 'b) skconfig \<times> string list" where
  "sk_deleteClient ck cfg =
     (cfg\<lparr>sk_clerks := map_option (\<lambda>m. m(ck := None)) (sk_clerks cfg)\<rparr>,
      case sk_clerks cfg of None \<Rightarrow> [] | Some m \<Rightarrow> zget [] m ck)"

subsection \<open>Servers of groups\<close>

definition disable_row :: "string list option list \<Rightarrow> nat \<Rightarrow> nat \<Rightarrow> (string, string, 'a, 'b, 'r) Network \<Rightarrow>
   (string, string, 'a, 'b, 'r) Network option" where
  "disable_row rows i j rn =
     do { r \<leftarrow> slot rows i; es \<leftarrow> r; e \<leftarrow> slot es j; Some (Enable e False rn) }"

definition sk_kill :: "nat \<Rightarrow> ('a, 'b) skconfig \<Rightarrow> ('a, 'b) skconfig" where
  "sk_kill p cfg = cfg\<lparr>sk_heap := (sk_heap cfg)(p := map_option skv_Kill (sk_heap cfg p))\<rparr>"

definition sk_ShutdownServer :: "nat \<Rightarrow> nat \<Rightarrow> ('a, 'b) skconfig \<Rightarrow> ('a, 'b) skconfig option" where
  "sk_ShutdownServer gi i cfg =
     do { gg \<leftarrow> the_group gi cfg;
          rn1 \<leftarrow> for_each (disable_row (g_endnames gg) i) [0..<length (g_servers gg)] (sk_net cfg);
          mrow \<leftarrow> slot (g_mendnames gg) i;
          rn2 \<leftarrow> for_each (disable_row (g_mendnames gg) i) [0..<(case mrow of None \<Rightarrow> 0 | Some es \<Rightarrow> length es)] rn1;
          let rn3 = DeleteServer (servername (gid gg) i) rn2;
          sv \<leftarrow> slot (g_saved gg) i;
          sv' \<leftarrow> (if sv = Nil_saved then Some Nil_saved else map_option (\<lambda>ps. Own (Copy ps)) (sk_saved_get sv cfg));
          s \<leftarrow> slot (g_servers gg) i;
          let cfg1 = set_group gi (gg\<lparr>g_saved := (g_saved gg)[i := sv'], g_servers := (g_servers gg)[i := None]\<rparr>) (cfg\<lparr>sk_net := rn3\<rparr>);
          Some (case s of None \<Rightarrow> cfg1 | Some p \<Rightarrow> sk_kill p cfg1) }"

definition ShutdownGroup :: "nat \<Rightarrow> ('a, 'b) skconfig \<Rightarrow> ('a, 'b) skconfig option" where
  "ShutdownGroup gi cfg = for_each (sk_ShutdownServer gi) [0..<sk_n cfg] cfg"

definition sk_cleanup :: "('a, 'b) skconfig \<Rightarrow> ('a, 'b) skconfig option" where
  "sk_cleanup cfg = for_each ShutdownGroup [0..<ngroups cfg] cfg"

text \<open>\<open>names\<close> and \<open>mnames\<close> are the names of the ends to the group and to the masters.\<close>

definition sk_StartServer ::
  "('a, 'b, receiver) Method list \<Rightarrow> ('a, 'b, receiver) Method list \<Rightarrow> (nat \<Rightarrow> string) \<Rightarrow> (nat \<Rightarrow> string) \<Rightarrow>
   int \<times> int \<times> int \<Rightarrow> nat \<Rightarrow> nat \<Rightarrow> ('a, 'b) skconfig \<Rightarrow> ('a, 'b) skconfig option" where
  "sk_StartServer kms rms names mnames seed gi i cfg =
     do { gg \<leftarrow> the_group gi cfg;
          rows \<leftarrow> put_slot (g_endnames gg) i (Some (map names [0..<sk_n cfg]));
          rn1 \<leftarrow> sk_ends (servername (gid gg)) names (sk_n cfg) (sk_net cfg);
          let mends = map mnames [0..<nmasters cfg];
          mrows \<leftarrow> put_slot (g_mendnames gg) i (Some mends);
          rn2 \<leftarrow> sk_ends mastername mnames (nmasters cfg) rn1;
          sv \<leftarrow> slot (g_saved gg) i;
          ps \<leftarrow> (if sv = Nil_saved then Some MakePersister else map_option Copy (sk_saved_get sv cfg));
          let (now, rnd1, rnd2) = seed;
          let p = sk_fresh cfg;
          ss \<leftarrow> put_slot (g_servers gg) i (Some p);
          let kvsvc = MakeService ''ShardKV'' (Kv p) kms;
          let rfsvc = MakeService ''Raft'' (Rf p) rms;
          let srv = AddService rfsvc (AddService kvsvc MakeServer);
          let gg' = gg\<lparr>g_endnames := rows, g_mendnames := mrows, g_saved := (g_saved gg)[i := Shared p], g_servers := ss\<rparr>;
          Some ((set_group gi gg' cfg)\<lparr>
             sk_heap := (sk_heap cfg)(p \<mapsto>
               skv_StartServer (sk_n cfg) (int i) ps (sk_maxraftstate cfg) (gid gg) mends now rnd1 rnd2),
             sk_fresh := p + 1,
             sk_net := AddServer (servername (gid gg) i) p (rn2\<lparr>objs := (objs rn2)(p \<mapsto> srv)\<rparr>)\<rparr>) }"

definition StartGroup ::
  "('a, 'b, receiver) Method list \<Rightarrow> ('a, 'b, receiver) Method list \<Rightarrow> (end_label \<Rightarrow> string) \<Rightarrow> (nat \<Rightarrow> nat \<Rightarrow> int \<times> int \<times> int) \<Rightarrow>
   nat \<Rightarrow> ('a, 'b) skconfig \<Rightarrow> ('a, 'b) skconfig option" where
  "StartGroup kms rms names seeds gi cfg =
     for_each (\<lambda>i. sk_StartServer kms rms (\<lambda>j. names (GroupEnd gi i j)) (\<lambda>j. names (GroupMaster gi i j)) (seeds gi i) gi i)
       [0..<sk_n cfg] cfg"

subsection \<open>Masters and their clerk\<close>

definition StartMasterServer ::
  "('a, 'b, receiver) Method list \<Rightarrow> ('a, 'b, receiver) Method list \<Rightarrow> (nat \<Rightarrow> string) \<Rightarrow> int \<times> int \<times> int \<Rightarrow> nat \<Rightarrow>
   ('a, 'b) skconfig \<Rightarrow> ('a, 'b) skconfig option" where
  "StartMasterServer sms rms names seed i cfg =
     do { rn \<leftarrow> sk_ends mastername names (nmasters cfg) (sk_net cfg);
          let (now, rnd1, rnd2) = seed;
          let p = sk_fresh cfg;
          ms \<leftarrow> put_slot (masterservers cfg) i (Some p);
          let msvc = MakeService ''ShardMaster'' (Kv p) sms;
          let rfsvc = MakeService ''Raft'' (Rf p) rms;
          let srv = AddService rfsvc (AddService msvc MakeServer);
          Some (cfg\<lparr>masterservers := ms,
                    sk_masters := (sk_masters cfg)(p \<mapsto> Shards.sm_StartServer (nmasters cfg) (int i) MakePersister now rnd1 rnd2),
                    sk_fresh := p + 1,
                    sk_net := AddServer (mastername i) p (rn\<lparr>objs := (objs rn)(p \<mapsto> srv)\<rparr>)\<rparr>) }"

definition shardclerk :: "(nat \<Rightarrow> string) \<Rightarrow> ('a, 'b) skconfig \<Rightarrow> (('a, 'b) skconfig \<times> string list) option" where
  "shardclerk names cfg =
     do { rn \<leftarrow> sk_ends mastername names (nmasters cfg) (sk_net cfg);
          Some (cfg\<lparr>sk_net := rn\<rparr>, map names [0..<nmasters cfg]) }"

text \<open>The arguments of \<open>Join\<close> and \<open>Leave\<close>, and the calls of the clerk of the masters.\<close>

definition join_groups :: "nat list \<Rightarrow> ('a, 'b) skconfig \<Rightarrow> (int \<rightharpoonup> string list) option" where
  "join_groups gis cfg =
     for_each (\<lambda>g m. do { gg \<leftarrow> the_group g cfg; Some (m(gid gg \<mapsto> map (servername (gid gg)) [0..<sk_n cfg])) }) gis Map.empty"

definition joinm :: "(nat \<Rightarrow> string \<Rightarrow> JoinArgs \<Rightarrow> SMReply option) \<Rightarrow> nat list \<Rightarrow> ('a, 'b) skconfig \<Rightarrow> unit option" where
  "joinm call gis cfg = do { m \<leftarrow> join_groups gis cfg; ck_Join call m (mck cfg) }"

definition join :: "(nat \<Rightarrow> string \<Rightarrow> JoinArgs \<Rightarrow> SMReply option) \<Rightarrow> nat \<Rightarrow> ('a, 'b) skconfig \<Rightarrow> unit option" where
  "join call gi cfg = joinm call [gi] cfg"

definition leave_gids :: "nat list \<Rightarrow> ('a, 'b) skconfig \<Rightarrow> int list option" where
  "leave_gids gis cfg = for_each (\<lambda>g gids. do { gg \<leftarrow> the_group g cfg; Some (gids @ [gid gg]) }) gis []"

definition leavem :: "(nat \<Rightarrow> string \<Rightarrow> LeaveArgs \<Rightarrow> SMReply option) \<Rightarrow> nat list \<Rightarrow> ('a, 'b) skconfig \<Rightarrow> unit option" where
  "leavem call gis cfg = do { gids \<leftarrow> leave_gids gis cfg; ck_Leave call gids (mck cfg) }"

definition leave :: "(nat \<Rightarrow> string \<Rightarrow> LeaveArgs \<Rightarrow> SMReply option) \<Rightarrow> nat \<Rightarrow> ('a, 'b) skconfig \<Rightarrow> unit option" where
  "leave call gi cfg = leavem call [gi] cfg"

subsection \<open>Log sizes\<close>

datatype log_failure = TooBig int int | SnapshotKept

definition check_saved :: "('a, 'b) skconfig \<Rightarrow> nat \<times> nat \<Rightarrow> log_failure option option" where
  "check_saved cfg gii =
     (case gii of (gi, i) \<Rightarrow>
        do { gg \<leftarrow> the_group gi cfg; sv \<leftarrow> slot (g_saved gg) i; ps \<leftarrow> sk_saved_get sv cfg;
             let raft = RaftStateSize ps;
             let snap = length (ReadSnapshot ps);
             Some (if sk_maxraftstate cfg \<ge> 0 \<and> raft > 2 * sk_maxraftstate cfg then Some (TooBig raft (sk_maxraftstate cfg))
                   else if sk_maxraftstate cfg < 0 \<and> snap > 0 then Some SnapshotKept
                   else None) })"

fun first_failure :: "('x \<Rightarrow> 'f option option) \<Rightarrow> 'x list \<Rightarrow> 'f option option" where
  "first_failure f [] = Some None"
| "first_failure f (x # xs) = do { r \<leftarrow> f x; case r of Some e \<Rightarrow> Some (Some e) | None \<Rightarrow> first_failure f xs }"

definition checklogs :: "('a, 'b) skconfig \<Rightarrow> log_failure option option" where
  "checklogs cfg = first_failure (check_saved cfg) (List.product [0..<ngroups cfg] [0..<sk_n cfg])"

subsection \<open>A fresh harness\<close>

definition sk_config0 :: "int \<Rightarrow> ('a, 'b) skconfig" where
  "sk_config0 mx =
     \<lparr>sk_net = MakeNetwork, nmasters = 3, masterservers = replicate 3 None, mck = [], ngroups = 0, sk_n = 0, groups = [],
      sk_clerks = None, sk_nextClientId = 0, sk_maxraftstate = mx, sk_masters = Map.empty, sk_heap = Map.empty, sk_fresh = 0\<rparr>"

definition new_group :: "nat \<Rightarrow> ('a, 'b) skconfig \<Rightarrow> group" where
  "new_group gi cfg =
     \<lparr>gid = 100 + int gi, g_servers = replicate (sk_n cfg) None, g_saved = replicate (sk_n cfg) Nil_saved,
      g_endnames = replicate (sk_n cfg) None, g_mendnames = replicate (nmasters cfg) None\<rparr>"

definition sk_make_config ::
  "('a, 'b, receiver) Method list \<Rightarrow> ('a, 'b, receiver) Method list \<Rightarrow> ('a, 'b, receiver) Method list \<Rightarrow> (end_label \<Rightarrow> string) \<Rightarrow>
   (nat \<Rightarrow> int \<times> int \<times> int) \<Rightarrow> (nat \<Rightarrow> nat \<Rightarrow> int \<times> int \<times> int) \<Rightarrow> nat \<Rightarrow> bool \<Rightarrow> int \<Rightarrow> ('a, 'b) skconfig option" where
  "sk_make_config sms kms rms names mseeds seeds n unrel mx =
     do { cfg1 \<leftarrow> for_each (\<lambda>i. StartMasterServer sms rms (\<lambda>j. names (MasterEnd i j)) (mseeds i) i) [0..<3] (sk_config0 mx);
          (cfg2, ck) \<leftarrow> shardclerk (\<lambda>j. names (MckEnd j)) cfg1;
          let cfg3 = cfg2\<lparr>mck := ck, ngroups := 3, groups := replicate 3 None, sk_n := n\<rparr>;
          cfg4 \<leftarrow> for_each (\<lambda>gi cfg. StartGroup kms rms names seeds gi (set_group gi (new_group gi cfg) cfg)) [0..<3] cfg3;
          Some (cfg4\<lparr>sk_clerks := Some Map.empty, sk_nextClientId := int n + 1000,
                     sk_net := Reliable (\<not> unrel) (sk_net cfg4)\<rparr>) }"

subsection \<open>Names\<close>

lemma mastername_inject [simp]: "mastername i = mastername j \<longleftrightarrow> i = j"
  by (simp add: mastername_def)

lemma servername_inject: "0 \<le> g \<Longrightarrow> 0 \<le> h \<Longrightarrow> servername g i = servername h j \<longleftrightarrow> g = h \<and> i = j"
  by (simp add: servername_def append_sep_inject)

lemma mastername_servername [simp]: "mastername i \<noteq> servername g j" "servername g j \<noteq> mastername i"
  by (simp_all add: mastername_def servername_def)

subsection \<open>What ends change\<close>

lemma sk_make_end_Some:
  assumes "sk_make_end e s rn = Some rn'"
  shows "ends rn e = None" "ends rn' = (ends rn)(e \<mapsto> e)" "Network.servers rn' = Network.servers rn"
  using assms by (auto simp: sk_make_end_def MakeEnd_def Connect_def split: bind_splits if_splits)

lemma sk_ends_servers:
  assumes "sk_ends f names k rn = Some rn'"
  shows "Network.servers rn' = Network.servers rn"
  using assms unfolding sk_ends_def
  by (rule for_each_inv [where I = "\<lambda>r. Network.servers r = Network.servers rn"]) (simp_all add: sk_make_end_Some(3))

text \<open>The names in use are those of a set of labels.\<close>

definition uses :: "(end_label \<Rightarrow> string) \<Rightarrow> end_label set \<Rightarrow> (string, 's, 'a, 'b, 'r) Network \<Rightarrow> bool" where
  "uses names U rn \<longleftrightarrow> (\<forall>e. ends rn e \<noteq> None \<longrightarrow> e \<in> names ` U)"

lemma uses_fresh: "inj names \<Longrightarrow> uses names U rn \<Longrightarrow> l \<notin> U \<Longrightarrow> ends rn (names l) = None"
  unfolding uses_def by (metis inj_image_mem_iff)

lemma sk_make_end_uses:
  assumes "inj names" and "uses names U rn" and "l \<notin> U"
  shows "\<exists>rn'. sk_make_end (names l) s rn = Some rn' \<and> uses names (insert l U) rn'"
  using assms(2) uses_fresh [OF assms] by (auto simp: sk_make_end_def MakeEnd_def Connect_def uses_def)

lemma sk_ends_uses:
  assumes "inj names" and "uses names U rn" and "inj lab" and "\<And>j. lab j \<notin> U"
  shows "\<exists>rn'. sk_ends f (\<lambda>j. names (lab j)) k rn = Some rn' \<and> uses names (U \<union> range lab) rn'"
proof -
  have "\<exists>rn'. sk_ends f (\<lambda>j. names (lab j)) k rn = Some rn' \<and> uses names (U \<union> lab ` {..<k}) rn'"
  proof (induction k)
    case 0
    then show ?case using assms(2) by (simp add: sk_ends_def)
  next
    case (Suc k)
    then obtain r where r: "sk_ends f (\<lambda>j. names (lab j)) k rn = Some r" "uses names (U \<union> lab ` {..<k}) r" by blast
    have "lab k \<notin> U \<union> lab ` {..<k}" using assms(3,4) by (auto simp: inj_image_mem_iff)
    from sk_make_end_uses [OF assms(1) r(2) this, of "f k"] show ?case
      using r(1) by (auto simp: sk_ends_def for_each_append lessThan_Suc)
  qed
  moreover have "uses names (U \<union> lab ` {..<k}) r \<Longrightarrow> uses names (U \<union> range lab) r" for r :: "(string, string, 'a, 'b, 'c) Network"
    unfolding uses_def by blast
  ultimately show ?thesis by blast
qed

lemma disable_loop:
  assumes "for_each (disable_row rows i) js rn = Some rn'"
  shows "Network.servers rn' = Network.servers rn" "ends rn' = ends rn"
proof -
  have "Network.servers rn' = Network.servers rn \<and> ends rn' = ends rn"
    by (rule for_each_inv [OF assms]) (auto simp: disable_row_def split: bind_splits)
  then show "Network.servers rn' = Network.servers rn" "ends rn' = ends rn" by auto
qed

subsection \<open>The invariant\<close>

text \<open>
  Every group has one slot per server; the network offers the current instance of a server under its name;
  an instance shares its persister with the harness. Groups that are not made yet offer nothing.
\<close>

definition group_ok :: "nat \<Rightarrow> ('a, 'b) skconfig \<Rightarrow> group \<Rightarrow> bool" where
  "group_ok gi cfg gg \<longleftrightarrow>
     gid gg = 100 + int gi \<and> length (g_servers gg) = sk_n cfg \<and> length (g_saved gg) = sk_n cfg \<and>
     length (g_endnames gg) = sk_n cfg \<and> length (g_mendnames gg) = nmasters cfg \<and>
     (\<forall>i < sk_n cfg. \<forall>es. g_endnames gg ! i = Some es \<longrightarrow> length es = sk_n cfg) \<and>
     (\<forall>i < sk_n cfg. \<forall>p. g_servers gg ! i = Some p \<longleftrightarrow> g_saved gg ! i = Shared p) \<and>
     (\<forall>i < sk_n cfg. \<forall>p. g_servers gg ! i = Some p \<longrightarrow> sk_heap cfg p \<noteq> None) \<and>
     (\<forall>i < sk_n cfg. zget None (Network.servers (sk_net cfg)) (servername (100 + int gi) i) = g_servers gg ! i)"

definition sk_wf :: "('a, 'b) skconfig \<Rightarrow> bool" where
  "sk_wf cfg \<longleftrightarrow>
     (\<forall>gi < length (groups cfg). case groups cfg ! gi of
        None \<Rightarrow> \<forall>i. zget None (Network.servers (sk_net cfg)) (servername (100 + int gi) i) = None
      | Some gg \<Rightarrow> group_ok gi cfg gg) \<and>
     (\<forall>p. sk_fresh cfg \<le> p \<longrightarrow> sk_heap cfg p = None)"

lemma the_group_Some: "the_group gi cfg = Some gg \<longleftrightarrow> gi < length (groups cfg) \<and> groups cfg ! gi = Some gg"
  by (auto simp: the_group_def slot_def split: bind_splits)

lemma sk_wf_group: "sk_wf cfg \<Longrightarrow> the_group gi cfg = Some gg \<Longrightarrow> group_ok gi cfg gg"
  unfolding sk_wf_def the_group_Some by (metis option.simps(5))

lemma group_okD:
  assumes "group_ok gi cfg gg"
  shows "gid gg = 100 + int gi" "length (g_servers gg) = sk_n cfg" "length (g_saved gg) = sk_n cfg"
    "length (g_endnames gg) = sk_n cfg" "length (g_mendnames gg) = nmasters cfg"
    and "i < sk_n cfg \<Longrightarrow> g_endnames gg ! i = Some es \<Longrightarrow> length es = sk_n cfg"
    and "i < sk_n cfg \<Longrightarrow> g_servers gg ! i = Some p \<longleftrightarrow> g_saved gg ! i = Shared p"
    and "i < sk_n cfg \<Longrightarrow> g_servers gg ! i = Some p \<Longrightarrow> sk_heap cfg p \<noteq> None"
    and "i < sk_n cfg \<Longrightarrow> zget None (Network.servers (sk_net cfg)) (servername (100 + int gi) i) = g_servers gg ! i"
  using assms unfolding group_ok_def by blast+

lemma sk_wf_cong:
  assumes "groups c = groups d" "sk_n c = sk_n d" "nmasters c = nmasters d" "sk_heap c = sk_heap d" "sk_fresh c = sk_fresh d"
    "Network.servers (sk_net c) = Network.servers (sk_net d)"
  shows "sk_wf c = sk_wf d"
proof -
  have "group_ok gi c = group_ok gi d" for gi unfolding group_ok_def assms ..
  then show ?thesis unfolding sk_wf_def assms by (simp only:)
qed

text \<open>Changing one group, its servers' names and addresses above the old ones keeps the other groups.\<close>

lemma sk_wf_change:
  assumes wf: "sk_wf cfg" and gi: "gi < length (groups cfg)" and ok: "group_ok gi cfg' gg'"
    and same: "groups cfg' = (groups cfg)[gi := Some gg']" "sk_n cfg' = sk_n cfg" "nmasters cfg' = nmasters cfg"
    and heap: "\<And>p. sk_heap cfg p \<noteq> None \<Longrightarrow> sk_heap cfg' p \<noteq> None" "\<And>p. sk_fresh cfg' \<le> p \<Longrightarrow> sk_heap cfg' p = None"
    and srv: "\<And>g i. g \<noteq> gi \<Longrightarrow> Network.servers (sk_net cfg') (servername (100 + int g) i) = Network.servers (sk_net cfg) (servername (100 + int g) i)"
  shows "sk_wf cfg'"
proof -
  have z: "zget None (Network.servers (sk_net cfg')) (servername (100 + int g) i) = zget None (Network.servers (sk_net cfg)) (servername (100 + int g) i)"
    if "g \<noteq> gi" for g i using srv [OF that] by (simp add: zget_def)
  have "case groups cfg' ! g of
        None \<Rightarrow> \<forall>i. zget None (Network.servers (sk_net cfg')) (servername (100 + int g) i) = None
      | Some gg \<Rightarrow> group_ok g cfg' gg" if g: "g < length (groups cfg')" for g
  proof (cases "g = gi")
    case True
    then show ?thesis using gi ok same(1) by simp
  next
    case False
    then have "groups cfg' ! g = groups cfg ! g" using same(1) by simp
    moreover have "case groups cfg ! g of
        None \<Rightarrow> \<forall>i. zget None (Network.servers (sk_net cfg)) (servername (100 + int g) i) = None
      | Some gg \<Rightarrow> group_ok g cfg gg" using wf g same(1) unfolding sk_wf_def by simp
    moreover have "group_ok g cfg' gg" if "group_ok g cfg gg" for gg
      using that heap(1) unfolding group_ok_def same(2,3) z [OF False] by blast
    ultimately show ?thesis using z [OF False] by (auto split: option.splits)
  qed
  then show ?thesis using heap(2) unfolding sk_wf_def by blast
qed

subsection \<open>Starting and stopping a server\<close>

definition sk_last :: "nat \<Rightarrow> group \<Rightarrow> ('a, 'b) skconfig \<Rightarrow> unit gobval Persister" where
  "sk_last i gg cfg = (case sk_saved_get (g_saved gg ! i) cfg of None \<Rightarrow> MakePersister | Some ps \<Rightarrow> Copy ps)"

lemma sk_saved_ok:
  assumes "group_ok gi cfg gg" and "i < sk_n cfg" and "g_saved gg ! i \<noteq> Nil_saved"
  shows "sk_saved_get (g_saved gg ! i) cfg \<noteq> None"
  using assms group_okD(7,8) [OF assms(1,2)] by (cases "g_saved gg ! i") (auto simp: sk_saved_get_def)

definition sk_started ::
  "(nat \<Rightarrow> string) \<Rightarrow> (nat \<Rightarrow> string) \<Rightarrow> int \<times> int \<times> int \<Rightarrow> nat \<Rightarrow> nat \<Rightarrow> group \<Rightarrow>
   (string, string, 'a, 'b, receiver) Network \<Rightarrow> ('a, 'b) skconfig \<Rightarrow> ('a, 'b) skconfig" where
  "sk_started names mnames seed gi i gg rn cfg =
     (let p = sk_fresh cfg; (now, rnd1, rnd2) = seed; mends = map mnames [0..<nmasters cfg] in
      (set_group gi (gg\<lparr>g_endnames := (g_endnames gg)[i := Some (map names [0..<sk_n cfg])], g_mendnames := (g_mendnames gg)[i := Some mends],
          g_saved := (g_saved gg)[i := Shared p], g_servers := (g_servers gg)[i := Some p]\<rparr>) cfg)\<lparr>
        sk_heap := (sk_heap cfg)(p \<mapsto>
          skv_StartServer (sk_n cfg) (int i) (sk_last i gg cfg) (sk_maxraftstate cfg) (gid gg) mends now rnd1 rnd2),
        sk_fresh := p + 1, sk_net := rn\<rparr>)"

lemma sk_StartServer_Some:
  assumes wf: "sk_wf cfg" and gg: "the_group gi cfg = Some gg" and i: "i < sk_n cfg"
    and s: "sk_StartServer kms rms names mnames seed gi i cfg = Some cfg'"
  obtains rn where "Network.servers rn = (Network.servers (sk_net cfg))(servername (100 + int gi) i \<mapsto> Some (sk_fresh cfg))"
    and "cfg' = sk_started names mnames seed gi i gg rn cfg" and "i < nmasters cfg"
proof -
  have ok: "group_ok gi cfg gg" by (rule sk_wf_group [OF wf gg])
  note G = group_okD [OF ok]
  have "(if g_saved gg ! i = Nil_saved then Some MakePersister else map_option Copy (sk_saved_get (g_saved gg ! i) cfg)) = Some (sk_last i gg cfg)"
    using sk_saved_ok [OF ok i] by (auto simp: sk_last_def sk_saved_get_def)
  then obtain rn1 rn2 where rn: "sk_ends (servername (gid gg)) names (sk_n cfg) (sk_net cfg) = Some rn1"
      "sk_ends mastername mnames (nmasters cfg) rn1 = Some rn2" "i < nmasters cfg"
      "\<exists>srv. cfg' = sk_started names mnames seed gi i gg (AddServer (servername (gid gg) i) (sk_fresh cfg) (rn2\<lparr>objs := (objs rn2)(sk_fresh cfg \<mapsto> srv)\<rparr>)) cfg"
    using s i G(2-5) by (auto simp: sk_StartServer_def gg Let_def go_panic sk_started_def set_group_def split: bind_splits prod.splits)
  have "Network.servers rn2 = Network.servers (sk_net cfg)" using sk_ends_servers [OF rn(1)] sk_ends_servers [OF rn(2)] by simp
  then have "Network.servers (AddServer (servername (gid gg) i) (sk_fresh cfg) (rn2\<lparr>objs := ob\<rparr>)) =
      (Network.servers (sk_net cfg))(servername (100 + int gi) i \<mapsto> Some (sk_fresh cfg))" for ob
    using G(1) by (simp add: AddServer_def)
  then show thesis using that rn(3,4) by blast
qed

lemma sk_started_simps [simp]:
  "sk_n (sk_started names mnames seed gi i gg rn cfg) = sk_n cfg" "nmasters (sk_started names mnames seed gi i gg rn cfg) = nmasters cfg"
  "sk_net (sk_started names mnames seed gi i gg rn cfg) = rn" "sk_fresh (sk_started names mnames seed gi i gg rn cfg) = sk_fresh cfg + 1"
  "groups (sk_started names mnames seed gi i gg rn cfg) = (groups cfg)[gi := Some (gg\<lparr>
     g_endnames := (g_endnames gg)[i := Some (map names [0..<sk_n cfg])],
     g_mendnames := (g_mendnames gg)[i := Some (map mnames [0..<nmasters cfg])],
     g_saved := (g_saved gg)[i := Shared (sk_fresh cfg)], g_servers := (g_servers gg)[i := Some (sk_fresh cfg)]\<rparr>)]"
  "sk_heap (sk_started names mnames seed gi i gg rn cfg) = (sk_heap cfg)(sk_fresh cfg \<mapsto> (case seed of (now, rnd1, rnd2) \<Rightarrow>
     skv_StartServer (sk_n cfg) (int i) (sk_last i gg cfg) (sk_maxraftstate cfg) (gid gg) (map mnames [0..<nmasters cfg]) now rnd1 rnd2))"
  "ngroups (sk_started names mnames seed gi i gg rn cfg) = ngroups cfg" "sk_clerks (sk_started names mnames seed gi i gg rn cfg) = sk_clerks cfg"
  by (simp_all add: sk_started_def set_group_def Let_def split: prod.splits)

lemma sk_started_wf:
  assumes wf: "sk_wf cfg" and gg: "the_group gi cfg = Some gg" and i: "i < sk_n cfg"
    and rn: "Network.servers rn = (Network.servers (sk_net cfg))(servername (100 + int gi) i \<mapsto> Some (sk_fresh cfg))"
  shows "sk_wf (sk_started names mnames seed gi i gg rn cfg)"
proof -
  have ok: "group_ok gi cfg gg" by (rule sk_wf_group [OF wf gg])
  note G = group_okD [OF ok]
  let ?c = "sk_started names mnames seed gi i gg rn cfg"
  let ?g = "gg\<lparr>g_endnames := (g_endnames gg)[i := Some (map names [0..<sk_n cfg])],
     g_mendnames := (g_mendnames gg)[i := Some (map mnames [0..<nmasters cfg])],
     g_saved := (g_saved gg)[i := Shared (sk_fresh cfg)], g_servers := (g_servers gg)[i := Some (sk_fresh cfg)]\<rparr>"
  have "group_ok gi ?c ?g"
    unfolding group_ok_def
  proof (intro conjI allI impI)
    fix k p es assume k: "k < sk_n ?c"
    show "g_servers ?g ! k = Some p \<longleftrightarrow> g_saved ?g ! k = Shared p"
      using k i G(2,3) G(7) [of k p] by (cases "k = i") auto
    show "sk_heap ?c p \<noteq> None" if "g_servers ?g ! k = Some p"
      using that k i G(2) G(8) [of k p] by (cases "k = i") auto
    show "zget None (Network.servers (sk_net ?c)) (servername (100 + int gi) k) = g_servers ?g ! k"
      using k i G(2) G(9) [of k] rn by (cases "k = i") (auto simp: zget_def servername_inject)
    show "length es = sk_n ?c" if "g_endnames ?g ! k = Some es"
      using that k i G(4) G(6) [of k es] by (cases "k = i") auto
  qed (use G(1-5) in simp_all)
  then show ?thesis
    using wf gg rn by (intro sk_wf_change [OF wf _ \<open>group_ok gi ?c ?g\<close>]) (auto simp: the_group_Some servername_inject sk_wf_def)
qed

definition sk_stopped :: "nat \<Rightarrow> nat \<Rightarrow> group \<Rightarrow> (string, string, 'a, 'b, receiver) Network \<Rightarrow> ('a, 'b) skconfig \<Rightarrow> ('a, 'b) skconfig" where
  "sk_stopped gi i gg rn cfg =
     (let cfg1 = set_group gi (gg\<lparr>
            g_saved := (g_saved gg)[i := if g_saved gg ! i = Nil_saved then Nil_saved else Own (sk_last i gg cfg)],
            g_servers := (g_servers gg)[i := None]\<rparr>) (cfg\<lparr>sk_net := rn\<rparr>)
      in case g_servers gg ! i of None \<Rightarrow> cfg1 | Some p \<Rightarrow> sk_kill p cfg1)"

lemma disable_total:
  assumes "i < length rows" and "rows ! i = Some es" and "k \<le> length es"
  shows "\<exists>rn'. for_each (disable_row rows i) [0..<k] rn = Some rn'"
  using assms(3)
proof (induction k)
  case (Suc k)
  then obtain r where "for_each (disable_row rows i) [0..<k] rn = Some r" by auto
  moreover have "disable_row rows i k r = Some (Enable (es ! k) False r)" using assms(1,2) Suc.prems by (simp add: disable_row_def)
  ultimately show ?case by (simp add: for_each_append)
qed simp

lemma sk_ShutdownServer_eq:
  assumes wf: "sk_wf cfg" and gg: "the_group gi cfg = Some gg" and i: "i < sk_n cfg" "i < nmasters cfg"
    and row: "g_endnames gg ! i \<noteq> None"
  shows "\<exists>rn. sk_ShutdownServer gi i cfg = Some (sk_stopped gi i gg rn cfg) \<and>
    Network.servers rn = (Network.servers (sk_net cfg))(servername (100 + int gi) i \<mapsto> None) \<and> ends rn = ends (sk_net cfg)"
proof -
  have ok: "group_ok gi cfg gg" by (rule sk_wf_group [OF wf gg])
  note G = group_okD [OF ok]
  obtain es where es: "g_endnames gg ! i = Some es" using row by blast
  obtain rn1 where rn1: "for_each (disable_row (g_endnames gg) i) [0..<length (g_servers gg)] (sk_net cfg) = Some rn1"
    using disable_total [OF _ es, of "length (g_servers gg)" "sk_net cfg"] G(2,4) G(6) [OF i(1) es] i(1) by auto
  have "\<exists>rn2. for_each (disable_row (g_mendnames gg) i) [0..<(case g_mendnames gg ! i of None \<Rightarrow> 0 | Some es \<Rightarrow> length es)] rn1 = Some rn2"
    using disable_total [of i "g_mendnames gg"] G(5) i(2) by (cases "g_mendnames gg ! i") auto
  then obtain rn2 where rn2: "for_each (disable_row (g_mendnames gg) i) [0..<(case g_mendnames gg ! i of None \<Rightarrow> 0 | Some es \<Rightarrow> length es)] rn1 = Some rn2"
    by blast
  have "(if g_saved gg ! i = Nil_saved then Some Nil_saved else map_option (\<lambda>ps. Own (Copy ps)) (sk_saved_get (g_saved gg ! i) cfg)) =
      Some (if g_saved gg ! i = Nil_saved then Nil_saved else Own (sk_last i gg cfg))"
    using sk_saved_ok [OF ok i(1)] by (auto simp: sk_last_def)
  then have "sk_ShutdownServer gi i cfg = Some (sk_stopped gi i gg (DeleteServer (servername (gid gg) i) rn2) cfg)"
    using rn1 rn2 gg i G(2,3,5) by (simp add: sk_ShutdownServer_def sk_stopped_def Let_def)
  then show ?thesis using disable_loop [OF rn1] disable_loop [OF rn2] G(1) by (auto simp: DeleteServer_def)
qed

lemma sk_stopped_simps [simp]:
  "sk_n (sk_stopped gi i gg rn cfg) = sk_n cfg" "nmasters (sk_stopped gi i gg rn cfg) = nmasters cfg"
  "sk_net (sk_stopped gi i gg rn cfg) = rn" "sk_fresh (sk_stopped gi i gg rn cfg) = sk_fresh cfg"
  "groups (sk_stopped gi i gg rn cfg) = (groups cfg)[gi := Some (gg\<lparr>
     g_saved := (g_saved gg)[i := if g_saved gg ! i = Nil_saved then Nil_saved else Own (sk_last i gg cfg)],
     g_servers := (g_servers gg)[i := None]\<rparr>)]"
  "sk_heap (sk_stopped gi i gg rn cfg) = (case g_servers gg ! i of None \<Rightarrow> sk_heap cfg
     | Some p \<Rightarrow> (sk_heap cfg)(p := map_option skv_Kill (sk_heap cfg p)))"
  "ngroups (sk_stopped gi i gg rn cfg) = ngroups cfg" "sk_clerks (sk_stopped gi i gg rn cfg) = sk_clerks cfg"
  by (simp_all add: sk_stopped_def set_group_def sk_kill_def Let_def split: option.split)

lemma sk_stopped_wf:
  assumes wf: "sk_wf cfg" and gg: "the_group gi cfg = Some gg" and i: "i < sk_n cfg"
    and rn: "Network.servers rn = (Network.servers (sk_net cfg))(servername (100 + int gi) i \<mapsto> None)"
  shows "sk_wf (sk_stopped gi i gg rn cfg)"
proof -
  have ok: "group_ok gi cfg gg" by (rule sk_wf_group [OF wf gg])
  note G = group_okD [OF ok]
  let ?c = "sk_stopped gi i gg rn cfg"
  let ?g = "gg\<lparr>g_saved := (g_saved gg)[i := if g_saved gg ! i = Nil_saved then Nil_saved else Own (sk_last i gg cfg)],
     g_servers := (g_servers gg)[i := None]\<rparr>"
  have "group_ok gi ?c ?g"
    unfolding group_ok_def
  proof (intro conjI allI impI)
    fix k p es assume k: "k < sk_n ?c"
    show "g_servers ?g ! k = Some p \<longleftrightarrow> g_saved ?g ! k = Shared p"
      using k i G(2,3) G(7) [of k p] by (cases "k = i") auto
    show "sk_heap ?c p \<noteq> None" if "g_servers ?g ! k = Some p"
      using that k i G(2) G(8) [of k p] by (cases "k = i") (auto split: option.split)
    show "zget None (Network.servers (sk_net ?c)) (servername (100 + int gi) k) = g_servers ?g ! k"
      using k i G(2) G(9) [of k] rn by (cases "k = i") (auto simp: zget_def servername_inject)
    show "length es = sk_n ?c" if "g_endnames ?g ! k = Some es" using that k G(6) [of k es] by auto
  qed (use G(1-5) in simp_all)
  then show ?thesis
    using wf gg rn by (intro sk_wf_change [OF wf _ \<open>group_ok gi ?c ?g\<close>])
      (auto simp: the_group_Some servername_inject sk_wf_def split: option.split)
qed

subsection \<open>Starting the harness\<close>

text \<open>What starting servers of a group leaves alone.\<close>

definition sk_frame :: "('a, 'b) skconfig \<Rightarrow> ('a, 'b) skconfig \<Rightarrow> bool" where
  "sk_frame cfg cfg' \<longleftrightarrow> sk_n cfg' = sk_n cfg \<and> nmasters cfg' = nmasters cfg \<and> ngroups cfg' = ngroups cfg \<and>
     length (groups cfg') = length (groups cfg) \<and> sk_clerks cfg' = sk_clerks cfg"

lemma start_group_loop:
  assumes wf: "sk_wf cfg" and gg: "the_group gi cfg = Some gg" and "k \<le> sk_n cfg"
    and "for_each (\<lambda>i. sk_StartServer kms rms (names i) (mnames i) (seeds i) gi i) [0..<k] cfg = Some cfg'"
  shows "sk_wf cfg' \<and> sk_frame cfg cfg' \<and> (\<forall>g. g \<noteq> gi \<longrightarrow> groups cfg' ! g = groups cfg ! g) \<and>
    (\<exists>gg'. the_group gi cfg' = Some gg' \<and> (\<forall>i < k. g_endnames gg' ! i \<noteq> None)) \<and> k \<le> nmasters cfg"
  using assms(3,4)
proof (induction k arbitrary: cfg')
  case 0
  then show ?case using wf gg by (auto simp: sk_frame_def)
next
  case (Suc k)
  obtain c where c: "for_each (\<lambda>i. sk_StartServer kms rms (names i) (mnames i) (seeds i) gi i) [0..<k] cfg = Some c"
    "sk_StartServer kms rms (names k) (mnames k) (seeds k) gi k c = Some cfg'"
    using Suc.prems by (auto simp: for_each_append split: bind_splits)
  have "k \<le> sk_n cfg" using Suc.prems(1) by simp
  note IH = Suc.IH [OF this c(1)]
  obtain g where g: "the_group gi c = Some g" "\<forall>i < k. g_endnames g ! i \<noteq> None" using IH by blast
  have w: "sk_wf c" "k < sk_n c" "nmasters c = nmasters cfg" using IH Suc.prems(1) by (simp_all add: sk_frame_def)
  obtain rn where rn: "Network.servers rn = (Network.servers (sk_net c))(servername (100 + int gi) k \<mapsto> Some (sk_fresh c))"
    "cfg' = sk_started (names k) (mnames k) (seeds k) gi k g rn c" "k < nmasters c"
    by (rule sk_StartServer_Some [OF w(1) g(1) w(2) c(2)])
  have "sk_wf cfg'" using sk_started_wf [OF w(1) g(1) w(2) rn(1)] rn(2) by simp
  moreover have "gi < length (groups c)" using g(1) by (simp add: the_group_Some)
  ultimately show ?case
    using IH g(2) rn(2,3) w(2,3) group_okD(4) [OF sk_wf_group [OF w(1) g(1)]]
    by (auto simp: sk_frame_def the_group_Some nth_list_update less_Suc_eq)
qed

lemma new_group_wf:
  assumes "sk_wf cfg" and "gi < length (groups cfg)" and "groups cfg ! gi = None"
  shows "sk_wf (set_group gi (new_group gi cfg) cfg)"
proof -
  have z: "zget None (Network.servers (sk_net cfg)) (servername (100 + int gi) i) = None" for i
    using conjunct1 [OF assms(1) [unfolded sk_wf_def], rule_format, OF assms(2)] assms(3) by simp
  then have ok: "group_ok gi (set_group gi (new_group gi cfg) cfg) (new_group gi cfg)"
    by (simp add: group_ok_def set_group_def new_group_def)
  show ?thesis by (rule sk_wf_change [OF assms(1,2) ok]) (use assms(1) in \<open>auto simp: set_group_def sk_wf_def\<close>)
qed

lemma start_groups_loop:
  assumes wf: "sk_wf cfg" and none: "\<forall>gi < length (groups cfg). groups cfg ! gi = None" and "g \<le> length (groups cfg)"
    and "for_each (\<lambda>gi cfg. StartGroup kms rms names seeds gi (set_group gi (new_group gi cfg) cfg)) [0..<g] cfg = Some cfg'"
  shows "sk_wf cfg' \<and> sk_frame cfg cfg' \<and> (\<forall>gi < length (groups cfg). g \<le> gi \<longrightarrow> groups cfg' ! gi = None) \<and>
    (\<forall>gi < g. \<exists>gg. the_group gi cfg' = Some gg \<and> (\<forall>i < sk_n cfg. g_endnames gg ! i \<noteq> None)) \<and>
    (0 < g \<longrightarrow> sk_n cfg \<le> nmasters cfg)"
  using assms(3,4)
proof (induction g arbitrary: cfg')
  case 0
  then show ?case using wf none by (simp add: sk_frame_def)
next
  case (Suc g)
  obtain c where c: "for_each (\<lambda>gi cfg. StartGroup kms rms names seeds gi (set_group gi (new_group gi cfg) cfg)) [0..<g] cfg = Some c"
    "StartGroup kms rms names seeds g (set_group g (new_group g c) c) = Some cfg'"
    using Suc.prems by (auto simp: for_each_append split: bind_splits)
  let ?c = "set_group g (new_group g c) c"
  have "g \<le> length (groups cfg)" using Suc.prems(1) by simp
  note IH = Suc.IH [OF this c(1)]
  have g: "g < length (groups c)" "groups c ! g = None" "sk_n ?c = sk_n cfg" "nmasters ?c = nmasters cfg"
    using IH Suc.prems(1) by (simp_all add: sk_frame_def set_group_def)
  have wf': "sk_wf ?c" by (rule new_group_wf) (use IH g in auto)
  have gg: "the_group g ?c = Some (new_group g c)" using g(1) by (simp add: the_group_Some set_group_def)
  have F: "sk_frame cfg ?c" using IH by (simp add: sk_frame_def set_group_def)
  note S = start_group_loop [OF wf' gg order_refl c(2) [unfolded StartGroup_def]]
  have o: "groups cfg' ! h = groups c ! h" if "h \<noteq> g" for h using S that by (simp add: set_group_def)
  have l: "length (groups cfg') = length (groups cfg)" "length (groups c) = length (groups cfg)" using S F IH by (simp_all add: sk_frame_def)
  have "sk_frame cfg cfg'" using S F by (simp add: sk_frame_def)
  moreover have "\<exists>gg. the_group h cfg' = Some gg \<and> (\<forall>i < sk_n cfg. g_endnames gg ! i \<noteq> None)" if "h < Suc g" for h
    using that S IH g(3) o [of h] l by (cases "h = g") (auto simp: the_group_Some less_Suc_eq)
  moreover have "groups cfg' ! h = None" if "h < length (groups cfg)" "Suc g \<le> h" for h using that IH o [of h] by simp
  ultimately show ?case using S g(3,4) by simp
qed

text \<open>The masters register no server of a group.\<close>

lemma masters_loop:
  assumes "for_each (\<lambda>i. StartMasterServer sms rms (names i) (mseeds i) i) [0..<k] (sk_config0 mx :: ('a, 'b) skconfig) = Some cfg"
  shows "nmasters cfg = 3 \<and> sk_heap cfg = Map.empty \<and> (\<forall>g i. Network.servers (sk_net cfg) (servername g i) = None)"
proof (rule for_each_inv [OF assms])
  fix i and t t' :: "('a, 'b) skconfig" assume I: "nmasters t = 3 \<and> sk_heap t = Map.empty \<and> (\<forall>g i. Network.servers (sk_net t) (servername g i) = None)"
    and s: "StartMasterServer sms rms (names i) (mseeds i) i t = Some t'"
  then show "nmasters t' = 3 \<and> sk_heap t' = Map.empty \<and> (\<forall>g i. Network.servers (sk_net t') (servername g i) = None)"
    by (auto simp: StartMasterServer_def Let_def AddServer_def dest!: sk_ends_servers split: bind_splits prod.splits)
qed (simp add: sk_config0_def MakeNetwork_def)

definition sk_up :: "nat \<Rightarrow> ('a, 'b) skconfig \<Rightarrow> bool" where
  "sk_up n cfg \<longleftrightarrow> sk_wf cfg \<and> sk_n cfg = n \<and> n \<le> 3 \<and> nmasters cfg = 3 \<and> ngroups cfg = 3 \<and> length (groups cfg) = 3 \<and>
     (\<forall>gi < 3. \<exists>gg. the_group gi cfg = Some gg \<and> (\<forall>i < n. g_endnames gg ! i \<noteq> None)) \<and> sk_clerks cfg \<noteq> None"

lemma sk_up_group:
  assumes "sk_up n cfg" and "gi < 3"
  obtains gg where "the_group gi cfg = Some gg" "\<And>i. i < n \<Longrightarrow> g_endnames gg ! i \<noteq> None"
  using assms unfolding sk_up_def by blast

lemma sk_make_config_up:
  assumes "sk_make_config sms kms rms names mseeds seeds n unrel mx = Some cfg"
  shows "sk_up n cfg"
proof -
  obtain c1 c2 ck c4 where c: "for_each (\<lambda>i. StartMasterServer sms rms (\<lambda>j. names (MasterEnd i j)) (mseeds i) i) [0..<3] (sk_config0 mx) = Some c1"
    "shardclerk (\<lambda>j. names (MckEnd j)) c1 = Some (c2, ck)"
    "for_each (\<lambda>gi cfg. StartGroup kms rms names seeds gi (set_group gi (new_group gi cfg) cfg)) [0..<3]
       (c2\<lparr>mck := ck, ngroups := 3, groups := replicate 3 None, sk_n := n\<rparr>) = Some c4"
    "cfg = c4\<lparr>sk_clerks := Some Map.empty, sk_nextClientId := int n + 1000, sk_net := Reliable (\<not> unrel) (sk_net c4)\<rparr>"
    using assms by (auto simp: sk_make_config_def Let_def split: bind_splits)
  let ?c = "c2\<lparr>mck := ck, ngroups := 3, groups := replicate 3 None, sk_n := n\<rparr>"
  have c2: "nmasters c2 = 3" "sk_heap c2 = Map.empty" "Network.servers (sk_net c2) (servername g i) = None" for g i
    using masters_loop [OF c(1)] c(2) by (auto simp: shardclerk_def dest!: sk_ends_servers split: bind_splits)
  have wf: "sk_wf ?c" using c2 by (simp add: sk_wf_def zget_def)
  have g3: "3 \<le> length (groups ?c)" "\<forall>gi < length (groups ?c). groups ?c ! gi = None" by simp_all
  note S = start_groups_loop [OF wf g3(2,1) c(3)]
  have "sk_wf cfg = sk_wf c4" by (rule sk_wf_cong) (simp_all add: c(4) Reliable_def)
  then have "sk_wf cfg" using S by simp
  moreover have "the_group gi cfg = the_group gi c4" for gi using c(4) by (simp add: the_group_def)
  ultimately show ?thesis using S c(4) c2(1) by (simp add: sk_up_def sk_frame_def)
qed

text \<open>With distinct names nothing but the number of servers can stop the start.\<close>

definition labels_to :: "nat \<Rightarrow> nat \<Rightarrow> end_label set" where
  "labels_to g k =
     {l. case l of MasterEnd i j \<Rightarrow> True | MckEnd j \<Rightarrow> True | ClientEnd c j \<Rightarrow> False
         | GroupEnd h i j \<Rightarrow> h < g \<or> h = g \<and> i < k | GroupMaster h i j \<Rightarrow> h < g \<or> h = g \<and> i < k}"

lemma uses_mono: "uses names U rn \<Longrightarrow> U \<subseteq> V \<Longrightarrow> uses names V rn"
  unfolding uses_def by blast

lemma sk_StartServer_total:
  assumes wf: "sk_wf cfg" and gg: "the_group gi cfg = Some gg" and i: "i < sk_n cfg" "i < nmasters cfg"
    and inj: "inj names" and use: "uses names U (sk_net cfg)"
    and l: "inj l1" "inj l2" "\<And>j. l1 j \<notin> U" "\<And>j. l2 j \<notin> U \<union> range l1"
  shows "\<exists>cfg'. sk_StartServer kms rms (\<lambda>j. names (l1 j)) (\<lambda>j. names (l2 j)) seed gi i cfg = Some cfg' \<and>
    uses names (U \<union> range l1 \<union> range l2) (sk_net cfg')"
proof -
  have ok: "group_ok gi cfg gg" by (rule sk_wf_group [OF wf gg])
  note G = group_okD [OF ok]
  obtain rn1 where rn1: "sk_ends (servername (gid gg)) (\<lambda>j. names (l1 j)) (sk_n cfg) (sk_net cfg) = Some rn1" "uses names (U \<union> range l1) rn1"
    using sk_ends_uses [OF inj use l(1,3)] by blast
  obtain rn2 where rn2: "sk_ends mastername (\<lambda>j. names (l2 j)) (nmasters cfg) rn1 = Some rn2" "uses names (U \<union> range l1 \<union> range l2) rn2"
    using sk_ends_uses [OF inj rn1(2) l(2,4)] by blast
  have "(if g_saved gg ! i = Nil_saved then Some MakePersister else map_option Copy (sk_saved_get (g_saved gg ! i) cfg)) = Some (sk_last i gg cfg)"
    using sk_saved_ok [OF ok i(1)] by (auto simp: sk_last_def sk_saved_get_def)
  then show ?thesis
    using rn1(1) rn2 gg i G(2-5) by (cases seed) (simp add: sk_StartServer_def Let_def uses_def AddServer_def)
qed

lemma start_group_total:
  assumes wf: "sk_wf cfg" and gg: "the_group gi cfg = Some gg" and "k \<le> sk_n cfg" and n: "sk_n cfg \<le> nmasters cfg"
    and inj: "inj names" and use: "uses names (labels_to gi 0) (sk_net cfg)"
  shows "\<exists>cfg'. for_each (\<lambda>i. sk_StartServer kms rms (\<lambda>j. names (GroupEnd gi i j)) (\<lambda>j. names (GroupMaster gi i j)) (seeds i) gi i)
      [0..<k] cfg = Some cfg' \<and> uses names (labels_to gi k) (sk_net cfg')"
  using assms(3)
proof (induction k)
  case (Suc k)
  let ?f = "\<lambda>i. sk_StartServer kms rms (\<lambda>j. names (GroupEnd gi i j)) (\<lambda>j. names (GroupMaster gi i j)) (seeds i) gi i"
  obtain c where c: "for_each ?f [0..<k] cfg = Some c" "uses names (labels_to gi k) (sk_net c)" using Suc by auto
  have "k \<le> sk_n cfg" using Suc.prems by simp
  note S = start_group_loop [OF wf gg this c(1)]
  obtain g where g: "the_group gi c = Some g" using S by blast
  have "sk_wf c" "k < sk_n c" "k < nmasters c" using S Suc.prems n by (simp_all add: sk_frame_def)
  then obtain d where d: "?f k c = Some d" "uses names (labels_to gi k \<union> range (GroupEnd gi k) \<union> range (GroupMaster gi k)) (sk_net d)"
    using sk_StartServer_total [OF _ g _ _ inj c(2), of k "GroupEnd gi k" "GroupMaster gi k" kms rms "seeds k"]
    by (auto simp: inj_def labels_to_def)
  have "labels_to gi k \<union> range (GroupEnd gi k) \<union> range (GroupMaster gi k) \<subseteq> labels_to gi (Suc k)"
    by (auto simp: labels_to_def split: end_label.splits)
  from uses_mono [OF d(2) this] show ?case using c(1) d(1) by (auto simp: for_each_append)
qed (use use in simp)

lemma start_groups_total:
  assumes wf: "sk_wf cfg" and none: "\<forall>gi < length (groups cfg). groups cfg ! gi = None" and "g \<le> length (groups cfg)"
    and n: "sk_n cfg \<le> nmasters cfg" and inj: "inj names" and use: "uses names (labels_to 0 0) (sk_net cfg)"
  shows "\<exists>cfg'. for_each (\<lambda>gi cfg. StartGroup kms rms names seeds gi (set_group gi (new_group gi cfg) cfg)) [0..<g] cfg = Some cfg' \<and>
    uses names (labels_to g 0) (sk_net cfg')"
  using assms(3)
proof (induction g)
  case (Suc g)
  then obtain c where c: "for_each (\<lambda>gi cfg. StartGroup kms rms names seeds gi (set_group gi (new_group gi cfg) cfg)) [0..<g] cfg = Some c"
    "uses names (labels_to g 0) (sk_net c)" by auto
  have "g \<le> length (groups cfg)" using Suc.prems by simp
  note S = start_groups_loop [OF wf none this c(1)]
  let ?c = "set_group g (new_group g c) c"
  have g: "g < length (groups c)" "groups c ! g = None" "sk_n ?c \<le> nmasters ?c"
    using S Suc.prems n by (simp_all add: sk_frame_def set_group_def)
  have wf': "sk_wf ?c" by (rule new_group_wf) (use S g in auto)
  have gg: "the_group g ?c = Some (new_group g c)" using g(1) by (simp add: the_group_Some set_group_def)
  have u: "uses names (labels_to g 0) (sk_net ?c)" using c(2) by (simp add: set_group_def)
  obtain d where d: "StartGroup kms rms names seeds g ?c = Some d" "uses names (labels_to g (sk_n ?c)) (sk_net d)"
    using start_group_total [OF wf' gg order_refl g(3) inj u, of kms rms "seeds g"] by (auto simp: StartGroup_def)
  have "labels_to g (sk_n ?c) \<subseteq> labels_to (Suc g) 0" by (auto simp: labels_to_def split: end_label.splits)
  from uses_mono [OF d(2) this] show ?case using c(1) d(1) by (auto simp: for_each_append)
qed (use use in simp)

lemma masters_total:
  assumes inj: "inj names" and "k \<le> 3"
  shows "\<exists>cfg. for_each (\<lambda>i. StartMasterServer sms rms (\<lambda>j. names (MasterEnd i j)) (mseeds i) i) [0..<k] (sk_config0 mx) = Some cfg \<and>
    uses names {l. \<exists>i j. l = MasterEnd i j \<and> i < k} (sk_net cfg) \<and> nmasters cfg = 3 \<and> length (masterservers cfg) = 3"
  using assms(2)
proof (induction k)
  case 0
  then show ?case by (simp add: sk_config0_def MakeNetwork_def uses_def)
next
  case (Suc k)
  let ?U = "\<lambda>k. {l. \<exists>i j. l = MasterEnd i j \<and> i < k}"
  obtain c where c: "for_each (\<lambda>i. StartMasterServer sms rms (\<lambda>j. names (MasterEnd i j)) (mseeds i) i) [0..<k] (sk_config0 mx) = Some c"
    "uses names (?U k) (sk_net c)" "nmasters c = 3" "length (masterservers c) = 3" using Suc by auto
  obtain rn where rn: "sk_ends mastername (\<lambda>j. names (MasterEnd k j)) 3 (sk_net c) = Some rn" "uses names (?U k \<union> range (MasterEnd k)) rn"
    using sk_ends_uses [OF inj c(2), of "MasterEnd k"] by (auto simp: inj_def)
  have "?U k \<union> range (MasterEnd k) \<subseteq> ?U (Suc k)" by auto
  from uses_mono [OF rn(2) this] have u: "uses names (?U (Suc k)) rn" .
  have "\<exists>d. StartMasterServer sms rms (\<lambda>j. names (MasterEnd k j)) (mseeds k) k c = Some d \<and> uses names (?U (Suc k)) (sk_net d) \<and>
      nmasters d = 3 \<and> length (masterservers d) = 3"
    using c(3,4) rn(1) u Suc.prems by (cases "mseeds k") (simp add: StartMasterServer_def Let_def uses_def AddServer_def)
  then show ?case using c(1) by (auto simp: for_each_append)
qed

lemma sk_make_config_total:
  assumes inj: "inj names" and "n \<le> 3"
  shows "\<exists>cfg. sk_make_config sms kms rms names mseeds seeds n unrel mx = Some cfg \<and> uses names (labels_to 3 0) (sk_net cfg)"
proof -
  obtain c1 where c1: "for_each (\<lambda>i. StartMasterServer sms rms (\<lambda>j. names (MasterEnd i j)) (mseeds i) i) [0..<3] (sk_config0 mx) = Some c1"
    "uses names {l. \<exists>i j. l = MasterEnd i j \<and> i < 3} (sk_net c1)" "nmasters c1 = 3"
    using masters_total [OF inj order_refl, of sms rms mseeds mx] by blast
  obtain rn where rn: "sk_ends mastername (\<lambda>j. names (MckEnd j)) 3 (sk_net c1) = Some rn"
    "uses names ({l. \<exists>i j. l = MasterEnd i j \<and> i < 3} \<union> range MckEnd) rn"
    using sk_ends_uses [OF inj c1(2), of MckEnd] by (auto simp: inj_def)
  let ?c = "c1\<lparr>sk_net := rn, mck := map (\<lambda>j. names (MckEnd j)) [0..<3], ngroups := 3, groups := replicate 3 None, sk_n := n\<rparr>"
  have "{l. \<exists>i j. l = MasterEnd i j \<and> i < 3} \<union> range MckEnd \<subseteq> labels_to 0 0" by (auto simp: labels_to_def)
  then have u: "uses names (labels_to 0 0) (sk_net ?c)" using uses_mono [OF rn(2)] by simp
  have M: "Network.servers rn (servername g i) = None" "sk_heap c1 = Map.empty" for g i
    using masters_loop [OF c1(1)] sk_ends_servers [OF rn(1)] by simp_all
  have wf: "sk_wf ?c" using M by (simp add: sk_wf_def zget_def)
  have none: "\<forall>gi < length (groups ?c). groups ?c ! gi = None" "3 \<le> length (groups ?c)" "sk_n ?c \<le> nmasters ?c"
    using assms(2) c1(3) by simp_all
  obtain c4 where "for_each (\<lambda>gi cfg. StartGroup kms rms names seeds gi (set_group gi (new_group gi cfg) cfg)) [0..<3] ?c = Some c4"
    "uses names (labels_to 3 0) (sk_net c4)"
    using start_groups_total [OF wf none inj u, of kms rms seeds] by blast
  then show ?thesis using c1(1,3) rn(1) by (simp add: sk_make_config_def shardclerk_def Let_def uses_def Reliable_def)
qed

lemma client_loop_length:
  fixes rn :: "(string, string, 'a, 'b, 'r) Network"
  assumes "for_each (client_end names) [0..<k] (es, rn) = Some s"
  shows "k \<le> length es"
proof (rule ccontr)
  assume "\<not> k \<le> length es"
  then have m: "length es \<in> set [0..<k]" by simp
  have "\<exists>(t :: string list \<times> (string, string, 'a, 'b, 'r) Network) t'. length (fst t) = length es \<and> client_end names (length es) t = Some t'"
  proof (rule for_each_reached [OF assms _ _ m])
    show "length (fst t') = length es" if "length (fst t) = length es" "client_end names j t = Some t'"
      for j and t t' :: "string list \<times> (string, string, 'a, 'b, 'r) Network"
      using that by (auto simp: client_end_def go_panic split: bind_splits prod.splits)
  qed simp
  then show False by (auto simp: client_end_def go_panic split: bind_splits prod.splits)
qed

lemma client_loop_total:
  assumes inj: "inj names" and use: "uses names U rn" and new: "\<And>j. ClientEnd c j \<notin> U" and "k \<le> length es"
  shows "\<exists>es' rn'. for_each (client_end (\<lambda>j. names (ClientEnd c j))) [0..<k] (es, rn) = Some (es', rn') \<and>
    length es' = length es \<and> uses names (U \<union> ClientEnd c ` {..<k}) rn'"
  using assms(4)
proof (induction k)
  case (Suc k)
  then obtain fs r where r: "for_each (client_end (\<lambda>j. names (ClientEnd c j))) [0..<k] (es, rn) = Some (fs, r)"
    "length fs = length es" "uses names (U \<union> ClientEnd c ` {..<k}) r" by auto
  have "ClientEnd c k \<notin> U \<union> ClientEnd c ` {..<k}" using new by auto
  from sk_make_end_uses [OF inj r(3) this, of "mastername k"] obtain r' where
    "sk_make_end (names (ClientEnd c k)) (mastername k) r = Some r'" "uses names (insert (ClientEnd c k) (U \<union> ClientEnd c ` {..<k})) r'" by blast
  moreover then have "client_end (\<lambda>j. names (ClientEnd c j)) k (fs, r) = Some (fs[k := names (ClientEnd c k)], r')"
    using r(2) Suc.prems by (simp add: client_end_def)
  ultimately show ?case using r(1,2) by (auto simp: for_each_append lessThan_Suc)
qed (use use in simp)

text \<open>
  C27: the size the harness is made for. With distinct random names, a test can start the harness with \<open>n\<close>
  servers per group and then make a clerk exactly when \<open>n\<close> is 3: with more, \<open>make_config\<close> runs off the end of
  \<open>mendnames\<close>, which has one slot per master, and with fewer, \<open>makeClient\<close> runs off the end of \<open>endnames\<close>,
  which has one slot per server.
\<close>
theorem sk_harness_needs_three:
  assumes "inj names"
  shows "(\<exists>cfg r. sk_make_config sms kms rms names mseeds seeds n unrel mx = Some cfg \<and>
      sk_makeClient (\<lambda>j. names (ClientEnd 0 j)) cfg = Some r) \<longleftrightarrow> n = 3"
proof
  assume "\<exists>cfg r. sk_make_config sms kms rms names mseeds seeds n unrel mx = Some cfg \<and>
      sk_makeClient (\<lambda>j. names (ClientEnd 0 j)) cfg = Some r"
  then obtain cfg r where m: "sk_make_config sms kms rms names mseeds seeds n unrel mx = Some cfg"
    "sk_makeClient (\<lambda>j. names (ClientEnd 0 j)) cfg = Some r" by blast
  have up: "n \<le> 3" "nmasters cfg = 3" "sk_n cfg = n" using sk_make_config_up [OF m(1)] by (simp_all add: sk_up_def)
  obtain s where "for_each (client_end (\<lambda>j. names (ClientEnd 0 j))) [0..<nmasters cfg] (replicate (sk_n cfg) '''', sk_net cfg) = Some s"
    using m(2) by (auto simp: sk_makeClient_def split: bind_splits)
  from client_loop_length [OF this] show "n = 3" using up by simp
next
  assume n: "n = 3"
  then obtain cfg where c: "sk_make_config sms kms rms names mseeds seeds n unrel mx = Some cfg" "uses names (labels_to 3 0) (sk_net cfg)"
    using sk_make_config_total [OF assms, of n sms kms rms mseeds seeds unrel mx] by auto
  have up: "nmasters cfg = 3" "sk_n cfg = 3" "sk_clerks cfg \<noteq> None" using sk_make_config_up [OF c(1)] n by (simp_all add: sk_up_def)
  have "ClientEnd 0 j \<notin> labels_to 3 0" for j by (simp add: labels_to_def)
  from client_loop_total [OF assms c(2) this, of 3 "replicate (sk_n cfg) ''''"] show
    "\<exists>cfg r. sk_make_config sms kms rms names mseeds seeds n unrel mx = Some cfg \<and>
      sk_makeClient (\<lambda>j. names (ClientEnd 0 j)) cfg = Some r"
    using c(1) up by (auto simp: sk_makeClient_def Let_def)
qed

subsection \<open>Runs of the harness\<close>

inductive sk_step :: "('a, 'b) skconfig \<Rightarrow> ('a, 'b) skconfig \<Rightarrow> bool" where
  shutdown: "gi < ngroups cfg \<Longrightarrow> i < sk_n cfg \<Longrightarrow> sk_ShutdownServer gi i cfg = Some cfg' \<Longrightarrow> sk_step cfg cfg'"
| start: "gi < ngroups cfg \<Longrightarrow> i < sk_n cfg \<Longrightarrow> sk_StartServer kms rms names mnames seed gi i cfg = Some cfg' \<Longrightarrow> sk_step cfg cfg'"
| client: "sk_makeClient names cfg = Some (cfg', ck, hs) \<Longrightarrow> sk_step cfg cfg'"
| delete: "sk_step cfg (fst (sk_deleteClient ck cfg))"
| work: "sk_heap cfg p = Some v \<Longrightarrow> sk_step cfg (cfg\<lparr>sk_heap := (sk_heap cfg)(p \<mapsto> v')\<rparr>)"

inductive sk_reach :: "nat \<Rightarrow> ('a, 'b) skconfig \<Rightarrow> bool" for n where
  boot: "sk_make_config sms kms rms names mseeds seeds n unrel mx = Some cfg \<Longrightarrow> sk_reach n cfg"
| step: "sk_reach n cfg \<Longrightarrow> sk_step cfg cfg' \<Longrightarrow> sk_reach n cfg'"

lemma sk_up_cong:
  assumes "sk_wf c = sk_wf d" "groups c = groups d" "sk_n c = sk_n d" "nmasters c = nmasters d" "ngroups c = ngroups d"
    "sk_clerks c = None \<longleftrightarrow> sk_clerks d = None"
  shows "sk_up n c = sk_up n d"
  unfolding sk_up_def the_group_def using assms by simp

lemma client_loop_servers:
  assumes "for_each (client_end names) js (es, rn) = Some (es', rn')"
  shows "Network.servers rn' = Network.servers rn"
proof -
  have "Network.servers (snd (es', rn')) = Network.servers rn"
    by (rule for_each_inv [OF assms, of "\<lambda>s. Network.servers (snd s) = Network.servers rn"])
      (auto simp: client_end_def sk_make_end_Some(3) split: bind_splits)
  then show ?thesis by simp
qed

lemma work_wf:
  assumes "sk_wf cfg" and "sk_heap cfg p = Some v"
  shows "sk_wf (cfg\<lparr>sk_heap := (sk_heap cfg)(p \<mapsto> v')\<rparr>)"
proof -
  have "group_ok gi cfg gg \<Longrightarrow> group_ok gi (cfg\<lparr>sk_heap := (sk_heap cfg)(p \<mapsto> v')\<rparr>) gg" for gi gg
    by (auto simp: group_ok_def)
  then show ?thesis using assms unfolding sk_wf_def by (auto split: option.splits)
qed

text \<open>Replacing one group by one with the same rows, or more, keeps the rest.\<close>

lemma sk_up_change:
  assumes up: "sk_up n cfg" and "sk_wf cfg'" and "gi < 3" and "groups cfg' = (groups cfg)[gi := Some gg']"
    and rows: "\<And>i. i < n \<Longrightarrow> g_endnames gg' ! i \<noteq> None"
    and "sk_n cfg' = sk_n cfg" "nmasters cfg' = nmasters cfg" "ngroups cfg' = ngroups cfg" "sk_clerks cfg' = sk_clerks cfg"
  shows "sk_up n cfg'"
proof -
  have "\<exists>gg. the_group h cfg' = Some gg \<and> (\<forall>i < n. g_endnames gg ! i \<noteq> None)" if "h < 3" for h
    using that up assms(3,4) rows by (cases "h = gi") (auto simp: sk_up_def the_group_Some)
  then show ?thesis using up assms by (simp add: sk_up_def)
qed

lemma sk_step_up:
  assumes "sk_step cfg cfg'" and up: "sk_up n cfg"
  shows "sk_up n cfg'"
proof -
  have U: "sk_wf cfg" "sk_n cfg = n" "n \<le> 3" "nmasters cfg = 3" "ngroups cfg = 3" "length (groups cfg) = 3" using up by (simp_all add: sk_up_def)
  show ?thesis
    using assms(1)
  proof (cases rule: sk_step.cases)
    case (shutdown gi i)
    obtain gg where gg: "the_group gi cfg = Some gg" "\<And>i. i < n \<Longrightarrow> g_endnames gg ! i \<noteq> None" using up shutdown(1) U(5) by (auto simp: sk_up_def)
    obtain rn where rn: "cfg' = sk_stopped gi i gg rn cfg" "Network.servers rn = (Network.servers (sk_net cfg))(servername (100 + int gi) i \<mapsto> None)"
      using sk_ShutdownServer_eq [OF U(1) gg(1) shutdown(2)] gg(2) [of i] shutdown U by auto
    show ?thesis by (rule sk_up_change [OF up]) (use shutdown gg U rn sk_stopped_wf [OF U(1) gg(1) shutdown(2) rn(2)] in auto)
  next
    case (start gi i kms rms names mnames seed)
    obtain gg where gg: "the_group gi cfg = Some gg" "\<And>i. i < n \<Longrightarrow> g_endnames gg ! i \<noteq> None" using up start(1) U(5) by (auto simp: sk_up_def)
    obtain rn where rn: "cfg' = sk_started names mnames seed gi i gg rn cfg"
      "Network.servers rn = (Network.servers (sk_net cfg))(servername (100 + int gi) i \<mapsto> Some (sk_fresh cfg))"
      by (rule sk_StartServer_Some [OF U(1) gg(1) start(2,3)])
    have rows: "(g_endnames gg)[i := Some x] ! k \<noteq> None" if "k < n" for k x
      using gg(2) [OF that] start(2) U(2) group_okD(4) [OF sk_wf_group [OF U(1) gg(1)]] by (cases "k = i") auto
    show ?thesis by (rule sk_up_change [OF up]) (use start rows U rn sk_started_wf [OF U(1) gg(1) start(2) rn(2)] in auto)
  next
    case (client names ck hs)
    then obtain es rn cks where c: "for_each (client_end names) [0..<nmasters cfg] (replicate (sk_n cfg) '''', sk_net cfg) = Some (es, rn)"
      "cfg' = cfg\<lparr>sk_net := rn, sk_clerks := Some cks, sk_nextClientId := sk_nextClientId cfg + 1, sk_fresh := sk_fresh cfg + 1\<rparr>"
      by (auto simp: sk_makeClient_def Let_def split: bind_splits)
    let ?d = "cfg\<lparr>sk_fresh := sk_fresh cfg + 1\<rparr>"
    have "sk_wf ?d" using U(1) by (auto simp: sk_wf_def group_ok_def split: option.splits)
    moreover have "sk_wf cfg' = sk_wf ?d" by (rule sk_wf_cong) (simp_all add: c(2) client_loop_servers [OF c(1)])
    ultimately have "sk_wf cfg' = sk_wf cfg" using U(1) by simp
    then show ?thesis using up by (subst sk_up_cong) (auto simp: c(2) sk_up_def)
  next
    case (delete ck)
    have "sk_wf cfg' = sk_wf cfg" by (rule sk_wf_cong) (simp_all add: delete sk_deleteClient_def)
    then show ?thesis using up by (subst sk_up_cong) (auto simp: delete sk_deleteClient_def)
  next
    case (work p v v')
    have "sk_wf cfg' = sk_wf cfg" using work_wf [OF U(1) work(2)] U(1) work(1) by simp
    then show ?thesis using up by (subst sk_up_cong) (auto simp: work(1))
  qed
qed

lemma sk_reach_up: "sk_reach n cfg \<Longrightarrow> sk_up n cfg"
  by (induction rule: sk_reach.induct) (use sk_make_config_up sk_step_up in blast)+

subsection \<open>What the tests rely on\<close>

lemma shutdown_loop:
  assumes up: "sk_up n cfg" and gi: "gi < 3" and "k \<le> n"
  shows "\<exists>cfg'. for_each (sk_ShutdownServer gi) [0..<k] cfg = Some cfg' \<and> sk_up n cfg' \<and>
    (\<forall>i < k. Network.servers (sk_net cfg') (servername (100 + int gi) i) = Some None) \<and>
    (\<forall>s. (\<forall>i. s \<noteq> servername (100 + int gi) i) \<longrightarrow> Network.servers (sk_net cfg') s = Network.servers (sk_net cfg) s)"
  using assms(3)
proof (induction k)
  case 0
  then show ?case using up by simp
next
  case (Suc k)
  then obtain c where c: "for_each (sk_ShutdownServer gi) [0..<k] cfg = Some c" "sk_up n c"
    "\<forall>i < k. Network.servers (sk_net c) (servername (100 + int gi) i) = Some None"
    "\<forall>s. (\<forall>i. s \<noteq> servername (100 + int gi) i) \<longrightarrow> Network.servers (sk_net c) s = Network.servers (sk_net cfg) s" by auto
  have w: "sk_wf c" "k < sk_n c" "k < nmasters c" "gi < ngroups c" using c(2) Suc.prems gi by (simp_all add: sk_up_def)
  obtain gg where gg: "the_group gi c = Some gg" "g_endnames gg ! k \<noteq> None" using c(2) gi Suc.prems by (auto simp: sk_up_def)
  obtain rn where rn: "sk_ShutdownServer gi k c = Some (sk_stopped gi k gg rn c)"
    "Network.servers rn = (Network.servers (sk_net c))(servername (100 + int gi) k \<mapsto> None)"
    using sk_ShutdownServer_eq [OF w(1) gg(1) w(2,3) gg(2)] by blast
  have "sk_up n (sk_stopped gi k gg rn c)" by (rule sk_step_up [OF sk_step.shutdown [OF w(4,2) rn(1)] c(2)])
  then show ?case using c(1,3,4) rn by (auto simp: for_each_append less_Suc_eq)
qed

text \<open>
  Shutting a group down. \<open>ShutdownGroup\<close> does not panic, and afterwards the network passes no request on to
  any server of the group, over whatever end; the servers of the other groups and the masters are
  registered as before.
\<close>
theorem group_shutdown_isolates:
  assumes "sk_reach n cfg" and "gi < 3"
  shows "\<exists>cfg'. ShutdownGroup gi cfg = Some cfg' \<and>
    (\<forall>i r1 e p rel reo. i < n \<longrightarrow> admit r1 e (sk_net cfg') \<noteq> Admitted (servername (100 + int gi) i) p rel reo) \<and>
    (\<forall>g i. g \<noteq> gi \<longrightarrow> Network.servers (sk_net cfg') (servername (100 + int g) i) = Network.servers (sk_net cfg) (servername (100 + int g) i)) \<and>
    (\<forall>i. Network.servers (sk_net cfg') (mastername i) = Network.servers (sk_net cfg) (mastername i))"
proof -
  have up: "sk_up n cfg" by (rule sk_reach_up [OF assms(1)])
  then have n: "sk_n cfg = n" by (simp add: sk_up_def)
  obtain cfg' where c: "for_each (sk_ShutdownServer gi) [0..<n] cfg = Some cfg'"
    "\<forall>i < n. Network.servers (sk_net cfg') (servername (100 + int gi) i) = Some None"
    "\<forall>s. (\<forall>i. s \<noteq> servername (100 + int gi) i) \<longrightarrow> Network.servers (sk_net cfg') s = Network.servers (sk_net cfg) s"
    using shutdown_loop [OF up assms(2) order_refl] by blast
  have "admit r1 e (sk_net cfg') \<noteq> Admitted (servername (100 + int gi) i) p rel reo" if "i < n" for i r1 e p rel reo
    using c(2) that by (auto simp: admit_Admitted zget_def)
  moreover have "Network.servers (sk_net cfg') (servername (100 + int g) i) = Network.servers (sk_net cfg) (servername (100 + int g) i)"
    if "g \<noteq> gi" for g i using c(3) that by (simp add: servername_inject)
  ultimately show ?thesis using c(1,3) n by (auto simp: ShutdownGroup_def)
qed

text \<open>
  Restart of a server of a group. \<open>ShutdownServer\<close> followed by \<open>StartServer\<close> gives a new instance with the
  group number, the term, the vote and the log of the old one.
\<close>
theorem sk_restart_keeps:
  assumes reach: "sk_reach n cfg" and i: "gi < 3" "i < n" and gg: "the_group gi cfg = Some gg" "g_servers gg ! i = Some p"
    and kv: "sk_heap cfg p = Some kv" "durable (skv_rf kv)"
    and stop: "sk_ShutdownServer gi i cfg = Some c" and start: "sk_StartServer kms rms names mnames seed gi i c = Some cfg'"
  shows "\<exists>gg' q kv'. the_group gi cfg' = Some gg' \<and> g_servers gg' ! i = Some q \<and> sk_heap cfg' q = Some kv' \<and>
    skv_gid kv' = 100 + int gi \<and> currentTerm (skv_rf kv') = currentTerm (skv_rf kv) \<and>
    votedFor (skv_rf kv') = votedFor (skv_rf kv) \<and> logs (skv_rf kv') = logs (skv_rf kv) \<and> role (skv_rf kv') = 0"
proof -
  have up: "sk_up n cfg" by (rule sk_reach_up [OF reach])
  then have w: "sk_wf cfg" "i < sk_n cfg" "i < nmasters cfg" "gi < ngroups cfg" using i by (simp_all add: sk_up_def)
  have row: "g_endnames gg ! i \<noteq> None" using up i gg(1) by (auto simp: sk_up_def)
  obtain rn where rn: "c = sk_stopped gi i gg rn cfg" using sk_ShutdownServer_eq [OF w(1) gg(1) w(2,3) row] stop by auto
  have "sk_up n c" by (rule sk_step_up [OF sk_step.shutdown [OF w(4,2) stop] up])
  then have wc: "sk_wf c" "i < sk_n c" using i by (simp_all add: sk_up_def)
  note G = group_okD [OF sk_wf_group [OF w(1) gg(1)]]
  have g0: "gi < length (groups cfg)" using gg(1) by (simp add: the_group_Some)
  let ?ps = "Copy (persister (skv_rf kv))"
  have sh: "g_saved gg ! i = Shared p" using G(7) [OF w(2), of p] gg(2) by simp
  have gc: "the_group gi c = Some (gg\<lparr>g_saved := (g_saved gg)[i := Own ?ps], g_servers := (g_servers gg)[i := None]\<rparr>)" (is "_ = Some ?g")
    using sh kv(1) g0 by (simp add: rn the_group_Some sk_last_def sk_saved_get_def)
  obtain rn' where rn': "cfg' = sk_started names mnames seed gi i ?g rn' c" by (rule sk_StartServer_Some [OF wc(1) gc wc(2) start])
  obtain now r1 r2 where seed: "seed = (now, r1, r2)" by (cases seed)
  have last: "sk_last i ?g c = Copy ?ps" using G(3) w(2) by (simp add: sk_last_def sk_saved_get_def)
  have "stored (Copy ?ps) = (currentTerm (skv_rf kv), votedFor (skv_rf kv), logs (skv_rf kv))"
    using kv(2) by (simp add: durable_def stored_def ps.copy_state)
  note M = Make_stored [OF this, of "sk_n c" "int i" now r1 r2]
  have h: "sk_heap cfg' (sk_fresh c) = Some (skv_StartServer (sk_n c) (int i) (Copy ?ps) (sk_maxraftstate c) (gid ?g)
      (map mnames [0..<nmasters c]) now r1 r2)"
    using last by (simp add: rn' seed)
  have s: "\<exists>gg'. the_group gi cfg' = Some gg' \<and> g_servers gg' ! i = Some (sk_fresh c)"
    using g0 G(2) w(2) by (simp add: rn' the_group_Some rn)
  show ?thesis using s h M G(1) by (auto simp: skv_StartServer_def Make_simps)
qed

lemma first_failure_None: "first_failure f xs = Some None \<longleftrightarrow> (\<forall>x \<in> set xs. f x = Some None)"
  by (induction xs) (auto split: bind_splits option.splits)

text \<open>
  The check of the logs. \<open>checklogs\<close> passes exactly when no persister is missing and each one holds at most
  twice \<open>maxraftstate\<close>, or no snapshot when \<open>maxraftstate\<close> is negative.
\<close>
theorem checklogs_passes:
  "checklogs cfg = Some None \<longleftrightarrow>
     (\<forall>gi < ngroups cfg. \<forall>i < sk_n cfg. \<exists>gg sv ps. the_group gi cfg = Some gg \<and> slot (g_saved gg) i = Some sv \<and>
        sk_saved_get sv cfg = Some ps \<and>
        (if 0 \<le> sk_maxraftstate cfg then RaftStateSize ps \<le> 2 * sk_maxraftstate cfg else ReadSnapshot ps = []))"
proof -
  have "check_saved cfg (gi, i) = Some None \<longleftrightarrow> (\<exists>gg sv ps. the_group gi cfg = Some gg \<and> slot (g_saved gg) i = Some sv \<and>
        sk_saved_get sv cfg = Some ps \<and>
        (if 0 \<le> sk_maxraftstate cfg then RaftStateSize ps \<le> 2 * sk_maxraftstate cfg else ReadSnapshot ps = []))" for gi i
    by (auto simp: check_saved_def Let_def split: bind_splits)
  then show ?thesis by (auto simp: checklogs_def first_failure_None)
qed

text \<open>What \<open>join\<close> sends: for each group its number and the names under which its servers are registered.\<close>

lemma join_groups_names:
  assumes "sk_reach n cfg" and "set gis \<subseteq> {..<3}"
  shows "join_groups gis cfg = Some (\<lambda>x. if x \<in> (\<lambda>g. 100 + int g) ` set gis then Some (map (servername x) [0..<n]) else None)"
proof -
  have up: "sk_up n cfg" by (rule sk_reach_up [OF assms(1)])
  have "for_each (\<lambda>g m. do { gg \<leftarrow> the_group g cfg; Some (m(gid gg \<mapsto> map (servername (gid gg)) [0..<n])) }) gis m =
      Some (\<lambda>x. if x \<in> (\<lambda>g. 100 + int g) ` set gis then Some (map (servername x) [0..<n]) else m x)" for m
    using assms(2)
  proof (induction gis arbitrary: m)
    case (Cons g gis)
    obtain gg where gg: "the_group g cfg = Some gg" using up Cons.prems by (auto simp: sk_up_def)
    have "gid gg = 100 + int g" using group_okD(1) [OF sk_wf_group [OF _ gg]] up by (simp add: sk_up_def)
    then have step: "do { gg \<leftarrow> the_group g cfg; Some (m(gid gg \<mapsto> map (servername (gid gg)) [0..<n])) } =
        Some (m(100 + int g \<mapsto> map (servername (100 + int g)) [0..<n]))" using gg by simp
    moreover have "(\<lambda>x. if x \<in> (\<lambda>g. 100 + int g) ` set gis then Some (map (servername x) [0..<n])
        else (m(100 + int g \<mapsto> map (servername (100 + int g)) [0..<n])) x) =
      (\<lambda>x. if x \<in> (\<lambda>g. 100 + int g) ` set (g # gis) then Some (map (servername x) [0..<n]) else m x)"
      by (auto simp: fun_eq_iff)
    moreover have "set gis \<subseteq> {..<3}" using Cons.prems by simp
    ultimately show ?case
      unfolding for_each.simps step Option.bind_lunit
      using Cons.IH [of "m(100 + int g \<mapsto> map (servername (100 + int g)) [0..<n])"] by (simp only:)
  qed simp
  then show ?thesis using up by (simp add: join_groups_def sk_up_def)
qed

subsection \<open>Examples\<close>

definition label_code :: "end_label \<Rightarrow> nat \<times> nat \<times> nat \<times> nat" where
  "label_code l = (case l of MasterEnd i j \<Rightarrow> (0, 0, i, j) | MckEnd j \<Rightarrow> (1, 0, 0, j) | GroupEnd g i j \<Rightarrow> (2, g, i, j)
     | GroupMaster g i j \<Rightarrow> (3, g, i, j) | ClientEnd c j \<Rightarrow> (4, 0, c, j))"

definition label_name :: "end_label \<Rightarrow> string" where
  "label_name l = (case label_code l of (t, g, i, j) \<Rightarrow> pair_name t g @ CHR ''+'' # pair_name i j)"

lemma pair_name_inject: "pair_name i j = pair_name i' j' \<longleftrightarrow> i = i' \<and> j = j'"
  using distinct_namesD [OF distinct_pair_name [of "Suc (i + j + i' + j')"], of i j i' j'] by auto

lemma inj_label_name: "inj label_name"
proof
  fix l m assume "label_name l = label_name m"
  moreover have "CHR ''+'' \<notin> set (pair_name i j)" for i j by (simp add: pair_name_def)
  ultimately have "label_code l = label_code m"
    by (auto simp: label_name_def append_sep_inject pair_name_inject split: prod.splits)
  then show "l = m" by (cases l; cases m) (simp_all add: label_code_def)
qed

theorem sk_harness_needs_three_witness:
  "(\<exists>(cfg :: (unit, unit) skconfig) r. sk_make_config [] [] [] label_name (\<lambda>i. (0, 0, 0)) (\<lambda>g i. (0, 0, 0)) 3 False (-1) = Some cfg \<and>
     sk_makeClient (\<lambda>j. label_name (ClientEnd 0 j)) cfg = Some r) \<and>
   \<not> (\<exists>(cfg :: (unit, unit) skconfig) r. sk_make_config [] [] [] label_name (\<lambda>i. (0, 0, 0)) (\<lambda>g i. (0, 0, 0)) 5 False (-1) = Some cfg \<and>
     sk_makeClient (\<lambda>j. label_name (ClientEnd 0 j)) cfg = Some r)"
  unfolding sk_harness_needs_three [OF inj_label_name] by simp

lemma sharded_up:
  obtains cfg :: "(unit, unit) skconfig" where "sk_reach 3 cfg" "uses label_name (labels_to 3 0) (sk_net cfg)"
proof -
  obtain cfg :: "(unit, unit) skconfig" where c: "sk_make_config [] [] [] label_name (\<lambda>i. (0, 0, 0)) (\<lambda>g i. (0, 0, 0)) 3 False (-1) = Some cfg"
    "uses label_name (labels_to 3 0) (sk_net cfg)"
    using sk_make_config_total [OF inj_label_name order_refl] by blast
  then show thesis using that sk_reach.boot by blast
qed

theorem group_shutdown_isolates_witness:
  "\<exists>(cfg :: (unit, unit) skconfig) cfg'. sk_reach 3 cfg \<and> ShutdownGroup 1 cfg = Some cfg' \<and>
     admit 500 ''x'' (sk_net cfg') \<noteq> Admitted (servername 101 2) 0 True False"
proof -
  obtain cfg :: "(unit, unit) skconfig" where r: "sk_reach 3 cfg" by (rule sharded_up)
  obtain cfg' where c: "ShutdownGroup 1 cfg = Some cfg'"
    "\<forall>i r1 e p rel reo. i < 3 \<longrightarrow> admit r1 e (sk_net cfg') \<noteq> Admitted (servername (100 + int 1) i) p rel reo"
    using group_shutdown_isolates [OF r, of 1] by auto
  have "admit 500 ''x'' (sk_net cfg') \<noteq> Admitted (servername (100 + int 1) 2) 0 True False" by (rule c(2) [rule_format]) simp
  then show ?thesis using r c(1) by auto
qed

theorem sk_restart_keeps_witness:
  "\<exists>(cfg :: (unit, unit) skconfig) c cfg' gg' q kv'. sk_reach 3 cfg \<and> sk_ShutdownServer 2 1 cfg = Some c \<and>
     sk_StartServer [] [] (\<lambda>j. label_name (GroupEnd 3 0 j)) (\<lambda>j. label_name (GroupMaster 3 0 j)) (5, 6, 7) 2 1 c = Some cfg' \<and>
     the_group 2 cfg' = Some gg' \<and> g_servers gg' ! 1 = Some q \<and> sk_heap cfg' q = Some kv' \<and> skv_gid kv' = 102"
proof -
  obtain a :: "(unit, unit) skconfig" where a: "sk_reach 3 a" "uses label_name (labels_to 3 0) (sk_net a)" by (rule sharded_up)
  have up: "sk_up 3 a" by (rule sk_reach_up [OF a(1)])
  then have A: "sk_wf a" "1 < sk_n a" "1 < nmasters a" "2 < ngroups a" by (simp_all add: sk_up_def)
  obtain g where g: "the_group 2 a = Some g" by (rule sk_up_group [OF up, of 2]) simp
  let ?l1 = "GroupEnd 3 1" and ?l2 = "GroupMaster 3 1" and ?m1 = "GroupEnd 3 0" and ?m2 = "GroupMaster 3 0"
  let ?start = "\<lambda>x y. sk_StartServer [] [] (\<lambda>j. label_name (x j)) (\<lambda>j. label_name (y j)) (5, 6, 7) 2 1"
  let ?U = "labels_to 3 0 \<union> range ?l1 \<union> range ?l2"
  have L: "inj ?l1" "inj ?l2" "\<And>j. ?l1 j \<notin> labels_to 3 0" "\<And>j. ?l2 j \<notin> labels_to 3 0 \<union> range ?l1"
    and M: "inj ?m1" "inj ?m2" "\<And>j. ?m1 j \<notin> ?U" "\<And>j. ?m2 j \<notin> ?U \<union> range ?m1"
    by (auto simp: inj_def labels_to_def)
  obtain b where b: "?start ?l1 ?l2 a = Some b" "uses label_name ?U (sk_net b)"
    using sk_StartServer_total [OF A(1) g A(2,3) inj_label_name a(2) L] by blast
  obtain rn where rn: "b = sk_started (\<lambda>j. label_name (?l1 j)) (\<lambda>j. label_name (?l2 j)) (5, 6, 7) 2 1 g rn a"
    by (rule sk_StartServer_Some [OF A(1) g A(2) b(1)])
  have rb: "sk_reach 3 b" by (rule sk_reach.step [OF a(1) sk_step.start [OF A(4,2) b(1)]])
  let ?p = "sk_fresh a" and ?kv = "skv_StartServer 3 1 MakePersister 0 102 [] 0 0 0"
  obtain h v where h: "the_group 2 b = Some h" "g_servers h ! 1 = Some ?p" "sk_heap b ?p = Some v"
    using g A(2) group_okD(2) [OF sk_wf_group [OF A(1) g]] by (auto simp: rn the_group_Some)
  let ?b = "b\<lparr>sk_heap := (sk_heap b)(?p \<mapsto> ?kv)\<rparr>"
  have r: "sk_reach 3 ?b" by (rule sk_reach.step [OF rb sk_step.work [OF h(3)]])
  have B: "the_group 2 ?b = Some h" "sk_heap ?b ?p = Some ?kv" using h(1) by (simp_all add: the_group_def)
  have ub: "sk_up 3 ?b" by (rule sk_reach_up [OF r])
  then have C: "sk_wf ?b" "1 < sk_n ?b" "1 < nmasters ?b" "2 < ngroups ?b" by (simp_all add: sk_up_def)
  have row: "g_endnames h ! 1 \<noteq> None" by (rule sk_up_group [OF ub, of 2]) (use B(1) in auto)
  obtain rn' where c: "sk_ShutdownServer 2 1 ?b = Some (sk_stopped 2 1 h rn' ?b)" "ends rn' = ends (sk_net ?b)"
    using sk_ShutdownServer_eq [OF C(1) B(1) C(2,3) row] by blast
  let ?c = "sk_stopped 2 1 h rn' ?b"
  have uc: "sk_up 3 ?c" by (rule sk_step_up [OF sk_step.shutdown [OF C(4,2) c(1)] ub])
  obtain k where k: "the_group 2 ?c = Some k" by (rule sk_up_group [OF uc, of 2]) simp
  have u: "uses label_name ?U (sk_net ?c)" using b(2) c(2) by (simp add: uses_def)
  have D: "sk_wf ?c" "1 < sk_n ?c" "1 < nmasters ?c" using uc C by (simp_all add: sk_up_def)
  obtain cfg' where cfg': "?start ?m1 ?m2 ?c = Some cfg'"
    using sk_StartServer_total [OF D(1) k D(2,3) inj_label_name u M] by blast
  have "durable (skv_rf ?kv)"
    using Make_stored [OF stored_fresh, of 3 1 0 0 0] by (auto simp: skv_StartServer_def durable_def Make_simps stored_fresh)
  from sk_restart_keeps [OF r _ _ B(1) h(2) B(2) this c(1) cfg'] obtain gg' q kv' where
    "the_group 2 cfg' = Some gg'" "g_servers gg' ! 1 = Some q" "sk_heap cfg' q = Some kv'" "skv_gid kv' = 102" by auto
  then show ?thesis using r c(1) cfg' by blast
qed

end
