(* ===== verification/Raft_Refinement.thy ===== *)
theory Raft_Refinement
  imports Raft_Simulation
begin

text \<open>
  Every strict run of the system of \<open>Raft_System\<close> is a run of the specification of \<open>Raft_Spec\<close>, and every
  ordered one is a run in which what is accepted is kept. No step of such a run panics.
\<close>

subsection \<open>Every strict step is simulated, and none panics\<close>

definition simulated :: "bool \<Rightarrow> nat \<Rightarrow> 'c spec \<Rightarrow> 'c sys outcome \<Rightarrow> bool" where
  "simulated ord n a r \<longleftrightarrow> r \<noteq> Panic \<and> (\<forall>s'. r = Next s' \<longrightarrow> (\<exists>b Q. sim ord n s' b Q \<and> extends ord a b))"

lemma simulatedI: "sim ord n s b Q \<Longrightarrow> extends ord a b \<Longrightarrow> simulated ord n a (Next s)"
  by (auto simp: simulated_def)

lemma simulated_Disabled [simp]: "simulated ord n a Disabled"
  by (simp add: simulated_def)

lemma put_simps [simp]:
  "flight (put i rf s) = flight s" "agreed (put i rf s) = agreed s" "inc (put i rf s) = inc s"
  "voting (put i rf s) = voting s"
  by (simp_all add: put_def)

lemma order_ok_snoc: "order_ok a ps \<Longrightarrow> (\<And>j T. tot j T pk = []) \<Longrightarrow> order_ok a (ps @ [pk])"
  by (simp add: order_ok_def)

lemma order_ok_append:
  assumes "order_ok a ps" and "\<And>x. x \<in> set (tots j (aeTerm args) ps) \<Longrightarrow> x \<le> total args"
    and "s_acked a (aeTerm args) j \<le> total args"
  shows "order_ok a (ps @ [AEReq i c j args])"
  using assms by (auto simp: order_ok_def sorted_append)

text \<open>Sending a packet that is not an append.\<close>

lemma simulated_send:
  assumes "sim ord n s b P" and "extends ord a b" and "packet_ok ord n (length (agreed s)) b P pk"
    and "set (vkeys pk) \<inter> set (all_keys (flight s)) = {}" and "\<And>j T. tot j T pk = []"
  shows "simulated ord n a (Next (send [pk] s))"
proof -
  have "distinct (vkeys pk)" by (cases pk) simp_all
  then show ?thesis
    using assms order_ok_snoc [OF simD(10) [OF assms(1)] assms(5)] by (intro simulatedI [OF sim_send assms(2)]) auto
qed

text \<open>What is on its way to a peer is never longer than the leader's log.\<close>

lemma tots_le:
  assumes "\<And>pk. pk \<in> set ps \<Longrightarrow> packet_ok ord n m a P pk" and "x \<in> set (tots j T ps)"
  shows "x \<le> length (s_llog a T)"
  using assms
proof (induction ps)
  case (Cons pk ps)
  have "packet_ok ord n m a P pk" by (rule Cons.prems(1)) simp
  then have "x \<in> set (tot j T pk) \<Longrightarrow> ?case" by (cases pk) (auto simp: append_ok_def split: if_splits)
  then show ?case using Cons by auto
qed simp

lemma simulated_VoteCount:
  assumes sim: "sim ord n s a P" and pk: "packet_ok ord n (length (agreed s)) a P (VoteCount p i c j args ok)"
    and new: "(p, j) \<notin> set (all_keys (flight s))"
  shows "simulated ord n a (handle True now (VoteCount p i c j args ok) s)"
proof (cases "alive i c s")
  case True
  let ?rf = "node s ! i"
  have vp: "vote_pkt n (length (agreed s)) P p i j args" and gr: "granted a i j (rvTerm args) ok"
    using pk by simp_all
  have i: "i < n" using vp by (simp add: vote_pkt_def)
  note N = node_okD [OF simD(5) [OF sim i]]
  show ?thesis
  proof (cases "ok \<and> rvTerm args = currentTerm ?rf \<and> role ?rf = 1")
    case counts: True
    have "s_leader a (rvTerm args) \<noteq> Some i"
      using election_invD(5) [OF sim_inv(1) [OF sim] i] N counts by simp
    then have hv: "s_hvote a (rvTerm args) j = Some i" using gr counts by (simp add: granted_def)
    let ?P = "P(p := (P p)\<lparr>p_counted := insert j (p_counted (P p))\<rparr>)"
    let ?s = "s\<lparr>agreed := (agreed s)[p := agreed s ! p + 1]\<rparr>"
    have sim': "sim ord n ?s a ?P" by (rule sim_counted [OF sim vp new hv])
    show ?thesis
    proof (cases "(agreed s ! p + 1) * 2 > int n")
      case lead: True
      have p: "p < length (agreed s)" using vp by (simp add: vote_pkt_def)
      have "poll_ok n a (agreed s ! p + 1) (?P p)"
        using simD(7) [OF sim', of p] p by simp
      then have "\<exists>b. sim ord n (put i (become_leader (node ?s ! i)) ?s) b ?P \<and> extends ord a b"
        using vp counts lead by (intro sim_become_leader [OF sim' i, where Q = "?P p" and cnt = "agreed s ! p + 1"])
          (auto simp: vote_pkt_def)
      then show ?thesis
        using True counts lead N by (auto simp: count_vote_def Let_def intro: simulatedI)
    next
      case False
      have "sim ord n (put i (node ?s ! i) ?s) a ?P" by (rule sim_same [OF sim' i])
      then show ?thesis
        using True counts False N by (auto simp: count_vote_def Let_def intro: simulatedI)
    qed
  next
    case False
    then show ?thesis
      using True sim_same [OF sim i] by (auto simp: count_vote_def put_def intro: simulatedI)
  qed
qed simp

lemma simulated_VoteReq:
  assumes sim: "sim ord n s a P" and pk: "packet_ok ord n (length (agreed s)) a P (VoteReq p i c j args)"
    and new: "set (vkeys (VoteReq p i c j args)) \<inter> set (all_keys (flight s)) = {}"
  shows "simulated ord n a (handle True now (VoteReq p i c j args) s)"
proof -
  have A: "j < n" "i < n" "j \<noteq> i" "CandidateId args = int i" "0 < rvTerm args" "claim a i args"
    using pk by (auto simp: vote_pkt_def)
  obtain rf rep where rv: "RequestVote now args (node s ! j) = (rf, rep)" by fastforce
  obtain b where b: "sim ord n (put j rf s) b P" "extends ord a b" "granted b i j (rvTerm args) (VoteGranted rep)"
    using sim_RequestVote [OF sim A rv] by blast
  then show ?thesis using rv pk new by (auto intro!: simulated_send)
qed

lemma simulated_VoteDown:
  assumes sim: "sim ord n s a P" and pk: "packet_ok ord n (length (agreed s)) a P (VoteDown p i c j args rep)"
    and new: "set (vkeys (VoteDown p i c j args rep)) \<inter> set (all_keys (flight s)) = {}"
  shows "simulated ord n a (handle True now (VoteDown p i c j args rep) s)"
proof (cases "currentTerm (node s ! i) < rvrTerm rep")
  case True
  have i: "i < n" using pk by (simp add: vote_pkt_def)
  obtain b where b: "sim ord n (put i (step_down (rvrTerm rep) (node s ! i)) s) b P" "extends ord a b"
    using sim_step_down [OF sim i True] by blast
  then have "packet_ok ord n (length (agreed s)) b P (VoteCount p i c j args (VoteGranted rep))"
    using packet_ok_extends [OF pk b(2)] by simp
  then show ?thesis using b new by (auto intro!: simulated_send)
qed simp

lemma simulated_AESend:
  assumes sim: "sim ord n s a P" and pk: "packet_ok ord n (length (agreed s)) a P (AESend i c j)"
  shows "simulated ord n a (handle True now (AESend i c j) s)"
proof (cases "role (node s ! i) = 2")
  case True
  have ij: "i < n" "j < n" "i \<noteq> j" using pk by simp_all
  obtain rf args where B: "build_append (int j) (node s ! i) = Some (rf, args)" "sim ord n (put i rf s) a P"
      "append_ok n a i args" "total args = length (s_llog a (aeTerm args))"
      "ord \<longrightarrow> decided n a (aeTerm args) (nat (LeaderCommit args)) (s_llog a (aeTerm args))"
    using True sim_build_append [OF sim ij(1,2)] by blast
  have "order_ok a (flight s @ [AEReq i c j args])" if ord
    using simD(10) [OF sim that] tots_le [OF simD(8) [OF sim]] B(4) hist_invD(6) [OF sim_inv(3) [OF sim], of "aeTerm args" j]
    by (intro order_ok_append) auto
  then have "sim ord n (send [AEReq i c j args] (put i rf s)) a P"
    using B ij by (intro sim_send) auto
  then show ?thesis using B by (auto intro: simulatedI)
qed simp

lemma simulated_AEReq:
  assumes sim: "sim ord n s a P" and pk: "packet_ok ord n (length (agreed s)) a P (AEReq i c j args)"
    and nxt: "ord \<Longrightarrow> next_append a s (AEReq i c j args)"
  shows "simulated ord n a (handle True now (AEReq i c j args) s)"
proof -
  have ij: "i < n" "j < n" "i \<noteq> j" "append_ok n a i args" using pk by simp_all
  obtain rf rep b where B: "AppendEntries now args (node s ! j) = Some (rf, rep)" "sim ord n (put j rf s) b P"
      "extends ord a b" "acked_ok ord n b i j args (Success rep)"
    using sim_AppendEntries [OF sim ij, of now] nxt pk by (fastforce simp: next_append_def)
  then show ?thesis by (auto intro!: simulated_send)
qed

lemma simulated_AEDown:
  assumes sim: "sim ord n s a P" and pk: "packet_ok ord n (length (agreed s)) a P (AEDown i c j args rep)"
  shows "simulated ord n a (handle True now (AEDown i c j args rep) s)"
proof (cases "currentTerm (node s ! i) < aerTerm rep")
  case True
  have i: "i < n" using pk by (simp add: acked_ok_def)
  obtain b where "sim ord n (put i (step_down (aerTerm rep) (node s ! i)) s) b P" "extends ord a b"
    using sim_step_down [OF sim i True] by blast
  then show ?thesis using pk acked_ok_extends by (auto intro!: simulated_send)
qed simp

lemma simulated_handle:
  assumes sim: "sim ord n s a P" and pk: "packet_ok ord n (length (agreed s)) a P pk"
    and new: "set (vkeys pk) \<inter> set (all_keys (flight s)) = {}" and nxt: "ord \<Longrightarrow> next_append a s pk"
  shows "simulated ord n a (handle True now pk s)"
proof (cases pk)
  case (VoteReq p i c j args)
  show ?thesis unfolding VoteReq by (rule simulated_VoteReq [OF sim pk [unfolded VoteReq] new [unfolded VoteReq]])
next
  case (VoteRep p i c j args rep)
  then show ?thesis using sim pk new by (auto intro!: simulated_send)
next
  case (VoteDown p i c j args rep)
  show ?thesis unfolding VoteDown by (rule simulated_VoteDown [OF sim pk [unfolded VoteDown] new [unfolded VoteDown]])
next
  case (VoteCount p i c j args ok)
  then show ?thesis using simulated_VoteCount [OF sim] pk new by simp
next
  case (AESend i c j)
  show ?thesis unfolding AESend by (rule simulated_AESend [OF sim pk [unfolded AESend]])
next
  case (AEReq i c j args)
  show ?thesis unfolding AEReq by (rule simulated_AEReq [OF sim pk [unfolded AEReq] nxt [unfolded AEReq]])
next
  case (AERep i c j args rep)
  then show ?thesis using sim pk by (auto intro!: simulated_send)
next
  case (AEDown i c j args rep)
  show ?thesis unfolding AEDown by (rule simulated_AEDown [OF sim pk [unfolded AEDown]])
next
  case (AENext i c j args rep)
  then obtain rf where "adjust_next (int j) args rep (node s ! i) = Some rf" "sim ord n (put i rf s) a P"
    using sim_adjust_next [OF sim, of i j args rep] pk by (auto simp: acked_ok_def)
  then show ?thesis using AENext pk by (auto intro!: simulated_send)
next
  case (AEWrite i c j args rep vs)
  then show ?thesis by simp
next
  case (AECount i c j args ok)
  then obtain rf where "submit_reply (int j) args ok (node s ! i) = Some rf" "sim ord n (put i rf s) a P"
    using sim_submit_reply [OF sim, of i j args ok] pk by auto
  then show ?thesis using AECount by (auto intro: simulatedI)
qed

lemma bool_list_update: "xs[i := v] ! k \<Longrightarrow> k = i \<and> v \<or> xs ! k"
  by (cases "i < length xs") (auto simp: nth_list_update list_update_beyond split: if_splits)

lemma sim_voting:
  "sim ord n s a P \<Longrightarrow> (v \<Longrightarrow> 0 < currentTerm (node s ! i)) \<Longrightarrow>
   sim ord n (s\<lparr>voting := (voting s)[i := v]\<rparr>) a P"
  by (auto simp: sim_def dest!: bool_list_update)

lemma sim_inc: "sim ord n s a P \<Longrightarrow> sim ord n (s\<lparr>inc := (inc s)[i := c]\<rparr>) a P"
  by (simp add: sim_def)

lemma packet_ok_new_poll: "packet_ok ord n m a P pk \<Longrightarrow> packet_ok ord n (Suc m) a (P(m := q)) pk"
  by (cases pk) (auto simp: vote_pkt_def)

lemma all_keys_below:
  "\<forall>pk \<in> set ps. packet_ok ord n m a P pk \<Longrightarrow> (p, j) \<in> set (all_keys ps) \<Longrightarrow> p < m"
proof (induction ps)
  case (Cons pk ps)
  then show ?case by (cases pk) (auto simp: vote_pkt_def)
qed simp

lemma sim_new_poll:
  assumes sim: "sim ord n s a P" and "poll_ok n a 1 q"
  shows "sim ord n (s\<lparr>agreed := agreed s @ [1]\<rparr>) a (P(length (agreed s) := q))"
  using simD [OF sim] assms(2) packet_ok_new_poll [OF simD(8) [OF sim]]
  by (auto simp: sim_def nth_append less_Suc_eq)

lemma doVote_keys:
  "all_keys (map (\<lambda>(j, args). VoteReq p i c (nat j) args) (map (\<lambda>k. (k, f k)) ks)) =
   map (\<lambda>k. (p, nat k)) ks"
  by (induction ks) auto

lemma sim_doVote:
  fixes s :: "'c sys"
  assumes sim: "sim ord n s a P" and i: "i < n" and pos: "0 < currentTerm (node s ! i)"
  shows "\<exists>Q. sim ord n (send (map (\<lambda>(j, args). VoteReq (length (agreed s)) i c (nat j) args)
           (doVote (node s ! i))) (s\<lparr>agreed := agreed s @ [1]\<rparr>)) a Q"
proof -
  let ?rf = "node s ! i" and ?m = "length (agreed s)"
  let ?q = "\<lparr>p_owner = i, p_term = currentTerm ?rf, p_counted = {}\<rparr>"
  let ?ks = "filter (\<lambda>k. k \<noteq> me ?rf) (map int [0..<npeers ?rf])"
  let ?ps = "map (\<lambda>(j, args). VoteReq ?m i c (nat j) args) (doVote ?rf) :: 'c packet list"
  note N = node_okD [OF simD(5) [OF sim i]]
  have sim1: "sim ord n (s\<lparr>agreed := agreed s @ [1]\<rparr>) a (P(?m := ?q))"
    using i pos by (intro sim_new_poll [OF sim]) (simp add: poll_ok_def)
  have keys: "all_keys ?ps = map (\<lambda>k. (?m, nat k)) ?ks"
    unfolding doVote_def Let_def by (rule doVote_keys)
  have "inj_on (\<lambda>k. (?m, nat k)) (set ?ks)" by (auto simp: inj_on_def)
  then have dist: "distinct (all_keys ?ps)" by (simp add: keys distinct_map)
  have pks: "packet_ok ord n (Suc ?m) a (P(?m := ?q)) pk" if "pk \<in> set ?ps" for pk
    using that i pos N by (auto simp: doVote_def Let_def vote_pkt_def claim_def)
  have disj: "set (all_keys (flight s)) \<inter> set (all_keys ?ps) = {}"
    using all_keys_below [of "flight s" ord n ?m a P ?m] simD(8) [OF sim] by (fastforce simp: keys)
  have "tots k T ?ps = []" for k T by (auto simp: tots_def doVote_def Let_def)
  then have "order_ok a (flight s @ ?ps)" if ord using simD(10) [OF sim that] by (simp add: order_ok_def)
  then have "sim ord n (send ?ps (s\<lparr>agreed := agreed s @ [1]\<rparr>)) a (P(?m := ?q))"
    by (intro sim_send [OF sim1 _ dist]) (use pks disj in \<open>simp_all del: set_map\<close>)
  then show ?thesis by blast
qed

lemma sim_timeout:
  assumes sim: "sim ord n s a P" and i: "i < n"
  shows "\<exists>b. sim ord n (put i (become_candidate rnd (node s ! i)) s) b P \<and> extends ord a b"
proof -
  note N = node_okD [OF simD(5) [OF sim i]]
  let ?b = "enter i (s_term a i + 1) (int i) 1 (cast_vote (s_term a i + 1) i i a)"
  have st: "(spec_step ord n)\<^sup>*\<^sup>* a ?b" using i by (intro spec_one spec_step.timeout)
  have "sim ord n (put i (become_candidate rnd (node s ! i)) s) ?b P"
    by (rule sim_quiet(1) [OF sim i st]) (use N in simp_all)
  then show ?thesis using spec_steps_extend [OF st simD(4) [OF sim]] by blast
qed

lemma restart_fresh [simp]: "applyCh (restart rf now r1 r2) = []" "matchIndex (restart rf now r1 r2) = []"
  by (simp_all add: restart_def Make_def readPersist_def Let_def split: prod.splits)

lemma sim_restart:
  assumes sim: "sim ord n s a P" and i: "i < n"
  shows "\<exists>b. sim ord n (put i (restart (node s ! i) now r1 r2) s) b P \<and> extends ord a b"
proof -
  note N = node_okD [OF simD(5) [OF sim i]] and R = restart_simps [OF node_okD(3) [OF simD(5) [OF sim i]]]
  let ?b = "a\<lparr>s_role := (s_role a)(i := 0)\<rparr>"
  have st: "(spec_step ord n)\<^sup>*\<^sup>* a ?b" using i by (intro spec_one spec_step.demote)
  have "node_ok ord n ?b i (restart (node s ! i) now r1 r2)"
    using N R by (simp add: node_ok_def idx_ok_def commit_ok_def decided_def)
  then have "sim ord n (put i (restart (node s ! i) now r1 r2) s) ?b P"
    using R order_ok_cong [OF simD(10) [OF sim]] by (intro sim_put [OF sim i st]) simp_all
  then show ?thesis using spec_steps_extend [OF st simD(4) [OF sim]] by blast
qed

lemma put_commute:
  "put i rf (s\<lparr>voting := v\<rparr>) = (put i rf s)\<lparr>voting := v\<rparr>"
  "put i rf (s\<lparr>inc := c\<rparr>) = (put i rf s)\<lparr>inc := c\<rparr>"
  by (simp_all add: put_def)

lemma simulated_Timeout:
  assumes sim: "sim ord n s a P"
  shows "simulated ord n a (exec True (Timeout i rnd) s)"
proof (cases "i < n")
  case True
  then obtain b where b: "sim ord n (put i (become_candidate rnd (node s ! i)) s) b P" "extends ord a b"
    using sim_timeout [OF sim] by blast
  have "0 < currentTerm (node (put i (become_candidate rnd (node s ! i)) s) ! i)"
    using True simD(1) [OF sim] election_invD(1) [OF sim_inv(1) [OF sim] True]
      node_okD(5) [OF simD(5) [OF sim True]] by (simp add: put_def)
  then show ?thesis
    using sim_voting [OF b(1), of True i] b(2) by (auto simp: put_commute intro: simulatedI)
qed (simp add: simD(1) [OF sim])

lemma simulated_Vote:
  assumes sim: "sim ord n s a P"
  shows "simulated ord n a (exec True (Vote i) s)"
proof (cases "i < n \<and> voting s ! i")
  case True
  let ?s = "s\<lparr>voting := (voting s)[i := False]\<rparr>"
  have sim1: "sim ord n ?s a P" by (rule sim_voting [OF sim]) simp
  obtain Q where "sim ord n (send (map (\<lambda>(j, args). VoteReq (length (agreed ?s)) i (inc s ! i) (nat j) args)
      (doVote (node ?s ! i))) (?s\<lparr>agreed := agreed ?s @ [1]\<rparr>)) a Q"
    using sim_doVote [OF sim1, of i] simD(6) [OF sim, of i] True by auto
  then show ?thesis using True simD(1) [OF sim] by (auto intro: simulatedI [OF _ extends_refl])
qed (auto simp: simD(1) [OF sim])

lemma simulated_Tick:
  fixes s :: "'c sys"
  assumes sim: "sim ord n s a P"
  shows "simulated ord n a (exec True (Tick i) s)"
proof (cases "i < n")
  case True
  note N = node_okD [OF simD(5) [OF sim True]]
  let ?ps = "map (\<lambda>j. AESend i (inc s ! i) (nat j))
      (filter (\<lambda>j. j \<noteq> me (node s ! i)) (map int [0..<npeers (node s ! i)])) :: 'c packet list"
  have keys: "all_keys ?ps = []" "tots k T ?ps = []" for k T by (simp_all add: all_keys_def tots_def)
  then have "order_ok a (flight s @ ?ps)" if ord using simD(10) [OF sim that] by (simp add: order_ok_def)
  then have "sim ord n (send ?ps s) a P"
    using N True keys by (intro sim_send [OF sim]) (auto simp del: all_keys_simps)
  then show ?thesis by (auto intro: simulatedI)
qed (simp add: simD(1) [OF sim])

lemma simulated_Restart:
  assumes sim: "sim ord n s a P"
  shows "simulated ord n a (exec True (Restart i now r1 r2) s)"
proof (cases "i < n")
  case True
  then obtain b where b: "sim ord n (put i (restart (node s ! i) now r1 r2) s) b P" "extends ord a b"
    using sim_restart [OF sim] by blast
  then have "sim ord n (put i (restart (node s ! i) now r1 r2) s\<lparr>voting := (voting s)[i := False]\<rparr>) b P"
    using sim_voting [OF b(1), of False i] by simp
  from sim_inc [OF this, of i "inc s ! i + 1"] show ?thesis
    using b(2) by (auto simp: put_commute intro: simulatedI)
qed (simp add: simD(1) [OF sim])

lemma simulated_Handle:
  assumes sim: "sim ord n s a P" and in_order: "ord \<Longrightarrow> in_order (Handle k now) s"
  shows "simulated ord n a (exec True (Handle k now) s)"
proof (cases "k < length (flight s)")
  case True
  have "next_append a (drop_packet k s) (flight s ! k)" if ord
    using in_order_next [of n s a P k now] sim in_order that True by simp
  then show ?thesis
    using True simulated_handle [OF sim_drop(1) [OF sim True], of "flight s ! k" now] sim_drop(2,3) [OF sim True]
    by simp
qed simp

lemma simulated_exec:
  assumes sim: "sim ord n s a P" and in_order: "ord \<Longrightarrow> in_order l s"
  shows "simulated ord n a (exec True l s)"
proof (cases l)
  case (Submit i cmd)
  then show ?thesis
    using sim_Start [OF sim, of i cmd] simD(1) [OF sim] by (auto intro: simulatedI)
next
  case (Handle k now)
  then show ?thesis using simulated_Handle [OF sim, of k now] in_order by simp
next
  case (Lose k)
  then show ?thesis using sim_drop(1) [OF sim, of k] by (auto intro: simulatedI)
next
  case (Reset k q m)
  then show ?thesis by simp
qed (simp_all only: simulated_Timeout [OF sim] simulated_Vote [OF sim] simulated_Tick [OF sim] simulated_Restart [OF sim])

lemma sim_init: "sim ord n (sys_init n :: 'c sys) spec_init P"
proof -
  have "applyCh (Make n (int i) MakePersister 0 0 0 :: 'c Raft) = []" for i
    by (simp add: Make_def readPersist_def Let_def split: prod.splits)
  then have "node_ok ord n spec_init i (Make n (int i) MakePersister 0 0 0 :: 'c Raft)" for i
    using Make_stored [OF stored_fresh, of n "int i" 0 0 0, where ?'a = 'c]
    by (simp add: node_ok_def Make_simps durable_def stored_fresh idx_ok_def spec_init_def commit_ok_def decided_def)
  then show ?thesis
    by (simp add: sim_def sys_init_def spec_reach.start order_ok_def)
qed

lemma reach_sim: "reach True n s \<Longrightarrow> \<exists>a P. sim False n s a P"
proof (induction rule: reach.induct)
  case start
  then show ?case using sim_init by blast
next
  case (step s l s')
  then obtain a P where "sim False n s a P" by blast
  then have "simulated False n a (exec True l s)" by (rule simulated_exec) simp
  then show ?case using step.hyps(2) by (auto simp: simulated_def)
qed

text \<open>Along a run the history only grows; along an ordered one, so does what is committed.\<close>

lemma strict_sim:
  assumes "strict_step\<^sup>*\<^sup>* s s'" and "sim False n s a P"
  shows "\<exists>b Q. sim False n s' b Q \<and> extends False a b"
  using assms(1)
proof (induction rule: rtranclp_induct)
  case base
  then show ?case using assms(2) extends_refl by blast
next
  case (step t u)
  then obtain b Q where b: "sim False n t b Q" "extends False a b" by blast
  obtain l where "exec True l t = Next u" using step.hyps(2) by (auto simp: strict_step_def)
  with simulated_exec [OF b(1), of l] show ?case using b(2) extends_trans by (fastforce simp: simulated_def)
qed

lemma ordered_sim:
  assumes "ordered_step\<^sup>*\<^sup>* s s'" and "sim True n s a P"
  shows "\<exists>b Q. sim True n s' b Q \<and> extends True a b"
  using assms(1)
proof (induction rule: rtranclp_induct)
  case base
  then show ?case using assms(2) extends_refl by blast
next
  case (step t u)
  then obtain b Q where b: "sim True n t b Q" "extends True a b" by blast
  obtain l where "in_order l t" "exec True l t = Next u" using step.hyps(2) by (auto simp: ordered_step_def)
  with simulated_exec [OF b(1), of l] show ?case using b(2) extends_trans by (fastforce simp: simulated_def)
qed

lemma ordered_reach_sim: "ordered_step\<^sup>*\<^sup>* (sys_init n) s \<Longrightarrow> \<exists>a P. sim True n s a P"
  using ordered_sim [OF _ sim_init] by blast

subsection \<open>What one step does to one peer\<close>

lemma commit_loop_term: "commit_loop iter rf = Some rf' \<Longrightarrow>
    currentTerm rf' = currentTerm rf \<and> logs rf' = logs rf \<and> role rf' = role rf \<and>
    votedFor rf' = votedFor rf \<and> persister rf' = persister rf"
proof (induction iter rf arbitrary: rf' rule: commit_loop.induct)
  case (1 iter rf)
  let ?rf = "\<lambda>ms. rf\<lparr>commitIndex := (if commitIndex rf \<le> iter then iter + 1 else commitIndex rf),
      applyCh := applyCh rf @ ms\<rparr>"
  consider (unchanged) "rf' = rf"
    | (old) e where "iter < int (length (logs rf))" "go_nth (logs rf) iter = Some e"
        "eterm e < currentTerm rf" "commit_loop (iter + 1) rf = Some rf'"
    | (adv) e cnt ms where "iter < int (length (logs rf))" "go_nth (logs rf) iter = Some e"
        "\<not> eterm e < currentTerm rf" "count_match rf iter [0..<npeers rf] 1 = Some cnt"
        "cnt * 2 > int (npeers rf)" "apply_range (logs rf) (commitIndex rf) (iter + 1) = Some ms"
        "commit_loop (iter + 1) (?rf ms) = Some rf'"
    using "1.prems" by (subst (asm) commit_loop.simps) (auto split: if_splits bind_splits)
  then show ?case
  proof cases
    case old
    then show ?thesis using "1.IH"(1) by blast
  next
    case adv
    from "1.IH"(2) [OF adv] show ?thesis by simp
  qed simp
qed

lemma submit_reply_frame: "submit_reply j args ok rf = Some rf' \<Longrightarrow>
    currentTerm rf' = currentTerm rf \<and> logs rf' = logs rf \<and> role rf' = role rf"
  by (auto simp: submit_reply_def Let_def split: if_splits bind_splits dest!: commit_loop_term)

lemma adjust_next_frame: "adjust_next j args rep rf = Some rf' \<Longrightarrow>
    currentTerm rf' = currentTerm rf \<and> logs rf' = logs rf \<and> role rf' = role rf"
  by (auto dest: adjust_next_same)

lemma build_append_frame: "build_append j rf = Some (rf', args) \<Longrightarrow>
    currentTerm rf' = currentTerm rf \<and> logs rf' = logs rf \<and> role rf' = role rf"
  by (auto simp: build_append_def Let_def split: if_splits bind_splits)

text \<open>
  A peer moves forward: its term does not decrease, and as long as it is leader before and after
  in the same term its log only grows.
\<close>

definition forward :: "'c Raft \<Rightarrow> 'c Raft \<Rightarrow> bool" where
  "forward rf rf' \<longleftrightarrow>
     currentTerm rf \<le> currentTerm rf' \<and>
     (role rf = 2 \<and> role rf' = 2 \<and> currentTerm rf' = currentTerm rf \<longrightarrow> (\<exists>es. logs rf' = logs rf @ es))"

lemma forward_refl [simp]: "forward rf rf"
  by (simp add: forward_def)

lemma forward_frame:
  "currentTerm rf' = currentTerm rf \<and> logs rf' = logs rf \<and> role rf' = role rf \<Longrightarrow> forward rf rf'"
  by (simp add: forward_def)

lemma forward_handlers:
  "RequestVote now rargs rf = (rf', rep) \<Longrightarrow> forward rf rf'"
  "AppendEntries now args rf = Some (rf', rep') \<Longrightarrow> forward rf rf'"
  "currentTerm rf < T \<Longrightarrow> forward rf (step_down T rf)"
  "count_vote rargs ok a rf = (rf', a', lead) \<Longrightarrow> forward rf rf'"
  "forward rf (become_candidate rnd rf)"
  "forward rf (fst (Start cmd rf))"
  "durable rf \<Longrightarrow> forward rf (restart rf now' r1 r2)"
proof -
  show "RequestVote now rargs rf = (rf', rep) \<Longrightarrow> forward rf rf'"
    using RequestVote_frame(3) [of now rargs rf rf' rep]
    by (auto simp: forward_def elim!: RequestVote_cases)
  show "AppendEntries now args rf = Some (rf', rep') \<Longrightarrow> forward rf rf'"
    by (auto simp: forward_def elim!: AppendEntries_cases)
  show "count_vote rargs ok a rf = (rf', a', lead) \<Longrightarrow> forward rf rf'"
    by (auto simp: forward_def count_vote_def Let_def split: if_splits)
qed (auto simp: forward_def Start_def Let_def restart_simps)

lemma forward_frames:
  "submit_reply j args ok rf = Some rf' \<Longrightarrow> forward rf rf'"
  "adjust_next j args rep rf = Some rf' \<Longrightarrow> forward rf rf'"
  "build_append j rf = Some (rf', args) \<Longrightarrow> forward rf rf'"
  by (simp_all add: forward_frame submit_reply_frame adjust_next_frame build_append_frame)

lemma forward_node:
  assumes "node s' = (node s)[k := rf]" and "forward (node s ! k) rf"
  shows "forward (node s ! i) (node s' ! i)"
  using assms by (cases "k < length (node s)"; cases "i = k")
    (auto simp: nth_list_update list_update_beyond)

lemma handle_node:
  assumes "handle True now pk s = Next s'"
  shows "node s' = node s \<or> (\<exists>k rf. node s' = (node s)[k := rf] \<and> forward (node s ! k) rf)"
  using assms
  by (cases pk)
    (auto simp: send_def put_def split: if_splits prod.splits option.splits
      dest: forward_handlers(1-4) forward_frames)

lemma handle_forward: "handle True now pk s = Next s' \<Longrightarrow> forward (node s ! i) (node s' ! i)"
  using handle_node [of now pk s s'] forward_node [of s' s] by auto

lemma exec_forward:
  assumes sim: "sim ord n s a P" and i: "i < n" and ex: "exec True l s = Next s'"
  shows "forward (node s ! i) (node s' ! i)"
proof (cases l)
  case (Timeout k rnd)
  then have "node s' = (node s)[k := become_candidate rnd (node s ! k)]"
    using ex by (auto simp: put_def split: if_splits)
  then show ?thesis by (rule forward_node) (rule forward_handlers)
next
  case (Submit k cmd)
  then have "node s' = (node s)[k := fst (Start cmd (node s ! k))]"
    using ex by (auto simp: put_def split: if_splits)
  then show ?thesis by (rule forward_node) (rule forward_handlers)
next
  case (Restart k now r1 r2)
  then have k: "k < n" and n: "node s' = (node s)[k := restart (node s ! k) now r1 r2]"
    using ex simD(1) [OF sim] by (auto simp: put_def split: if_splits)
  have "durable (node s ! k)" by (rule node_okD(3) [OF simD(5) [OF sim k]])
  then show ?thesis by (intro forward_node [OF n] forward_handlers)
next
  case (Handle k now)
  then show ?thesis
    using ex handle_forward [of now "flight s ! k" "drop_packet k s" s' i] by (simp split: if_splits)
qed (use ex in \<open>auto simp: send_def split: if_splits\<close>)

end
