(* ===== verification/Raft_Properties.thy ===== *)
theory Raft_Properties
  imports Raft_Refinement "HOL-Library.Sublist"
begin

text \<open>
  What the refinement says about the code: at most one leader in a term, matching logs, no panic, a
  restart that loses nothing a peer may have promised; in ordered runs, that what is applied is the same
  everywhere and is never lost. Then concrete runs: witnesses, and those in which the code goes wrong.
\<close>

subsection \<open>Properties of the running system\<close>

text \<open>The leader of a term is recorded in the history, which only grows.\<close>

lemma sim_leader:
  assumes "sim ord n s a P" and "i < n" and "GetState (still (node s ! i)) = (T, True)"
  shows "s_leader a T = Some i"
  using election_invD(6) [OF sim_inv(1) [OF assms(1)] assms(2)] node_okD [OF simD(5) [OF assms(1,2)]] assms(3)
  by (auto simp: GetState_def)

lemma one_leader:
  assumes "reach True n s" and "strict_step\<^sup>*\<^sup>* s s'" and "i < n" and "j < n"
    and "GetState (still (node s ! i)) = (T, True)" and "GetState (still (node s' ! j)) = (T, True)"
  shows "i = j"
proof -
  obtain a P where sim: "sim False n s a P" using reach_sim [OF assms(1)] by blast
  obtain b Q where b: "sim False n s' b Q" "extends False a b" using strict_sim [OF assms(2) sim] by blast
  have "s_leader b T = Some i" using extendsD(2) [OF b(2)] sim_leader [OF sim assms(3,5)] .
  then show ?thesis using sim_leader [OF b(1) assms(4,6)] by simp
qed

text \<open>
  C1: the system implements the specification. In every state that a strict run reaches, the terms,
  votes, roles and logs of the peers are those of a reachable state of \<open>Raft_Spec\<close>.
\<close>
theorem raft_refines_spec:
  assumes "reach True n s"
  shows "\<exists>a. spec_reach False n a \<and> (\<forall>i < n.
    s_term a i = currentTerm (node s ! i) \<and> s_vote a i = votedFor (node s ! i) \<and>
    s_role a i = role (node s ! i) \<and> s_log a i = logs (node s ! i))"
proof -
  obtain a P where sim: "sim False n s a P" using reach_sim [OF assms] by blast
  then show ?thesis using simD(4) [OF sim] node_okD(5-8) [OF simD(5) [OF sim]] by blast
qed

text \<open>
  C2: election safety. In a strict run two peers never claim leadership of the same term, not even at
  different times, whatever messages are lost, delayed or reordered and whichever peers crash and restart.
  The claims are read between critical sections; a torn read is in \<open>torn_read_two_leaders\<close>.
\<close>
theorem election_safety:
  assumes "reach True n s" and "strict_step\<^sup>*\<^sup>* s s'" and "i < n" and "j < n"
    and "GetState (still (node s ! i)) = (T, True)" and "GetState (still (node s' ! j)) = (T, True)"
  shows "i = j"
  using assms by (rule one_leader)

lemma logs_match:
  assumes "reach True n s" and "i < n" and "j < n"
    and "k < length (logs (node s ! i))" and "k < length (logs (node s ! j))"
    and "eterm (logs (node s ! i) ! k) = eterm (logs (node s ! j) ! k)"
  shows "take (Suc k) (logs (node s ! i)) = take (Suc k) (logs (node s ! j))"
proof -
  obtain a P where sim: "sim False n s a P" using reach_sim [OF assms(1)] by blast
  have "traceable (s_llog a) (logs (node s ! m))" if "m < n" for m
    using log_invD(3) [OF sim_inv(2) [OF sim] that] node_okD(8) [OF simD(5) [OF sim that]] by simp
  then show ?thesis using assms by (intro traceable_matching) auto
qed

text \<open>
  C10: log matching. In a strict run, if two peers hold an entry of the same term at the same position,
  their logs agree up to and including that position. Outside strict runs two peers can lead one term.
\<close>
theorem log_matching:
  assumes "reach True n s" and "i < n" and "j < n"
    and "k < length (logs (node s ! i))" and "k < length (logs (node s ! j))"
    and "eterm (logs (node s ! i) ! k) = eterm (logs (node s ! j) ! k)"
  shows "take (Suc k) (logs (node s ! i)) = take (Suc k) (logs (node s ! j))"
  using assms by (rule logs_match)

text \<open>
  C12: no panic in a strict run: when the unlocked tests still hold at the lock and the unlocked assignments to
  \<open>nextIndex\<close> in \<open>sendAppendEntries\<close> are not interrupted, no step indexes a slice out of range:
  neither the log accesses of \<open>AppendEntries\<close> and of the senders, nor \<open>nextIndex\<close> and \<open>matchIndex\<close>.
  When they are interrupted the code does panic: \<open>unlocked_next_panics\<close>, \<open>unlocked_reset_panics\<close>.
\<close>
theorem no_panic:
  assumes "reach True n s"
  shows "exec True l s \<noteq> Panic"
proof -
  obtain a P where "sim False n s a P" using reach_sim [OF assms] by blast
  then have "simulated False n a (exec True l s)" by (rule simulated_exec) simp
  then show ?thesis by (simp add: simulated_def)
qed

text \<open>
  Durability needs no restriction on the run: every critical section that changes the term, the vote or
  the log ends with \<open>persist\<close>.
\<close>

definition all_durable :: "'c sys \<Rightarrow> bool" where
  "all_durable s \<longleftrightarrow> (\<forall>rf \<in> set (node s). durable rf)"

lemma durable_frame:
  "durable rf \<Longrightarrow> currentTerm rf' = currentTerm rf \<Longrightarrow> votedFor rf' = votedFor rf \<Longrightarrow> logs rf' = logs rf \<Longrightarrow>
   persister rf' = persister rf \<Longrightarrow> durable rf'"
  by (simp add: durable_def)

lemma durable_handlers:
  "RequestVote now rargs rf = (rf', rep) \<Longrightarrow> durable rf'"
  "AppendEntries now args rf = Some (rf', rep') \<Longrightarrow> durable rf'"
  "durable rf \<Longrightarrow> count_vote rargs ok a rf = (rf', a', lead) \<Longrightarrow> durable rf'"
  "durable rf \<Longrightarrow> durable (fst (Start cmd rf))"
  by (auto simp: RequestVote_def AppendEntries_def count_vote_def Start_def Let_def
      split: if_splits bind_splits prod.splits)

lemma durable_frames:
  "durable rf \<Longrightarrow> submit_reply j args ok rf = Some rf' \<Longrightarrow> durable rf'"
  "durable rf \<Longrightarrow> adjust_next j args rep rf = Some rf' \<Longrightarrow> durable rf'"
  "durable rf \<Longrightarrow> write_next j v rf = Some rf' \<Longrightarrow> durable rf'"
  "durable rf \<Longrightarrow> build_append j rf = Some (rf', args') \<Longrightarrow> durable rf'"
  by (auto simp: durable_def submit_reply_def write_next_def build_append_def Let_def
      split: if_splits bind_splits dest!: adjust_next_same commit_loop_term)

lemma all_durable_put:
  "all_durable s \<Longrightarrow> (k < length (node s) \<Longrightarrow> durable (node s ! k) \<Longrightarrow> durable rf) \<Longrightarrow> all_durable (put k rf s)"
  using set_update_subset_insert [of "node s" k rf]
  by (cases "k < length (node s)") (auto simp: all_durable_def put_def list_update_beyond)

lemma all_durable_frame: "node s' = node s \<Longrightarrow> all_durable s \<Longrightarrow> all_durable s'"
  by (simp add: all_durable_def)

lemma all_durable_simps [simp]:
  "all_durable (send ps s) = all_durable s" "all_durable (drop_packet k s) = all_durable s"
  "all_durable (s\<lparr>voting := v\<rparr>) = all_durable s" "all_durable (s\<lparr>agreed := ag\<rparr>) = all_durable s"
  "all_durable (s\<lparr>inc := ic\<rparr>) = all_durable s"
  by (simp_all add: all_durable_def send_def drop_packet_def)

lemma handle_durable: "handle strict now pk s = Next s' \<Longrightarrow> all_durable s \<Longrightarrow> all_durable s'"
  by (cases pk) (auto intro!: all_durable_put intro: durable_handlers durable_frames
      split: if_splits prod.splits option.splits list.splits)

lemma exec_durable: "exec strict l s = Next s' \<Longrightarrow> all_durable s \<Longrightarrow> all_durable s'"
  by (cases l) (auto intro!: all_durable_put intro: durable_handlers handle_durable restart_simps
      split: if_splits)

lemma exec_nodes: "exec strict l s = Next s' \<Longrightarrow> length (node s') = length (node s)"
proof (cases l)
  case (Handle k now)
  then show "exec strict l s = Next s' \<Longrightarrow> length (node s') = length (node s)"
    by (cases "flight s ! k")
      (auto simp: drop_packet_def send_def put_def split: if_splits prod.splits option.splits list.splits)
qed (auto simp: drop_packet_def send_def put_def split: if_splits)

lemma reach_durable: "reach strict n s \<Longrightarrow> all_durable s \<and> length (node s) = n"
proof (induction rule: reach.induct)
  case start
  then show ?case
    using Make_stored [OF stored_fresh, where ?'a = 'c]
    by (auto simp: all_durable_def sys_init_def durable_def Make_simps stored_fresh)
next
  case (step s l s')
  then show ?case using exec_durable [OF step(2)] exec_nodes [OF step(2)] by simp
qed

text \<open>
  C14: durability. A peer that crashes between two critical sections of any run, strict or not, and restarts
  comes back with the term, the vote and the log it had, as a follower.
\<close>
theorem restart_durable:
  assumes "reach strict n s" and "i < n"
  shows "currentTerm (restart (node s ! i) now r1 r2) = currentTerm (node s ! i) \<and>
    votedFor (restart (node s ! i) now r1 r2) = votedFor (node s ! i) \<and>
    logs (restart (node s ! i) now r1 r2) = logs (node s ! i) \<and>
    role (restart (node s ! i) now r1 r2) = 0"
proof -
  have "durable (node s ! i)" using reach_durable [OF assms(1)] assms(2) by (auto simp: all_durable_def)
  then show ?thesis by (simp add: restart_simps)
qed

text \<open>
  C15: progress of terms and leader append-only. A step of a strict run never lowers a peer's term,
  and a leader that stays leader of its term only extends its log. Outside strict runs a peer can return to
  an older term, which is what the run of \<open>unlocked_test_two_leaders\<close> does.
\<close>
theorem step_forward:
  assumes "reach True n s" and "i < n" and "exec True l s = Next s'"
  shows "currentTerm (node s ! i) \<le> currentTerm (node s' ! i) \<and>
    (role (node s ! i) = 2 \<and> role (node s' ! i) = 2 \<and>
     currentTerm (node s' ! i) = currentTerm (node s ! i) \<longrightarrow>
       (\<exists>es. logs (node s' ! i) = logs (node s ! i) @ es))"
proof -
  obtain a P where "sim False n s a P" using reach_sim [OF assms(1)] by blast
  from exec_forward [OF this assms(2,3)] show ?thesis by (simp add: forward_def)
qed

subsection \<open>Ordered runs\<close>

text \<open>What a peer has committed is in the log of every peer that leads its term or a later one.\<close>

lemma decided_mono: "decided n a t k l \<Longrightarrow> c \<le> k \<Longrightarrow> decided n a t c l"
  unfolding decided_def using take_take_eq by (metis le_zero_eq order_trans)

lemma decided_leader:
  assumes sim: "sim True n s a P" and j: "j < n" "role (node s ! j) = 2"
    and dec: "decided n a t c l" "t \<le> currentTerm (node s ! j)"
  shows "c \<le> length (logs (node s ! j)) \<and> take c (logs (node s ! j)) = take c l"
proof (cases "c = 0")
  case False
  then obtain T d where d: "T \<le> t" "committed_at n a T d" "c \<le> d" "take c l = take c (s_llog a T)"
    using dec(1) by (auto simp: decided_def)
  let ?U = "currentTerm (node s ! j)"
  note N = node_okD [OF simD(5) [OF sim j(1)]] and I = sim_inv [OF sim]
  have own: "logs (node s ! j) = s_llog a ?U" using log_invD(4) [OF I(2) j(1)] N j by simp
  have "s_leader a ?U \<noteq> None" using election_invD(6) [OF I(1) j(1)] N j by simp
  then have "has a T d (s_llog a ?U)" using leader_has(1) [OF simD(4) [OF sim] d(2)] d(1) dec(2) by simp
  then have "d \<le> length (s_llog a ?U)" "take d (s_llog a ?U) = take d (s_llog a T)" by (simp_all add: has_def)
  then show ?thesis using take_take_eq [OF _ d(3)] d(3,4) own by (metis order_trans)
qed simp

text \<open>
  Entries of the leader of a peer's own term that the leader did not have at its election are of that term, so
  the peer has accepted them from it.
\<close>

lemma decided_accepted:
  assumes a: "spec_reach True n a" and i: "i < n" and com: "committed_at n a T d" and T: "s_term a i = T"
    and c: "c \<le> d" "c \<le> length (s_log a i)" "take c (s_log a i) = take c (s_llog a T)"
    and new: "length (s_elog a T) < c"
  shows "c \<le> s_acked a T i"
proof -
  have d: "0 < d" "d \<le> length (s_llog a T)" using com by (simp_all add: committed_at_def mark_def)
  note lead = committed_leader [OF a com]
  have "eterm (s_llog a T ! (c - 1)) = T"
    by (rule elog_ok_new [OF hist_invD(1) [OF spec_reach_hist [OF a]] lead]) (use new c(1) d in auto)
  moreover have "s_log a i ! (c - 1) = s_llog a T ! (c - 1)"
    using nth_take [of "c - 1" c "s_log a i"] nth_take [of "c - 1" c "s_llog a T"] c(3) new by simp
  ultimately have "c - 1 < s_acked a T i"
    using own_invD [OF spec_reach_own [OF a] i, of "c - 1"] c(2) new T by simp
  then show ?thesis by simp
qed

text \<open>A peer keeps what it has committed: a log it takes over from a leader begins with it.\<close>

lemma decided_kept:
  assumes a: "spec_reach True n a" and b: "spec_reach True n b" and ab: "extends True a b" and i: "i < n"
    and dec: "decided n a (s_term a i) c (s_log a i)"
  shows "c \<le> length (s_log b i) \<and> take c (s_log b i) = take c (s_log a i)"
proof (cases "c = 0")
  case False
  then obtain T d where d: "T \<le> s_term a i" "committed_at n a T d" "c \<le> d" "c \<le> length (s_log a i)"
      "take c (s_log a i) = take c (s_llog a T)"
    using dec by (auto simp: decided_def)
  have db: "committed_at n b T d" "take c (s_llog b T) = take c (s_llog a T)"
    using committed_at_extends [OF d(2) ab] d(3) by simp_all
  from extendsD(8) [OF ab, of i] show ?thesis
  proof (cases rule: log_kept_cases)
    case same
    then show ?thesis using d(4) by simp
  next
    case (copied U m)
    have TU: "T \<le> U" using copied(1) d(1) by simp
    have h: "has b T d (s_llog b U)" by (rule leader_has(1) [OF b db(1) TU copied(3)])
    have "c \<le> m"
    proof (cases "T < U")
      case True
      then show ?thesis using leader_has(2) [OF b db(1) TU copied(3) True] copied(4) d(3) by simp
    next
      case False
      then have U: "U = T" "s_term a i = T" using TU d(1) copied(1) by simp_all
      have el: "s_elog b T = s_elog a T" if "s_leader a T \<noteq> None" using extendsD(3) [OF ab] that by auto
      show ?thesis
        using decided_accepted [OF a i d(2) U(2) d(3-5)] copied(4,6) el U(1) d(2) committed_leader [OF a d(2)]
        by (cases "length (s_elog a T) < c") auto
    qed
    moreover have "take c (s_llog b U) = take c (s_llog b T)" "d \<le> length (s_llog b U)"
      using h take_take_eq [OF _ d(3)] by (auto simp: has_def)
    ultimately show ?thesis using copied(7) d(3,5) db(2) by (simp add: min_def)
  qed
qed simp

text \<open>Committed prefixes, delivered messages and leaders of any two moments of an ordered run.\<close>

lemma ordered_pair:
  assumes "ordered_step\<^sup>*\<^sup>* (sys_init n) s" and "ordered_step\<^sup>*\<^sup>* s s'"
  obtains b Q where "sim True n s' b Q"
    "\<And>i. i < n \<Longrightarrow> decided n b (currentTerm (node s ! i)) (nat (commitIndex (node s ! i))) (logs (node s ! i))"
    "\<And>i m. i < n \<Longrightarrow> m \<in> set (applyCh (node s ! i)) \<Longrightarrow> delivered n b m"
proof -
  obtain a P where sim: "sim True n s a P" using ordered_reach_sim [OF assms(1)] by blast
  obtain b Q where b: "sim True n s' b Q" "extends True a b" using ordered_sim [OF assms(2) sim] by blast
  have "commit_ok n b (node s ! i)" if "i < n" for i
    using commit_ok_extends [OF node_okD(9) [OF simD(5) [OF sim that] TrueI] b(2)] .
  then show thesis using that [OF b(1)] by (auto simp: commit_ok_def)
qed

lemma ordered_pair_self:
  assumes "sim True n s b Q" and "i < n"
  shows "decided n b (currentTerm (node s ! i)) (nat (commitIndex (node s ! i))) (logs (node s ! i))"
    "m \<in> set (applyCh (node s ! i)) \<Longrightarrow> delivered n b m"
  using node_okD(9) [OF simD(5) [OF assms] TrueI] by (auto simp: commit_ok_def)

lemma committed_prefix_agree:
  assumes "ordered_step\<^sup>*\<^sup>* (sys_init n) s" and "ordered_step\<^sup>*\<^sup>* s s'" and ij: "i < n" "j < n"
    and c: "int c \<le> commitIndex (node s ! i)" "int c \<le> commitIndex (node s' ! j)"
  shows "take c (logs (node s ! i)) = take c (logs (node s' ! j))"
    and "c \<le> length (logs (node s ! i))" and "c \<le> length (logs (node s' ! j))"
proof -
  obtain b Q where b: "sim True n s' b Q"
    "decided n b (currentTerm (node s ! i)) (nat (commitIndex (node s ! i))) (logs (node s ! i))"
    using ordered_pair [OF assms(1,2)] ij by metis
  note b3 = ordered_pair_self(1) [OF b(1) ij(2)]
  have *: "c = 0 \<or> (\<exists>T d. committed_at n b T d \<and> c \<le> d \<and> c \<le> length l \<and> take c l = take c (s_llog b T))"
    if dec: "decided n b t k l" and le: "c \<le> k" for t k l
    using decided_mono [OF dec le] by (auto simp: decided_def)
  have 1: "c \<le> nat (commitIndex (node s ! i))" "c \<le> nat (commitIndex (node s' ! j))" using c by simp_all
  note X = * [OF b(2) 1(1)] and Y = * [OF b3 1(2)]
  show "take c (logs (node s ! i)) = take c (logs (node s' ! j))"
  proof (cases "c = 0")
    case False
    then obtain T d U e where d: "committed_at n b T d" "committed_at n b U e" "c \<le> d" "c \<le> e"
        "take c (logs (node s ! i)) = take c (s_llog b T)" "take c (logs (node s' ! j)) = take c (s_llog b U)"
      using X Y by blast
    have "take c (s_llog b T) = take c (s_llog b U)" by (rule committed_agree [OF simD(4) [OF b(1)] d(1-4)])
    then show ?thesis using d(5,6) by simp
  qed simp
  show "c \<le> length (logs (node s ! i))" "c \<le> length (logs (node s' ! j))" using X Y by auto
qed

lemma delivered_agree:
  assumes "spec_reach True n b" and "delivered n b m" and "delivered n b m'" and "Index m' = Index m"
  shows "Command m' = Command m"
proof -
  obtain T c U d where d: "committed_at n b T c" "committed_at n b U d" "0 < Index m"
      "nat (Index m) \<le> c" "nat (Index m) \<le> d"
      "Command m = ecommand (s_llog b T ! (nat (Index m) - 1))" "Command m' = ecommand (s_llog b U ! (nat (Index m) - 1))"
    using assms(2-4) by (auto simp: delivered_def)
  have "take (nat (Index m)) (s_llog b T) = take (nat (Index m)) (s_llog b U)"
    by (rule committed_agree [OF assms(1) d(1,2,4,5)])
  moreover have "nat (Index m) - 1 < nat (Index m)" using d(3) by simp
  ultimately show ?thesis using d(6,7) by (metis nth_take)
qed

lemma applied_agree:
  assumes "ordered_step\<^sup>*\<^sup>* (sys_init n) s" and "ordered_step\<^sup>*\<^sup>* s s'" and "i < n" and "j < n"
    and "m \<in> set (applyCh (node s ! i))" and "m' \<in> set (applyCh (node s' ! j))" and "Index m' = Index m"
  shows "Command m' = Command m"
proof -
  obtain b Q where b: "sim True n s' b Q" "delivered n b m"
    using ordered_pair [OF assms(1,2)] assms(3,5) by metis
  show ?thesis by (rule delivered_agree [OF simD(4) [OF b(1)] b(2) ordered_pair_self(2) [OF b(1) assms(4,6)] assms(7)])
qed

text \<open>
  C3: state machine safety. In an ordered run two peers never apply different commands at the same
  index, neither at the same time nor at different times, across crashes and changes of leader.
\<close>
theorem state_machine_safety:
  assumes "ordered_step\<^sup>*\<^sup>* (sys_init n) s" and "ordered_step\<^sup>*\<^sup>* s s'" and "i < n" and "j < n"
    and "m \<in> set (applyCh (node s ! i))" and "m' \<in> set (applyCh (node s' ! j))" and "Index m' = Index m"
  shows "Command m' = Command m"
  using assms by (rule applied_agree)

text \<open>
  C4: leader completeness. In an ordered run everything below the commit index of a peer is in the log
  of every peer that later leads the same term or a newer one.
\<close>
theorem leader_completeness:
  assumes "ordered_step\<^sup>*\<^sup>* (sys_init n) s" and "ordered_step\<^sup>*\<^sup>* s s'" and "i < n" and "j < n"
    and "GetState (still (node s' ! j)) = (T, True)" and "currentTerm (node s ! i) \<le> T"
  shows "prefix (take (nat (commitIndex (node s ! i))) (logs (node s ! i))) (logs (node s' ! j))"
proof -
  obtain b Q where b: "sim True n s' b Q"
    "decided n b (currentTerm (node s ! i)) (nat (commitIndex (node s ! i))) (logs (node s ! i))"
    using ordered_pair [OF assms(1,2)] assms(3) by metis
  have "role (node s' ! j) = 2" "currentTerm (node s' ! j) = T" using assms(5) by (auto simp: GetState_def)
  with decided_leader [OF b(1) assms(4) _ b(2)] assms(6) show ?thesis
    by (metis take_is_prefix)
qed

lemma committed_stays:
  assumes "ordered_step\<^sup>*\<^sup>* (sys_init n) s" and "ordered_step\<^sup>*\<^sup>* s s'" and i: "i < n"
    and c: "int c \<le> commitIndex (node s ! i)"
  shows "c \<le> length (logs (node s' ! i)) \<and> take c (logs (node s' ! i)) = take c (logs (node s ! i))"
proof -
  obtain a P where sim: "sim True n s a P" using ordered_reach_sim [OF assms(1)] by blast
  obtain b Q where b: "sim True n s' b Q" "extends True a b" using ordered_sim [OF assms(2) sim] by blast
  note N = node_okD(5,8) [OF simD(5) [OF sim i]] and N' = node_okD(8) [OF simD(5) [OF b(1) i]]
  have "decided n a (s_term a i) c (s_log a i)"
    unfolding N by (rule decided_mono [OF ordered_pair_self(1) [OF sim i]]) (use c in simp)
  then show ?thesis using decided_kept [OF simD(4) [OF sim] simD(4) [OF b(1)] b(2) i] N N' by simp
qed

text \<open>
  C5: what a peer has committed stays in its log. In an ordered run the entries up to a peer's commit index
  are never removed or replaced in that peer's log, whatever it later takes over from whichever leader, and
  although \<open>AppendEntries\<close> cuts the log back before it copies the leader's entries.
\<close>
theorem committed_kept:
  assumes "ordered_step\<^sup>*\<^sup>* (sys_init n) s" and "ordered_step\<^sup>*\<^sup>* s s'" and "i < n"
    and "int c \<le> commitIndex (node s ! i)"
  shows "c \<le> length (logs (node s' ! i)) \<and> take c (logs (node s' ! i)) = take c (logs (node s ! i))"
  using assms by (rule committed_stays)

subsection \<open>Concrete runs\<close>

text \<open>A run that elects peer 0 and replicates one command to peer 1.\<close>

definition elect_run :: "int label list" where
  "elect_run = [Timeout 0 0, Vote 0, Handle 0 0, Lose 0, Handle 0 0, Handle 0 0]"

definition replicate_run :: "int label list" where
  "replicate_run = elect_run @ [Submit 0 7, Tick 0, Handle 0 0, Handle 1 0]"

lemma elect_run_result:
  "(case run True elect_run (sys_init 3) of
      Next s \<Rightarrow> GetState (still (node s ! 0)) = (1, True) \<and> GetState (still (node s ! 1)) = (1, False)
    | _ \<Rightarrow> False)"
  unfolding elect_run_def by code_simp

lemma replicate_run_result:
  "(case run True replicate_run (sys_init 3) of
      Next s \<Rightarrow> logs (node s ! 0) = [\<lparr>ecommand = 7, eterm = 1\<rparr>] \<and> logs (node s ! 1) = [\<lparr>ecommand = 7, eterm = 1\<rparr>]
    | _ \<Rightarrow> False)"
  unfolding replicate_run_def elect_run_def by code_simp

lemma run_witness:
  assumes "(case run strict ls (sys_init n) of Next s \<Rightarrow> P s | _ \<Rightarrow> False)"
  obtains s where "reach strict n s" "P s"
proof (cases "run strict ls (sys_init n)")
  case (Next s)
  then show ?thesis using assms that run_reach [OF Next reach.start] by simp
qed (use assms in simp_all)

text \<open>An ordered run in two parts: command 7 is committed by peers 0 and 1, then peer 2 is elected.\<close>

definition commit_run :: "int label list" where
  "commit_run = elect_run @
    [Submit 0 7, Tick 0, Handle 0 0, Handle 0 0, Handle 0 0, Handle 0 0, Handle 0 0, Lose 0, Handle 0 0, Handle 0 0,
     Tick 0, Lose 1, Handle 0 0, Handle 0 0, Lose 0]"

definition handover_run :: "int label list" where
  "handover_run = [Timeout 2 0, Vote 2, Lose 0, Handle 0 0, Handle 0 0, Handle 0 0]"

lemma ordered_witness:
  assumes "(case ordered_run ls (sys_init n) of
      Next s \<Rightarrow> P s \<and> (case ordered_run ks s of Next s' \<Rightarrow> Q s' | _ \<Rightarrow> False) | _ \<Rightarrow> False)"
  obtains s s' where "ordered_step\<^sup>*\<^sup>* (sys_init n) s" "ordered_step\<^sup>*\<^sup>* s s'" "P s" "Q s'"
proof (cases "ordered_run ls (sys_init n)")
  case (Next s)
  then obtain s' where "ordered_run ks s = Next s'" "P s" "Q s'" using assms by (auto split: outcome.splits)
  then show ?thesis using that ordered_run_steps [OF Next] ordered_run_steps by blast
qed (use assms in simp_all)

lemma commit_run_result:
  "(case ordered_run commit_run (sys_init 3) of
      Next s \<Rightarrow> (applyCh (node s ! 0) = [\<lparr>Index = 1, Command = 7, UseSnapshot = False\<rparr>] \<and>
         commitIndex (node s ! 0) = 1 \<and> currentTerm (node s ! 0) = 1 \<and> logs (node s ! 0) = [\<lparr>ecommand = 7, eterm = 1\<rparr>]) \<and>
        (case ordered_run handover_run s of
           Next s' \<Rightarrow> applyCh (node s' ! 1) = [\<lparr>Index = 1, Command = 7, UseSnapshot = False\<rparr>] \<and>
             GetState (still (node s' ! 2)) = (2, True)
         | _ \<Rightarrow> False)
    | _ \<Rightarrow> False)"
  unfolding commit_run_def handover_run_def elect_run_def by code_simp

theorem state_machine_safety_witness:
  "\<exists>(s :: int sys) s'. ordered_step\<^sup>*\<^sup>* (sys_init 3) s \<and> ordered_step\<^sup>*\<^sup>* s s' \<and>
     (\<exists>m \<in> set (applyCh (node s ! 0)). \<exists>m' \<in> set (applyCh (node s' ! 1)). Index m' = Index m \<and> Command m' = Command m)"
proof -
  let ?m = "\<lparr>Index = 1, Command = 7, UseSnapshot = False\<rparr> :: int ApplyMsg"
  obtain s s' :: "int sys" where s: "ordered_step\<^sup>*\<^sup>* (sys_init 3) s" "ordered_step\<^sup>*\<^sup>* s s'"
    and m: "?m \<in> set (applyCh (node s ! 0))" "?m \<in> set (applyCh (node s' ! 1))"
    by (rule ordered_witness [OF commit_run_result]) simp
  have "Command ?m = Command ?m" by (rule state_machine_safety [OF s _ _ m]) simp_all
  then show ?thesis using s m by blast
qed

theorem leader_completeness_witness:
  "\<exists>(s :: int sys) s'. ordered_step\<^sup>*\<^sup>* (sys_init 3) s \<and> ordered_step\<^sup>*\<^sup>* s s' \<and> GetState (still (node s' ! 2)) = (2, True) \<and>
     prefix [\<lparr>ecommand = 7, eterm = 1\<rparr>] (logs (node s' ! 2))"
proof -
  obtain s s' :: "int sys" where s: "ordered_step\<^sup>*\<^sup>* (sys_init 3) s" "ordered_step\<^sup>*\<^sup>* s s'"
    and c: "commitIndex (node s ! 0) = 1" "currentTerm (node s ! 0) = 1" "logs (node s ! 0) = [\<lparr>ecommand = 7, eterm = 1\<rparr>]"
    and l: "GetState (still (node s' ! 2)) = (2, True)"
    by (rule ordered_witness [OF commit_run_result]) simp
  have "prefix (take (nat (commitIndex (node s ! 0))) (logs (node s ! 0))) (logs (node s' ! 2))"
    by (rule leader_completeness [OF s _ _ l]) (simp_all add: c)
  then show ?thesis using s l by (auto simp: c)
qed

theorem committed_kept_witness:
  "\<exists>(s :: int sys) s'. ordered_step\<^sup>*\<^sup>* (sys_init 3) s \<and> ordered_step\<^sup>*\<^sup>* s s' \<and> GetState (still (node s' ! 2)) = (2, True) \<and>
     take 1 (logs (node s' ! 0)) = [\<lparr>ecommand = 7, eterm = 1\<rparr>]"
proof -
  obtain s s' :: "int sys" where s: "ordered_step\<^sup>*\<^sup>* (sys_init 3) s" "ordered_step\<^sup>*\<^sup>* s s'"
    and c: "commitIndex (node s ! 0) = 1" "logs (node s ! 0) = [\<lparr>ecommand = 7, eterm = 1\<rparr>]"
    and l: "GetState (still (node s' ! 2)) = (2, True)"
    by (rule ordered_witness [OF commit_run_result]) simp
  have "take 1 (logs (node s' ! 0)) = [\<lparr>ecommand = 7, eterm = 1\<rparr>]"
    using committed_kept [OF s, of 0 1] by (simp add: c)
  then show ?thesis using s l by blast
qed

theorem raft_refines_spec_witness:
  "\<exists>(s :: int sys) (a :: int spec). reach True 3 s \<and> spec_reach False 3 a \<and> s_role a 0 = 2 \<and> s_term a 0 = 1"
proof -
  obtain s :: "int sys" where s: "reach True 3 s" "GetState (still (node s ! 0)) = (1, True) \<and> GetState (still (node s ! 1)) = (1, False)"
    by (rule run_witness [OF elect_run_result])
  from raft_refines_spec [OF s(1)] obtain a :: "int spec" where a: "spec_reach False 3 a"
    and eq: "\<forall>i < 3. s_term a i = currentTerm (node s ! i) \<and> s_vote a i = votedFor (node s ! i) \<and>
      s_role a i = role (node s ! i) \<and> s_log a i = logs (node s ! i)" by (elim exE conjE)
  have "s_role a 0 = 2" "s_term a 0 = 1"
    using eq [rule_format, of 0] s(2) by (simp_all add: GetState_def)
  then show ?thesis using s(1) a by blast
qed

theorem election_safety_witness:
  "\<exists>s :: int sys. reach True 3 s \<and> GetState (still (node s ! 0)) = (1, True) \<and> GetState (still (node s ! 1)) \<noteq> (1, True)"
proof -
  obtain s :: "int sys" where s: "reach True 3 s" "GetState (still (node s ! 0)) = (1, True) \<and> GetState (still (node s ! 1)) = (1, False)"
    by (rule run_witness [OF elect_run_result])
  moreover have "GetState (still (node s ! 1)) \<noteq> (1, True)"
    using election_safety [OF s(1) rtranclp.rtrancl_refl, of 0 1 1] s(2) by auto
  ultimately show ?thesis by blast
qed

theorem log_matching_witness:
  "\<exists>s :: int sys. reach True 3 s \<and> 0 < length (logs (node s ! 0)) \<and>
     take (Suc 0) (logs (node s ! 0)) = take (Suc 0) (logs (node s ! 1))"
proof -
  let ?e = "\<lparr>ecommand = 7, eterm = 1\<rparr> :: int entry"
  obtain s :: "int sys" where s: "reach True 3 s" "logs (node s ! 0) = [?e] \<and> logs (node s ! 1) = [?e]"
    by (rule run_witness [OF replicate_run_result])
  have "take (Suc 0) (logs (node s ! 0)) = take (Suc 0) (logs (node s ! 1))"
    by (rule log_matching [OF s(1)]) (use s(2) in simp_all)
  then show ?thesis using s by auto
qed

lemma append_run_result:
  "(case run True (replicate_run @ [Handle 1 0, Submit 0 8, Tick 0, Handle 2 0]) (sys_init 3) of
      Next s \<Rightarrow> (case flight s ! 3 of AEReq i c j args \<Rightarrow> (i, j, PrevLogIndex args, length (Entries args)) = (0, 1, 1, 1) | _ \<Rightarrow> False) \<and>
        exec True (Handle 3 0) s \<noteq> Disabled
    | _ \<Rightarrow> False)"
  unfolding replicate_run_def elect_run_def by code_simp

theorem no_panic_witness:
  "\<exists>(s :: int sys) s' c args. reach True 3 s \<and> flight s ! 3 = AEReq 0 c 1 args \<and> PrevLogIndex args = 1 \<and>
     exec True (Handle 3 0) s = Next s'"
proof -
  obtain s :: "int sys" where s: "reach True 3 s"
    "(case flight s ! 3 of AEReq i c j args \<Rightarrow> (i, j, PrevLogIndex args, length (Entries args)) = (0, 1, 1, 1) | _ \<Rightarrow> False) \<and>
     exec True (Handle 3 0) s \<noteq> Disabled"
    by (rule run_witness [OF append_run_result])
  from s(2) obtain c args where "flight s ! 3 = AEReq 0 c 1 args" "PrevLogIndex args = 1"
    by (auto split: packet.splits)
  moreover obtain s' where "exec True (Handle 3 0) s = Next s'"
    using s(2) no_panic [OF s(1), of "Handle 3 0"] by (cases "exec True (Handle 3 0) s") auto
  ultimately show ?thesis using s(1) by blast
qed

lemma durable_run_result:
  "(case run False (elect_run @ [Submit 0 7]) (sys_init 3) of
      Next s \<Rightarrow> currentTerm (node s ! 0) = 1 \<and> votedFor (node s ! 0) = 0 \<and> role (node s ! 0) = 2 \<and>
        logs (node s ! 0) = [\<lparr>ecommand = 7, eterm = 1\<rparr>]
    | _ \<Rightarrow> False)"
  unfolding elect_run_def by code_simp

theorem restart_durable_witness:
  "\<exists>s :: int sys. reach False 3 s \<and> currentTerm (restart (node s ! 0) 5 6 7) = 1 \<and>
     votedFor (restart (node s ! 0) 5 6 7) = 0 \<and> logs (restart (node s ! 0) 5 6 7) = [\<lparr>ecommand = 7, eterm = 1\<rparr>] \<and>
     role (node s ! 0) = 2 \<and> role (restart (node s ! 0) 5 6 7) = 0"
proof -
  obtain s :: "int sys" where s: "reach False 3 s"
    "currentTerm (node s ! 0) = 1 \<and> votedFor (node s ! 0) = 0 \<and> role (node s ! 0) = 2 \<and>
     logs (node s ! 0) = [\<lparr>ecommand = 7, eterm = 1\<rparr>]"
    by (rule run_witness [OF durable_run_result])
  then show ?thesis using restart_durable [OF s(1), of 0 5 6 7] by auto
qed

theorem step_forward_witness:
  "\<exists>s s' :: int sys. reach True 3 s \<and> exec True (Timeout 0 0) s = Next s' \<and>
     currentTerm (node s ! 0) \<le> currentTerm (node s' ! 0)"
proof -
  have "exec True (Timeout 0 0) (sys_init 3 :: int sys) \<noteq> Disabled"
    by (simp add: sys_init_def numeral_3_eq_3)
  moreover have "exec True (Timeout 0 0) (sys_init 3 :: int sys) \<noteq> Panic"
    by simp
  ultimately obtain s' :: "int sys" where s': "exec True (Timeout 0 0) (sys_init 3) = Next s'"
    using outcome.exhaust by metis
  have r: "reach True 3 (sys_init 3 :: int sys)" by (rule reach.start)
  then show ?thesis using step_forward [OF r _ s', of 0] s' by auto
qed

text \<open>
  The unlocked test of a reply's term. Peer 2 sees a reply of term 2 while it is in term 1; before
  it takes the lock it votes for peer 0 in term 3; then it goes back to term 2, forgets the vote,
  and votes for peer 1 in term 3.
\<close>

definition race_run :: "int label list" where
  "race_run =
    [Timeout 0 0, Vote 0, Lose 0, Lose 0, Timeout 0 0,
     Timeout 2 0, Vote 2, Handle 0 0, Handle 1 0, Lose 0,
     Vote 0, Lose 1, Lose 1,
     Timeout 0 0, Vote 0, Handle 2 0, Handle 2 0, Handle 2 0, Lose 1,
     Handle 0 0, Lose 0,
     Timeout 1 0, Vote 1, Lose 0, Lose 0, Timeout 1 0, Vote 1, Lose 0, Lose 0,
     Timeout 1 0, Vote 1, Handle 1 0, Handle 1 0, Handle 1 0]"

lemma race_run_result:
  "(case run False race_run (sys_init 3) of
      Next s \<Rightarrow> GetState (still (node s ! 0)) = (3, True) \<and> GetState (still (node s ! 1)) = (3, True) | _ \<Rightarrow> False)"
  unfolding race_run_def by code_simp

text \<open>
  C21: without the restriction to strict runs election safety fails: because \<open>sendRequestVote\<close> tests
  \<open>reply.Term > rf.currentTerm\<close> before it takes the lock, a peer can return to an older term and
  vote twice, and two peers lead term 3.
\<close>
theorem unlocked_test_two_leaders:
  "\<exists>s :: int sys. reach False 3 s \<and> GetState (still (node s ! 0)) = (3, True) \<and> GetState (still (node s ! 1)) = (3, True)"
  by (rule run_witness [OF race_run_result]) blast

text \<open>
  The unlocked assignments to \<open>nextIndex\<close>. An append of peer 0's term 1 with \<open>PrevLogIndex\<close> 0 is refused by
  peer 1, which is in term 2. The reply reaches peer 0 when it leads term 3. The first assignment sets
  \<open>nextIndex[1]\<close> to 0; before the last one sets it to 1 a sender builds an append from it.
\<close>

definition stale_refusal :: "int label list" where
  "stale_refusal = elect_run @
    [Tick 0, Handle 0 0, Lose 0, Timeout 1 0, Vote 1, Lose 2, Handle 0 0, Handle 0 0, Lose 1,
     Timeout 0 0, Vote 0, Lose 1, Handle 1 0, Handle 1 0, Handle 1 0,
     Handle 0 0, Handle 0 0]"

lemma next_run_result:
  "(case run False (stale_refusal @ [Handle 0 0, Tick 0]) (sys_init 3 :: int sys) of
      Next s \<Rightarrow> exec False (Handle 1 0) s = Panic | _ \<Rightarrow> False)"
  unfolding stale_refusal_def elect_run_def by code_simp

theorem unlocked_next_panics: "\<exists>(s :: int sys) k. reach False 3 s \<and> exec False (Handle k 0) s = Panic"
  by (rule run_witness [OF next_run_result]) blast

text \<open>
  The same assignment, later: peer 0 has lost its leadership since the test of \<open>rf.role\<close>, wins the election of
  term 5, and the assignment falls between \<open>rf.nextIndex[0:0]\<close> and the first \<open>append\<close> of \<open>doVote\<close>.
\<close>

lemma reset_run_result:
  "(case run False (stale_refusal @
        [Timeout 1 0, Vote 1, Lose 1, Lose 1, Timeout 1 0, Vote 1, Lose 2, Handle 1 0, Lose 1,
         Timeout 0 0, Vote 0, Lose 1, Handle 1 0, Handle 1 0]) (sys_init 3 :: int sys) of
      Next s \<Rightarrow> exec False (Reset 0 1 0) s = Panic | _ \<Rightarrow> False)"
  unfolding stale_refusal_def elect_run_def by code_simp

theorem unlocked_reset_panics: "\<exists>s :: int sys. reach False 3 s \<and> exec False (Reset 0 1 0) s = Panic"
  by (rule run_witness [OF reset_run_result]) blast

text \<open>
  A torn read. \<open>GetState\<close> reads the term of peer 1, which follows in term 1, and the role of peer 1 once it
  leads term 2; with peer 0, the leader of term 1, the caller sees two leaders of term 1.
\<close>

definition succeed_run :: "int label list" where
  "succeed_run = [Timeout 1 0, Vote 1, Lose 0, Handle 0 0, Handle 0 0, Handle 0 0]"

lemma succeed_run_result:
  "(case ordered_run elect_run (sys_init 3) of
      Next s \<Rightarrow> (GetState (still (node s ! 0)) = (1, True) \<and> currentTerm (node s ! 1) = 1) \<and>
        (case ordered_run succeed_run s of Next s' \<Rightarrow> role (node s' ! 1) = 2 | _ \<Rightarrow> False)
    | _ \<Rightarrow> False)"
  unfolding succeed_run_def elect_run_def by code_simp

theorem torn_read_two_leaders:
  "\<exists>(s :: int sys) s'. ordered_step\<^sup>*\<^sup>* (sys_init 3) s \<and> ordered_step\<^sup>*\<^sup>* s s' \<and>
     GetState (still (node s ! 0)) = (1, True) \<and> GetState (node s ! 1, node s' ! 1) = (1, True)"
  by (rule ordered_witness [OF succeed_run_result]) (auto simp: GetState_def)

text \<open>
  A delayed heartbeat. Peer 0 leads term 1 and sends an empty append to peer 1, then replicates
  command 7 to peer 1 and commits it. The empty append arrives late and truncates the log of peer
  1, which then helps to elect peer 2, whose log is empty; peer 2 commits command 8 at index 1.
\<close>

definition reorder_run :: "int label list" where
  "reorder_run = elect_run @
    [Tick 0, Handle 0 0, Lose 0, Submit 0 7, Tick 0, Handle 1 0, Lose 1, Handle 1 0, Handle 1 0, Handle 1 0, Handle 1 0,
     Handle 0 0, Lose 0,
     Timeout 2 0, Vote 2, Lose 0, Lose 0, Timeout 2 0, Vote 2, Handle 1 0, Handle 1 0, Handle 1 0, Lose 0,
     Submit 2 8, Tick 2, Handle 1 0, Handle 1 0, Handle 1 0, Handle 1 0, Handle 1 0]"

lemma reorder_run_result:
  "(case run True reorder_run (sys_init 3) of
      Next s \<Rightarrow> applyCh (node s ! 0) = [\<lparr>Index = 1, Command = 7, UseSnapshot = False\<rparr>] \<and>
        applyCh (node s ! 2) = [\<lparr>Index = 1, Command = 8, UseSnapshot = False\<rparr>]
    | _ \<Rightarrow> False)"
  unfolding reorder_run_def elect_run_def by code_simp

text \<open>
  C22: state machine safety fails even in strict runs: \<open>AppendEntries\<close> cuts the log back to
  \<open>PrevLogIndex\<close> even when the entries it is offered are already there, so a delayed append can
  remove an entry its peer has acknowledged, and two peers apply different commands at index 1.
\<close>
theorem reordered_append_diverges:
  "\<exists>s :: int sys. reach True 3 s \<and>
     applyCh (node s ! 0) = [\<lparr>Index = 1, Command = 7, UseSnapshot = False\<rparr>] \<and>
     applyCh (node s ! 2) = [\<lparr>Index = 1, Command = 8, UseSnapshot = False\<rparr>]"
  by (rule run_witness [OF reorder_run_result]) blast

text \<open>
  A commit index that goes back. Command 7 is committed and applied by peers 0 and 1; peer 2, which
  stores it but has not been told, is elected. Its first heartbeat carries commit index 0, peer 1
  takes that over, and applies command 7 again with the next commit.
\<close>

definition redeliver_run :: "int label list" where
  "redeliver_run = elect_run @
    [Submit 0 7, Tick 0, Handle 0 0, Handle 0 0, Handle 0 0, Handle 0 0, Handle 0 0, Lose 0, Handle 0 0, Handle 0 0,
     Tick 0, Lose 1, Handle 0 0, Handle 0 0, Lose 0,
     Timeout 2 0, Vote 2, Lose 0, Handle 0 0, Handle 0 0, Handle 0 0,
     Tick 2, Lose 0, Handle 0 0, Handle 0 0, Lose 0,
     Submit 2 8, Tick 2, Lose 0, Handle 0 0, Handle 0 0, Handle 0 0, Handle 0 0, Handle 0 0,
     Tick 2, Lose 0, Handle 0 0, Handle 0 0]"

lemma redeliver_run_result:
  "(case run True redeliver_run (sys_init 3) of
      Next s \<Rightarrow> map (\<lambda>m. (Index m, Command m)) (applyCh (node s ! 1)) = [(1, 7), (1, 7), (2, 8)]
    | _ \<Rightarrow> False)"
  unfolding redeliver_run_def elect_run_def by code_simp

text \<open>
  A peer that has not crashed can deliver the same entry twice: \<open>AppendEntries\<close> copies the
  leader's commit index even when it is lower than the peer's own.
\<close>
theorem commit_index_redelivers:
  "\<exists>s :: int sys. reach True 3 s \<and>
     map (\<lambda>m. (Index m, Command m)) (applyCh (node s ! 1)) = [(1, 7), (1, 7), (2, 8)]"
proof -
  obtain s :: "int sys" where "reach True 3 s"
    "map (\<lambda>m. (Index m, Command m)) (applyCh (node s ! 1)) = [(1, 7), (1, 7), (2, 8)]"
    by (rule run_witness [OF redeliver_run_result])
  then show ?thesis by (intro exI conjI)
qed

end
