(* ===== verification/Raft_Config.thy ===== *)
theory Raft_Config
  imports Harness Raft_Properties
begin

text \<open>
  The test harness of Raft, \<^verbatim>\<open>src/raft/config.go\<close>: it starts and crashes peers, switches their client
  ends on and off, reads every apply channel, and checks leaders, terms and agreement.

  Peers are objects: \<open>heap\<close> holds them by address, \<open>rafts\<close> has the address of the current instance of each
  server, or \<open>None\<close> (\<open>nil\<close>) after a crash. A persister that is handed to \<open>Make\<close> is shared with the
  instance: \<open>Shared p\<close> stands for the persister of the peer at address \<open>p\<close>, \<open>Own ps\<close> for one that only the
  harness holds. An index out of range, a dereferenced \<open>nil\<close> and \<open>log.Fatalf\<close> in the network are \<open>None\<close>.
\<close>

subsection \<open>State\<close>

record ('c, 'a, 'b) config =
  net :: "(string, nat, 'a, 'b, nat) Network"
  cfg_n :: nat
  cfg_done :: int
  rafts :: "nat option list"
  applyErr :: "string list"
  connected :: "bool list"
  saved :: "'c gobval saved list"
  endnames :: "string list option list"
  cfg_logs :: "(int \<rightharpoonup> int) list"
  heap :: "nat \<rightharpoonup> 'c Raft"
  fresh :: nat

text \<open>The persister behind \<open>cfg.saved[i]\<close>.\<close>

definition saved_get :: "'c gobval saved \<Rightarrow> ('c, 'a, 'b) config \<Rightarrow> 'c gobval Persister option" where
  "saved_get sv cfg =
     (case sv of Nil_saved \<Rightarrow> None | Shared p \<Rightarrow> map_option persister (heap cfg p) | Own ps \<Rightarrow> Some ps)"

subsection \<open>Connecting and disconnecting\<close>

text \<open>\<open>cfg.endnames[i][j]\<close>; a row that was never made has no elements.\<close>

definition endname :: "nat \<Rightarrow> nat \<Rightarrow> ('c, 'a, 'b) config \<Rightarrow> string option" where
  "endname i j cfg = do { row \<leftarrow> slot (endnames cfg) i; es \<leftarrow> row; slot es j }"

definition enable_end :: "bool \<Rightarrow> nat \<Rightarrow> nat \<Rightarrow> ('c, 'a, 'b) config \<Rightarrow> ('c, 'a, 'b) config option" where
  "enable_end b i j cfg = do { e \<leftarrow> endname i j cfg; Some (cfg\<lparr>net := Enable e b (net cfg)\<rparr>) }"

definition connect_if :: "nat \<Rightarrow> nat \<Rightarrow> nat \<Rightarrow> ('c, 'a, 'b) config \<Rightarrow> ('c, 'a, 'b) config option" where
  "connect_if k i j cfg = do { c \<leftarrow> slot (connected cfg) k; if c then enable_end True i j cfg else Some cfg }"

definition connect :: "nat \<Rightarrow> ('c, 'a, 'b) config \<Rightarrow> ('c, 'a, 'b) config option" where
  "connect i cfg =
     do { c \<leftarrow> put_slot (connected cfg) i True;
          cfg1 \<leftarrow> for_each (\<lambda>j. connect_if j i j) [0..<cfg_n cfg] (cfg\<lparr>connected := c\<rparr>);
          for_each (\<lambda>j. connect_if j j i) [0..<cfg_n cfg] cfg1 }"

definition disconnect_if :: "nat \<Rightarrow> nat \<Rightarrow> nat \<Rightarrow> ('c, 'a, 'b) config \<Rightarrow> ('c, 'a, 'b) config option" where
  "disconnect_if k i j cfg =
     do { row \<leftarrow> slot (endnames cfg) k; if row \<noteq> None then enable_end False i j cfg else Some cfg }"

definition disconnect :: "nat \<Rightarrow> ('c, 'a, 'b) config \<Rightarrow> ('c, 'a, 'b) config option" where
  "disconnect i cfg =
     do { c \<leftarrow> put_slot (connected cfg) i False;
          cfg1 \<leftarrow> for_each (\<lambda>j. disconnect_if i i j) [0..<cfg_n cfg] (cfg\<lparr>connected := c\<rparr>);
          for_each (\<lambda>j. disconnect_if j j i) [0..<cfg_n cfg] cfg1 }"

subsection \<open>Crash, start and clean-up\<close>

definition kill_raft :: "nat \<Rightarrow> ('c, 'a, 'b) config \<Rightarrow> ('c, 'a, 'b) config" where
  "kill_raft p cfg = cfg\<lparr>heap := (heap cfg)(p := map_option Kill (heap cfg p))\<rparr>"

text \<open>\<open>cfg.saved[i] = cfg.saved[i].Copy()\<close> unless it is \<open>nil\<close>.\<close>

definition copy_saved :: "nat \<Rightarrow> ('c, 'a, 'b) config \<Rightarrow> ('c, 'a, 'b) config option" where
  "copy_saved i cfg =
     do { sv \<leftarrow> slot (saved cfg) i;
          if sv = Nil_saved then Some cfg
          else do { ps \<leftarrow> saved_get sv cfg; Some (cfg\<lparr>saved := (saved cfg)[i := Own (Copy ps)]\<rparr>) } }"

definition crash1 :: "nat \<Rightarrow> ('c, 'a, 'b) config \<Rightarrow> ('c, 'a, 'b) config option" where
  "crash1 i cfg =
     do { cfg1 \<leftarrow> disconnect i cfg;
          cfg2 \<leftarrow> copy_saved i (cfg1\<lparr>net := DeleteServer i (net cfg1)\<rparr>);
          rf \<leftarrow> slot (rafts cfg2) i;
          let cfg3 = (case rf of
                        None \<Rightarrow> cfg2
                      | Some p \<Rightarrow> (kill_raft p cfg2)\<lparr>rafts := (rafts cfg2)[i := None]\<rparr>);
          sv \<leftarrow> slot (saved cfg3) i;
          if sv = Nil_saved then Some cfg3
          else do { ps \<leftarrow> saved_get sv cfg3;
                    let raftlog = ReadRaftState ps;
                    Some (cfg3\<lparr>saved := (saved cfg3)[i := Own (SaveRaftState MakePersister raftlog)]\<rparr>) } }"

text \<open>
  \<open>start1\<close>. The names are the results of \<open>randstring(20)\<close>; \<open>ms\<close> are the methods reflection finds on a Raft
  peer; the clock and random numbers are those of \<open>Make\<close>. The new instance and the server that offers it
  get the next address.
\<close>

definition make_end :: "nat \<Rightarrow> nat \<Rightarrow> ('c, 'a, 'b) config \<Rightarrow> ('c, 'a, 'b) config option" where
  "make_end i j cfg =
     do { e \<leftarrow> endname i j cfg;
          rn \<leftarrow> MakeEnd e (net cfg);
          Some (cfg\<lparr>net := Connect e j rn\<rparr>) }"

definition start1 ::
  "('a, 'b, nat) Method list \<Rightarrow> (nat \<Rightarrow> string) \<Rightarrow> int \<Rightarrow> int \<Rightarrow> int \<Rightarrow> nat \<Rightarrow>
   ('c, 'a, 'b) config \<Rightarrow> ('c, 'a, 'b) config option" where
  "start1 ms names now rnd1 rnd2 i cfg =
     do { cfg1 \<leftarrow> crash1 i cfg;
          rows \<leftarrow> put_slot (endnames cfg1) i (Some (map names [0..<cfg_n cfg1]));
          cfg2 \<leftarrow> for_each (make_end i) [0..<cfg_n cfg1] (cfg1\<lparr>endnames := rows\<rparr>);
          sv \<leftarrow> slot (saved cfg2) i;
          ps \<leftarrow> (if sv = Nil_saved then Some MakePersister else map_option Copy (saved_get sv cfg2));
          let p = fresh cfg2;
          let srv = AddService (MakeService ''Raft'' p ms) MakeServer;
          rs \<leftarrow> put_slot (rafts cfg2) i (Some p);
          Some (cfg2\<lparr>heap := (heap cfg2)(p \<mapsto> Make (cfg_n cfg2) (int i) ps now rnd1 rnd2),
                     saved := (saved cfg2)[i := Shared p], rafts := rs, fresh := p + 1,
                     net := AddServer i p ((net cfg2)\<lparr>objs := (objs (net cfg2))(p \<mapsto> srv)\<rparr>)\<rparr>) }"

definition setunreliable :: "bool \<Rightarrow> ('c, 'a, 'b) config \<Rightarrow> ('c, 'a, 'b) config" where
  "setunreliable unrel cfg = cfg\<lparr>net := Reliable (\<not> unrel) (net cfg)\<rparr>"

definition setlongreordering :: "bool \<Rightarrow> ('c, 'a, 'b) config \<Rightarrow> ('c, 'a, 'b) config" where
  "setlongreordering longrel cfg = cfg\<lparr>net := LongReordering longrel (net cfg)\<rparr>"

definition rpcCount :: "nat \<Rightarrow> ('c, 'a, 'b) config \<Rightarrow> int option" where
  "rpcCount server cfg = GetCount server (net cfg)"

definition config0 :: "nat \<Rightarrow> ('c, 'a, 'b) config" where
  "config0 n =
     \<lparr>net = MakeNetwork, cfg_n = n, cfg_done = 0, rafts = replicate n None, applyErr = replicate n '''',
      connected = replicate n False, saved = replicate n Nil_saved, endnames = replicate n None,
      cfg_logs = replicate n Map.empty, heap = Map.empty, fresh = 0\<rparr>"

definition make_config ::
  "('a, 'b, nat) Method list \<Rightarrow> (nat \<Rightarrow> nat \<Rightarrow> string) \<Rightarrow> (nat \<Rightarrow> int \<times> int \<times> int) \<Rightarrow> nat \<Rightarrow> bool \<Rightarrow>
   ('c, 'a, 'b) config option" where
  "make_config ms names seeds n unreliable =
     do { let cfg = setunreliable unreliable (config0 n);
          let cfg0 = cfg\<lparr>net := LongDelays True (net cfg)\<rparr>;
          cfg1 \<leftarrow> for_each
             (\<lambda>i cfg. do { ls \<leftarrow> put_slot (cfg_logs cfg) i Map.empty;
                           let (now, rnd1, rnd2) = seeds i;
                           start1 ms (names i) now rnd1 rnd2 i (cfg\<lparr>cfg_logs := ls\<rparr>) }) [0..<n] cfg0;
          for_each connect [0..<n] cfg1 }"

definition cleanup :: "('c, 'a, 'b) config \<Rightarrow> ('c, 'a, 'b) config" where
  "cleanup cfg =
     (fold (\<lambda>rf c. case rf of None \<Rightarrow> c | Some p \<Rightarrow> kill_raft p c) (rafts cfg) cfg)\<lparr>cfg_done := 1\<rparr>"

subsection \<open>Switching the ends of a server\<close>

definition shape :: "('c, 'a, 'b) config \<Rightarrow> bool" where
  "shape cfg \<longleftrightarrow>
     length (rafts cfg) = cfg_n cfg \<and> length (applyErr cfg) = cfg_n cfg \<and> length (connected cfg) = cfg_n cfg \<and>
     length (saved cfg) = cfg_n cfg \<and> length (endnames cfg) = cfg_n cfg \<and> length (cfg_logs cfg) = cfg_n cfg \<and>
     (\<forall>i < cfg_n cfg. \<forall>es. endnames cfg ! i = Some es \<longrightarrow> length es = cfg_n cfg)"

lemma shapeD:
  assumes "shape cfg"
  shows "length (rafts cfg) = cfg_n cfg" "length (applyErr cfg) = cfg_n cfg" "length (connected cfg) = cfg_n cfg"
    "length (saved cfg) = cfg_n cfg" "length (endnames cfg) = cfg_n cfg" "length (cfg_logs cfg) = cfg_n cfg"
  using assms by (simp_all add: shape_def)

text \<open>Under the shape a name exists exactly for the started servers.\<close>

lemma endname_Some:
  "shape cfg \<Longrightarrow> endname i j cfg = Some e \<longleftrightarrow>
     i < cfg_n cfg \<and> j < cfg_n cfg \<and> (\<exists>es. endnames cfg ! i = Some es \<and> e = es ! j)"
  by (auto simp: endname_def shape_def slot_def split: bind_splits if_splits)

lemma endname_row:
  "shape cfg \<Longrightarrow> i < cfg_n cfg \<Longrightarrow> j < cfg_n cfg \<Longrightarrow> endnames cfg ! i \<noteq> None \<Longrightarrow>
   endname i j cfg = Some (the (endnames cfg ! i) ! j)"
  by (auto simp: endname_Some)

lemma config_net_simps [simp]:
  "endname i j (cfg\<lparr>net := rn\<rparr>) = endname i j cfg" "endname i j (cfg\<lparr>connected := c\<rparr>) = endname i j cfg"
  "shape (cfg\<lparr>net := rn\<rparr>) = shape cfg"
  by (simp_all add: endname_def shape_def)

lemma net_same: "cfg\<lparr>net := net cfg\<rparr> = cfg"
  by simp

lemma for_switch:
  assumes "\<And>j rn. j \<in> set js \<Longrightarrow> f j (cfg\<lparr>net := rn\<rparr>) = Some (cfg\<lparr>net := if q j then Enable (e j) b rn else rn\<rparr>)"
  shows "for_each f js (cfg\<lparr>net := rn\<rparr>) = Some (cfg\<lparr>net := set_ends b (map e (filter q js)) rn\<rparr>)"
  using assms
proof (induction js arbitrary: rn)
  case (Cons j js)
  have "for_each f js (cfg\<lparr>net := rn'\<rparr>) = Some (cfg\<lparr>net := set_ends b (map e (filter q js)) rn'\<rparr>)" for rn'
    by (rule Cons.IH) (use Cons.prems in auto)
  then show ?case using Cons.prems [of j rn] by (simp add: set_ends_def)
qed (simp add: set_ends_def)

text \<open>The names of the ends that leave or enter a server, for the partners that satisfy \<open>q\<close>.\<close>

definition touching :: "(nat \<Rightarrow> bool) \<Rightarrow> (nat \<Rightarrow> bool) \<Rightarrow> nat \<Rightarrow> ('c, 'a, 'b) config \<Rightarrow> string list" where
  "touching q r i cfg =
     map (\<lambda>j. the (endnames cfg ! i) ! j) (filter q [0..<cfg_n cfg]) @
     map (\<lambda>j. the (endnames cfg ! j) ! i) (filter r [0..<cfg_n cfg])"

lemma connect_if_eq:
  "k < length (connected cfg) \<Longrightarrow> (connected cfg ! k \<Longrightarrow> endname i j cfg = Some e) \<Longrightarrow>
   connect_if k i j (cfg\<lparr>net := rn\<rparr>) = Some (cfg\<lparr>net := if connected cfg ! k then Enable e True rn else rn\<rparr>)"
  by (simp add: connect_if_def enable_end_def)

lemma disconnect_if_eq:
  "k < length (endnames cfg) \<Longrightarrow> (endnames cfg ! k \<noteq> None \<Longrightarrow> endname i j cfg = Some e) \<Longrightarrow>
   disconnect_if k i j (cfg\<lparr>net := rn\<rparr>) = Some (cfg\<lparr>net := if endnames cfg ! k \<noteq> None then Enable e False rn else rn\<rparr>)"
  by (cases "endnames cfg ! k") (simp_all add: disconnect_if_def enable_end_def)

lemma connect_eq:
  assumes sh: "shape cfg" and i: "i < cfg_n cfg" "endnames cfg ! i \<noteq> None"
    and started: "\<And>j. j < cfg_n cfg \<Longrightarrow> connected cfg ! j \<Longrightarrow> endnames cfg ! j \<noteq> None"
  shows "connect i cfg = Some (cfg\<lparr>connected := (connected cfg)[i := True],
    net := set_ends True (touching (\<lambda>j. (connected cfg)[i := True] ! j) (\<lambda>j. (connected cfg)[i := True] ! j) i cfg) (net cfg)\<rparr>)"
proof -
  note L = shapeD [OF sh]
  let ?c = "(connected cfg)[i := True]"
  let ?cfg = "cfg\<lparr>connected := ?c\<rparr>"
  have st: "endnames cfg ! j \<noteq> None" if "j < cfg_n cfg" "?c ! j" for j
    using started [of j] i that L(3) by (cases "j = i") auto
  have ends: "?c ! j \<Longrightarrow> endname j k cfg = Some (the (endnames cfg ! j) ! k)" "endname i k cfg = Some (the (endnames cfg ! i) ! k)"
    if "j < cfg_n cfg" "k < cfg_n cfg" for j k
    using endname_row [OF sh] that st i by blast+
  have 1: "for_each (\<lambda>j. connect_if j i j) [0..<cfg_n cfg] (?cfg\<lparr>net := rn\<rparr>) =
      Some (?cfg\<lparr>net := set_ends True (map (\<lambda>j. the (endnames cfg ! i) ! j) (filter ((!) (connected ?cfg)) [0..<cfg_n cfg])) rn\<rparr>)" for rn
    by (intro for_switch connect_if_eq) (use ends(2) L i in simp_all)
  have 2: "for_each (\<lambda>j. connect_if j j i) [0..<cfg_n cfg] (?cfg\<lparr>net := rn\<rparr>) =
      Some (?cfg\<lparr>net := set_ends True (map (\<lambda>j. the (endnames cfg ! j) ! i) (filter ((!) (connected ?cfg)) [0..<cfg_n cfg])) rn\<rparr>)" for rn
    by (intro for_switch connect_if_eq) (use ends(1) L i in simp_all)
  have "put_slot (connected cfg) i True = Some (connected ?cfg)" "?cfg\<lparr>net := net cfg\<rparr> = ?cfg" using i L by simp_all
  then show ?thesis using 1 [of "net cfg"] 2 by (simp add: connect_def touching_def set_ends_append)
qed

lemma disconnect_eq:
  assumes sh: "shape cfg" and i: "i < cfg_n cfg"
  shows "disconnect i cfg = Some (cfg\<lparr>connected := (connected cfg)[i := False],
    net := set_ends False (touching (\<lambda>_. endnames cfg ! i \<noteq> None) (\<lambda>j. endnames cfg ! j \<noteq> None) i cfg) (net cfg)\<rparr>)"
proof -
  note L = shapeD [OF sh] and R = endname_row [OF sh]
  let ?cfg = "cfg\<lparr>connected := (connected cfg)[i := False]\<rparr>"
  have 1: "for_each (\<lambda>j. disconnect_if i i j) [0..<cfg_n cfg] (?cfg\<lparr>net := rn\<rparr>) =
      Some (?cfg\<lparr>net := set_ends False (map (\<lambda>j. the (endnames cfg ! i) ! j) (filter (\<lambda>_. endnames ?cfg ! i \<noteq> None) [0..<cfg_n cfg])) rn\<rparr>)" for rn
    by (intro for_switch disconnect_if_eq) (use R L i in simp_all)
  have 2: "for_each (\<lambda>j. disconnect_if j j i) [0..<cfg_n cfg] (?cfg\<lparr>net := rn\<rparr>) =
      Some (?cfg\<lparr>net := set_ends False (map (\<lambda>j. the (endnames cfg ! j) ! i) (filter (\<lambda>j. endnames ?cfg ! j \<noteq> None) [0..<cfg_n cfg])) rn\<rparr>)" for rn
    by (intro for_switch disconnect_if_eq) (use R L i in simp_all)
  have "put_slot (connected cfg) i False = Some (connected ?cfg)" "?cfg\<lparr>net := net cfg\<rparr> = ?cfg" using i L by simp_all
  then show ?thesis using 1 [of "net cfg"] 2 by (simp add: disconnect_def touching_def set_ends_append)
qed

text \<open>Which names these are.\<close>

lemma touching_set:
  assumes "shape cfg" and "i < cfg_n cfg"
    and "\<And>j. j < cfg_n cfg \<Longrightarrow> q j \<Longrightarrow> endnames cfg ! i \<noteq> None" and "\<And>j. j < cfg_n cfg \<Longrightarrow> r j \<Longrightarrow> endnames cfg ! j \<noteq> None"
  shows "e \<in> set (touching q r i cfg) \<longleftrightarrow>
    (\<exists>j. endname i j cfg = Some e \<and> q j) \<or> (\<exists>j. endname j i cfg = Some e \<and> r j)"
proof -
  have "endname i j cfg = Some e \<and> q j \<longleftrightarrow> j < cfg_n cfg \<and> q j \<and> e = the (endnames cfg ! i) ! j" for j
    using assms(2) assms(3) [of j] by (auto simp: endname_Some [OF assms(1)])
  moreover have "endname j i cfg = Some e \<and> r j \<longleftrightarrow> j < cfg_n cfg \<and> r j \<and> e = the (endnames cfg ! j) ! i" for j
    using assms(2) assms(4) [of j] by (auto simp: endname_Some [OF assms(1)])
  ultimately show ?thesis by (auto simp: touching_def)
qed

subsection \<open>The links between the servers\<close>

text \<open>
  Names of the current instances are distinct and lead to their servers; the ends that are switched on
  are exactly those between two connected servers, so none of an earlier instance is; the network offers
  the current instance of every server that has one.
\<close>

definition links :: "('c, 'a, 'b) config \<Rightarrow> bool" where
  "links cfg \<longleftrightarrow>
     (\<forall>i j i' j' e. endname i j cfg = Some e \<and> endname i' j' cfg = Some e \<longrightarrow> i = i' \<and> j = j') \<and>
     (\<forall>i j e. endname i j cfg = Some e \<longrightarrow> ends (net cfg) e \<noteq> None \<and> connections (net cfg) e = Some (Some j)) \<and>
     (\<forall>e. zget False (enabled (net cfg)) e \<longleftrightarrow>
        (\<exists>i j. endname i j cfg = Some e \<and> connected cfg ! i \<and> connected cfg ! j)) \<and>
     (\<forall>i < cfg_n cfg. connected cfg ! i \<longrightarrow> endnames cfg ! i \<noteq> None)"

definition objects :: "('c, 'a, 'b) config \<Rightarrow> bool" where
  "objects cfg \<longleftrightarrow>
     (\<forall>i < cfg_n cfg. zget None (servers (net cfg)) i = rafts cfg ! i) \<and>
     (\<forall>i < cfg_n cfg. \<forall>p. rafts cfg ! i = Some p \<longrightarrow> saved cfg ! i = Shared p \<and> heap cfg p \<noteq> None \<and> objs (net cfg) p \<noteq> None) \<and>
     (\<forall>i < cfg_n cfg. \<forall>p. saved cfg ! i = Shared p \<longrightarrow> rafts cfg ! i = Some p) \<and>
     (\<forall>p. fresh cfg \<le> p \<longrightarrow> heap cfg p = None) \<and>
     (\<forall>i < cfg_n cfg. \<forall>j < cfg_n cfg. \<forall>p. rafts cfg ! i = Some p \<and> rafts cfg ! j = Some p \<longrightarrow> i = j)"

definition linked :: "('c, 'a, 'b) config \<Rightarrow> bool" where
  "linked cfg \<longleftrightarrow> shape cfg \<and> links cfg \<and> objects cfg"

lemma linksD:
  assumes "links cfg"
  shows "endname i j cfg = Some e \<Longrightarrow> endname i' j' cfg = Some e \<Longrightarrow> i = i' \<and> j = j'"
    "endname i j cfg = Some e \<Longrightarrow> ends (net cfg) e \<noteq> None" "endname i j cfg = Some e \<Longrightarrow> connections (net cfg) e = Some (Some j)"
    "zget False (enabled (net cfg)) e \<longleftrightarrow> (\<exists>i j. endname i j cfg = Some e \<and> connected cfg ! i \<and> connected cfg ! j)"
    "i < cfg_n cfg \<Longrightarrow> connected cfg ! i \<Longrightarrow> endnames cfg ! i \<noteq> None"
  using assms by (simp_all only: links_def) blast+

lemma linksI:
  assumes "\<And>i j e i' j'. endname i j cfg = Some e \<Longrightarrow> endname i' j' cfg = Some e \<Longrightarrow> i = i' \<and> j = j'"
    and "\<And>i j e. endname i j cfg = Some e \<Longrightarrow> ends (net cfg) e \<noteq> None"
    and "\<And>i j e. endname i j cfg = Some e \<Longrightarrow> connections (net cfg) e = Some (Some j)"
    and "\<And>e. zget False (enabled (net cfg)) e \<longleftrightarrow> (\<exists>i j. endname i j cfg = Some e \<and> connected cfg ! i \<and> connected cfg ! j)"
    and "\<And>i. i < cfg_n cfg \<Longrightarrow> connected cfg ! i \<Longrightarrow> endnames cfg ! i \<noteq> None"
  shows "links cfg"
  unfolding links_def using assms by blast

lemma objectsD:
  assumes "objects cfg" and "i < cfg_n cfg"
  shows "zget None (servers (net cfg)) i = rafts cfg ! i"
    "rafts cfg ! i = Some p \<Longrightarrow> saved cfg ! i = Shared p" "rafts cfg ! i = Some p \<Longrightarrow> heap cfg p \<noteq> None"
    "rafts cfg ! i = Some p \<Longrightarrow> objs (net cfg) p \<noteq> None" "saved cfg ! i = Shared p \<Longrightarrow> rafts cfg ! i = Some p"
    "rafts cfg ! i = Some p \<Longrightarrow> p < fresh cfg"
    "j < cfg_n cfg \<Longrightarrow> rafts cfg ! i = Some p \<Longrightarrow> rafts cfg ! j = Some p \<Longrightarrow> i = j"
proof -
  note ob = assms(1) [unfolded objects_def]
  note O1 = ob [THEN conjunct1, rule_format, OF assms(2)] and ob2 = ob [THEN conjunct2]
  note O2 = ob2 [THEN conjunct1, rule_format, OF assms(2)] and ob3 = ob2 [THEN conjunct2]
  note O3 = ob3 [THEN conjunct1, rule_format, OF assms(2)] and ob4 = ob3 [THEN conjunct2]
  note O4 = ob4 [THEN conjunct1, rule_format] and O5 = ob4 [THEN conjunct2, rule_format, OF assms(2)]
  show "zget None (servers (net cfg)) i = rafts cfg ! i" by (rule O1)
  show "saved cfg ! i = Shared p \<Longrightarrow> rafts cfg ! i = Some p" by (rule O3)
  show "j < cfg_n cfg \<Longrightarrow> rafts cfg ! i = Some p \<Longrightarrow> rafts cfg ! j = Some p \<Longrightarrow> i = j" by (rule O5) simp_all
  assume p: "rafts cfg ! i = Some p"
  show "saved cfg ! i = Shared p" "heap cfg p \<noteq> None" "objs (net cfg) p \<noteq> None" using O2 [OF p] by auto
  then show "p < fresh cfg" using O4 [of p] by (cases "p < fresh cfg") auto
qed

lemma objectsI:
  assumes "\<And>i. i < cfg_n cfg \<Longrightarrow> zget None (servers (net cfg)) i = rafts cfg ! i"
    and "\<And>i p. i < cfg_n cfg \<Longrightarrow> rafts cfg ! i = Some p \<Longrightarrow>
      saved cfg ! i = Shared p \<and> heap cfg p \<noteq> None \<and> objs (net cfg) p \<noteq> None"
    and "\<And>i p. i < cfg_n cfg \<Longrightarrow> saved cfg ! i = Shared p \<Longrightarrow> rafts cfg ! i = Some p"
    and "\<And>p. fresh cfg \<le> p \<Longrightarrow> heap cfg p = None"
    and "\<And>i j p. i < cfg_n cfg \<Longrightarrow> j < cfg_n cfg \<Longrightarrow> rafts cfg ! i = Some p \<Longrightarrow> rafts cfg ! j = Some p \<Longrightarrow> i = j"
  shows "objects cfg"
  unfolding objects_def using assms by blast

lemma objects_frame:
  "objects (cfg\<lparr>connected := c, net := set_ends b es (net cfg)\<rparr>) = objects cfg"
  by (simp add: objects_def)

lemma connect_links:
  assumes "linked cfg" and i: "i < cfg_n cfg" "endnames cfg ! i \<noteq> None"
  obtains cfg' where "connect i cfg = Some cfg'" "linked cfg'" "connected cfg' = (connected cfg)[i := True]"
    "endnames cfg' = endnames cfg" "cfg_n cfg' = cfg_n cfg" "heap cfg' = heap cfg" "rafts cfg' = rafts cfg"
    "saved cfg' = saved cfg" "fresh cfg' = fresh cfg" "ends (net cfg') = ends (net cfg)"
proof -
  have sh: "shape cfg" and lk: "links cfg" and ob: "objects cfg" using assms(1) by (simp_all add: linked_def)
  note L = shapeD [OF sh] and K = linksD [OF lk]
  let ?c = "(connected cfg)[i := True]"
  let ?T = "touching (\<lambda>j. ?c ! j) (\<lambda>j. ?c ! j) i cfg"
  let ?cfg = "cfg\<lparr>connected := ?c, net := set_ends True ?T (net cfg)\<rparr>"
  have c: "?c ! j \<longleftrightarrow> j = i \<or> connected cfg ! j" for j using i L(3) by (cases "j = i") auto
  have eq: "connect i cfg = Some ?cfg" by (rule connect_eq [OF sh i]) (use K(5) in blast)
  have T: "e \<in> set ?T \<longleftrightarrow> (\<exists>j. endname i j cfg = Some e \<and> ?c ! j) \<or> (\<exists>j. endname j i cfg = Some e \<and> ?c ! j)" for e
    by (rule touching_set [OF sh i(1)]) (use i K(5) c in auto)
  have en: "zget False (enabled (net ?cfg)) e \<longleftrightarrow> (\<exists>k j. endname k j cfg = Some e \<and> ?c ! k \<and> ?c ! j)" for e
  proof -
    have "zget False (enabled (net ?cfg)) e \<longleftrightarrow> e \<in> set ?T \<or> zget False (enabled (net cfg)) e"
      by (simp add: zget_def split: option.split)
    then show ?thesis unfolding K(4) T unfolding c by blast
  qed
  have "links ?cfg"
  proof (rule linksI)
    show "zget False (enabled (net ?cfg)) e \<longleftrightarrow>
        (\<exists>k j. endname k j ?cfg = Some e \<and> connected ?cfg ! k \<and> connected ?cfg ! j)" for e using en by simp
    show "endnames ?cfg ! j \<noteq> None" if "j < cfg_n ?cfg" "connected ?cfg ! j" for j
      using that i K(5) [of j] c [of j] by auto
  qed (use K(1-3) in auto)
  moreover have "objects ?cfg" using ob by (simp only: objects_frame)
  moreover have "shape ?cfg" using sh by (simp add: shape_def)
  ultimately show thesis using eq that by (simp add: linked_def)
qed

lemma disconnect_links:
  assumes "linked cfg" and i: "i < cfg_n cfg"
  obtains cfg' where "disconnect i cfg = Some cfg'" "linked cfg'" "connected cfg' = (connected cfg)[i := False]"
    "endnames cfg' = endnames cfg" "cfg_n cfg' = cfg_n cfg" "heap cfg' = heap cfg" "rafts cfg' = rafts cfg"
    "saved cfg' = saved cfg" "cfg_logs cfg' = cfg_logs cfg" "fresh cfg' = fresh cfg" "ends (net cfg') = ends (net cfg)"
proof -
  have sh: "shape cfg" and lk: "links cfg" and ob: "objects cfg" using assms(1) by (simp_all add: linked_def)
  note L = shapeD [OF sh] and K = linksD [OF lk]
  let ?c = "(connected cfg)[i := False]"
  let ?T = "touching (\<lambda>_. endnames cfg ! i \<noteq> None) (\<lambda>j. endnames cfg ! j \<noteq> None) i cfg"
  let ?cfg = "cfg\<lparr>connected := ?c, net := set_ends False ?T (net cfg)\<rparr>"
  have c: "?c ! j \<longleftrightarrow> j \<noteq> i \<and> connected cfg ! j" for j using i L(3) by (cases "j = i") auto
  have eq: "disconnect i cfg = Some ?cfg" by (rule disconnect_eq [OF sh i])
  have T: "e \<in> set ?T \<longleftrightarrow> (\<exists>j. endname i j cfg = Some e \<and> endnames cfg ! i \<noteq> None) \<or>
      (\<exists>j. endname j i cfg = Some e \<and> endnames cfg ! j \<noteq> None)" for e
    by (rule touching_set [OF sh i]) blast+
  have row: "endname k j cfg = Some e \<Longrightarrow> endnames cfg ! k \<noteq> None" for k j e by (auto simp: endname_Some [OF sh])
  have en: "zget False (enabled (net ?cfg)) e \<longleftrightarrow> (\<exists>k j. endname k j cfg = Some e \<and> ?c ! k \<and> ?c ! j)" for e
  proof -
    have "zget False (enabled (net ?cfg)) e \<longleftrightarrow> e \<notin> set ?T \<and> zget False (enabled (net cfg)) e"
      by (simp add: zget_def split: option.split)
    moreover have "e \<in> set ?T \<longleftrightarrow> k = i \<or> j = i" if "endname k j cfg = Some e" for k j
      unfolding T using that row K(1) [OF that] by blast
    ultimately show ?thesis unfolding K(4) c by blast
  qed
  have "links ?cfg"
  proof (rule linksI)
    show "zget False (enabled (net ?cfg)) e \<longleftrightarrow>
        (\<exists>k j. endname k j ?cfg = Some e \<and> connected ?cfg ! k \<and> connected ?cfg ! j)" for e using en by simp
    show "endnames ?cfg ! j \<noteq> None" if "j < cfg_n ?cfg" "connected ?cfg ! j" for j
      using that K(5) [of j] c [of j] by auto
  qed (use K(1-3) in auto)
  moreover have "objects ?cfg" using ob by (simp only: objects_frame)
  moreover have "shape ?cfg" using sh by (simp add: shape_def)
  ultimately show thesis using eq that by (simp add: linked_def)
qed

subsection \<open>Crash and start\<close>

text \<open>
  What a crash leaves: the server is gone from the network, and the harness holds a persister of its own
  with the Raft state the instance had written.
\<close>

definition stored :: "nat \<Rightarrow> ('c, 'a, 'b) config \<Rightarrow> 'c gobval list" where
  "stored i cfg = (case saved_get (saved cfg ! i) cfg of None \<Rightarrow> [] | Some ps \<Rightarrow> ReadRaftState ps)"

definition crashed :: "nat \<Rightarrow> ('c, 'a, 'b) config \<Rightarrow> ('c, 'a, 'b) config" where
  "crashed i cfg = cfg\<lparr>net := DeleteServer i (net cfg),
     saved := (saved cfg)[i := if saved cfg ! i = Nil_saved then Nil_saved
                               else Own (SaveRaftState MakePersister (stored i cfg))],
     heap := (case rafts cfg ! i of None \<Rightarrow> heap cfg | Some p \<Rightarrow> (heap cfg)(p := map_option Kill (heap cfg p))),
     rafts := (rafts cfg)[i := None]\<rparr>"

lemma saved_known:
  assumes "linked cfg" and "i < cfg_n cfg" and "saved cfg ! i \<noteq> Nil_saved"
  obtains ps where "saved_get (saved cfg ! i) cfg = Some ps"
proof (cases "saved cfg ! i")
  case (Shared p)
  then have "heap cfg p \<noteq> None" using assms objectsD(3,5) [of cfg i p] by (auto simp: linked_def)
  then show thesis using Shared that by (auto simp: saved_get_def)
qed (use assms(3) that in \<open>simp_all add: saved_get_def\<close>)

lemma saved_get_net [simp]:
  "saved_get sv (cfg\<lparr>net := rn\<rparr>) = saved_get sv cfg" "saved_get sv (cfg\<lparr>connected := c\<rparr>) = saved_get sv cfg"
  "saved_get (Own ps) cfg = Some ps"
  by (simp_all add: saved_get_def split: saved.split)

lemma crash1_eq:
  assumes lk: "linked cfg" and i: "i < cfg_n cfg"
  shows "crash1 i cfg = map_option (crashed i) (disconnect i cfg)"
proof -
  obtain d where d: "disconnect i cfg = Some d" "linked d" "cfg_n d = cfg_n cfg"
    using disconnect_links [OF assms] by metis
  have i': "i < cfg_n d" and sh: "shape d" using i d by (simp_all add: linked_def)
  note L = shapeD [OF sh]
  have R: "rafts d ! i = None \<Longrightarrow> (rafts d)[i := None] = rafts d" by (metis list_update_id)
  have "crash1 i cfg = Some (crashed i d)"
  proof (cases "saved d ! i = Nil_saved")
    case True
    then have "rafts d ! i = None" using objectsD(2) [of d i] d(2) i' by (cases "rafts d ! i") (auto simp: linked_def)
    moreover have "(saved d)[i := Nil_saved] = saved d" using True by (metis list_update_id)
    ultimately show ?thesis using True i' L R d(1)
      by (simp add: crash1_def copy_saved_def crashed_def Let_def)
  next
    case False
    obtain ps where ps: "saved_get (saved d ! i) d = Some ps" using saved_known [OF d(2) i' False] .
    then show ?thesis using False i' L R d(1)
      by (cases "rafts d ! i")
        (simp_all add: crash1_def copy_saved_def crashed_def stored_def kill_raft_def Let_def Persister_defs)
  qed
  then show ?thesis using d(1) by simp
qed

lemma objects_fresh: "objects cfg \<Longrightarrow> fresh cfg \<le> p \<Longrightarrow> heap cfg p = None"
  unfolding objects_def by blast

lemma crashed_simps [simp]:
  "connected (crashed i cfg) = connected cfg" "endnames (crashed i cfg) = endnames cfg"
  "cfg_n (crashed i cfg) = cfg_n cfg" "rafts (crashed i cfg) = (rafts cfg)[i := None]"
  "cfg_logs (crashed i cfg) = cfg_logs cfg" "applyErr (crashed i cfg) = applyErr cfg"
  "fresh (crashed i cfg) = fresh cfg" "net (crashed i cfg) = DeleteServer i (net cfg)"
  "endname k j (crashed i cfg) = endname k j cfg"
  "heap (crashed i cfg) p = None \<longleftrightarrow> heap cfg p = None"
  "saved (crashed i cfg) = (saved cfg)[i := if saved cfg ! i = Nil_saved then Nil_saved
                               else Own (SaveRaftState MakePersister (stored i cfg))]"
  by (simp_all add: crashed_def endname_def split: option.split)

lemma DeleteServer_simps [simp]:
  "ends (DeleteServer i rn) = ends rn" "enabled (DeleteServer i rn) = enabled rn"
  "connections (DeleteServer i rn) = connections rn" "objs (DeleteServer i rn) = objs rn"
  "servers (DeleteServer i rn) = (servers rn)(i \<mapsto> None)"
  by (simp_all add: DeleteServer_def)

lemma crashed_linked:
  assumes "linked cfg" and i: "i < cfg_n cfg"
  shows "linked (crashed i cfg)"
proof -
  have sh: "shape cfg" and lk: "links cfg" and ob: "objects cfg" using assms(1) by (simp_all add: linked_def)
  note L = shapeD [OF sh] and K = linksD [OF lk] and O = objectsD [OF ob]
  have s: "shape (crashed i cfg)" using sh by (simp add: shape_def)
  have l: "links (crashed i cfg)" using lk by (simp add: links_def)
  have r: "rafts (crashed i cfg) ! j = (if j = i then None else rafts cfg ! j)" if "j < cfg_n cfg" for j
    using i L(1) by simp
  have "objects (crashed i cfg)"
  proof (rule objectsI)
    fix j assume j: "j < cfg_n (crashed i cfg)"
    then have j': "j < cfg_n cfg" by simp
    show "zget None (servers (net (crashed i cfg))) j = rafts (crashed i cfg) ! j" using O(1) [OF j'] r [OF j'] by simp
    show "rafts (crashed i cfg) ! j = Some p" if "saved (crashed i cfg) ! j = Shared p" for p
      using O(5) [OF j', of p] that i L(4) r [OF j'] by (auto simp: nth_list_update split: if_splits)
    show "saved (crashed i cfg) ! j = Shared p \<and> heap (crashed i cfg) p \<noteq> None \<and> objs (net (crashed i cfg)) p \<noteq> None"
      if "rafts (crashed i cfg) ! j = Some p" for p
      using O(2-4) [OF j', of p] that r [OF j'] by (simp split: if_splits)
  next
    show "heap (crashed i cfg) p = None" if "fresh (crashed i cfg) \<le> p" for p
      using objects_fresh [OF ob, of p] that by simp
    show "j = k" if "j < cfg_n (crashed i cfg)" "k < cfg_n (crashed i cfg)" "rafts (crashed i cfg) ! j = Some p"
      "rafts (crashed i cfg) ! k = Some p" for j k p
      using O(7) [of j k p] that r [of j] r [of k] by (simp split: if_splits)
  qed
  then show ?thesis using s l by (simp add: linked_def)
qed

text \<open>The new ends of a server that starts: their names are new, they lead to the other servers and are off.\<close>

lemma make_ends:
  assumes "for_each (make_end i) js (cfg\<lparr>net := rn\<rparr>) = Some cfg'" and "\<And>j. j \<in> set js \<Longrightarrow> endname i j cfg = Some (nm j)"
  obtains rn' where "cfg' = cfg\<lparr>net := rn'\<rparr>" "distinct (map nm js)" "\<And>j. j \<in> set js \<Longrightarrow> ends rn (nm j) = None"
    "\<And>e. ends rn' e \<noteq> None \<longleftrightarrow> e \<in> nm ` set js \<or> ends rn e \<noteq> None"
    "\<And>e. enabled rn' e = (if e \<in> nm ` set js then Some False else enabled rn e)"
    "\<And>e. e \<notin> nm ` set js \<Longrightarrow> connections rn' e = connections rn e"
    "\<And>j. j \<in> set js \<Longrightarrow> connections rn' (nm j) = Some (Some j)"
    "servers rn' = servers rn" "objs rn' = objs rn"
  using assms
proof (induction js arbitrary: rn thesis)
  case (Cons j js)
  let ?rn = "Connect (nm j) j (rn\<lparr>ends := (ends rn)(nm j \<mapsto> nm j), enabled := (enabled rn)(nm j \<mapsto> False),
                    connections := (connections rn)(nm j \<mapsto> None)\<rparr>)"
  have new: "ends rn (nm j) = None" and rest: "for_each (make_end i) js (cfg\<lparr>net := ?rn\<rparr>) = Some cfg'"
    using Cons.prems(2,3) by (auto simp: make_end_def [of i j] MakeEnd_def split: if_splits)
  obtain rn' where R: "cfg' = cfg\<lparr>net := rn'\<rparr>" "distinct (map nm js)" "\<And>j. j \<in> set js \<Longrightarrow> ends ?rn (nm j) = None"
    "\<And>e. ends rn' e \<noteq> None \<longleftrightarrow> e \<in> nm ` set js \<or> ends ?rn e \<noteq> None"
    "\<And>e. enabled rn' e = (if e \<in> nm ` set js then Some False else enabled ?rn e)"
    "\<And>e. e \<notin> nm ` set js \<Longrightarrow> connections rn' e = connections ?rn e"
    "\<And>j. j \<in> set js \<Longrightarrow> connections rn' (nm j) = Some (Some j)"
    "servers rn' = servers ?rn" "objs rn' = objs ?rn"
    by (rule Cons.IH [OF _ rest]) (use Cons.prems(3) in auto)
  have nj: "nm j \<notin> nm ` set js"
  proof
    assume "nm j \<in> nm ` set js"
    then obtain k where "k \<in> set js" "nm k = nm j" by auto
    then show False using R(3) [of k] by (simp add: Connect_def)
  qed
  show ?case
  proof (rule Cons.prems(1) [OF R(1)])
    show "distinct (map nm (j # js))" using R(2) nj by simp
    show "ends rn (nm k) = None" if "k \<in> set (j # js)" for k
      using R(3) [of k] new that by (auto simp: Connect_def split: if_splits)
    show "ends rn' e \<noteq> None \<longleftrightarrow> e \<in> nm ` set (j # js) \<or> ends rn e \<noteq> None" for e
      using R(4) [of e] by (auto simp: Connect_def)
    show "enabled rn' e = (if e \<in> nm ` set (j # js) then Some False else enabled rn e)" for e
      using R(5) [of e] by (auto simp: Connect_def)
    show "connections rn' e = connections rn e" if "e \<notin> nm ` set (j # js)" for e
      using R(6) [of e] that by (auto simp: Connect_def)
    show "connections rn' (nm k) = Some (Some k)" if "k \<in> set (j # js)" for k
      using R(6) [OF nj] R(7) [of k] that by (auto simp: Connect_def)
  qed (use R(8,9) in \<open>simp_all add: Connect_def\<close>)
next
  case Nil
  show ?case by (rule Nil.prems(1) [of rn]) (use Nil.prems(2) in simp_all)
qed

lemma make_ends_total:
  assumes "distinct (map nm js)" and "\<And>j. j \<in> set js \<Longrightarrow> endname i j cfg = Some (nm j) \<and> ends rn (nm j) = None"
  shows "for_each (make_end i) js (cfg\<lparr>net := rn\<rparr>) \<noteq> None"
  using assms
proof (induction js arbitrary: rn)
  case (Cons j js)
  let ?rn = "Connect (nm j) j (rn\<lparr>ends := (ends rn)(nm j \<mapsto> nm j), enabled := (enabled rn)(nm j \<mapsto> False),
                    connections := (connections rn)(nm j \<mapsto> None)\<rparr>)"
  have "ends ?rn (nm k) = None" if "k \<in> set js" for k
  proof -
    have "nm k \<noteq> nm j" using Cons.prems(1) that by (metis distinct.simps(2) image_eqI list.set_map list.simps(9))
    then show ?thesis using Cons.prems(2) [of k] that by (simp add: Connect_def)
  qed
  then have "for_each (make_end i) js (cfg\<lparr>net := ?rn\<rparr>) \<noteq> None" using Cons.prems by (intro Cons.IH) auto
  then show ?case using Cons.prems(2) [of j] by (simp add: make_end_def [of i j] MakeEnd_def)
qed simp

text \<open>The state after \<open>start1\<close>, from the state \<open>c\<close> after the crash and the network \<open>rn\<close> with the new ends.\<close>

definition started ::
  "('a, 'b, nat) Method list \<Rightarrow> (nat \<Rightarrow> string) \<Rightarrow> int \<Rightarrow> int \<Rightarrow> int \<Rightarrow> nat \<Rightarrow> (string, nat, 'a, 'b, nat) Network \<Rightarrow>
   ('c, 'a, 'b) config \<Rightarrow> ('c, 'a, 'b) config" where
  "started ms names now rnd1 rnd2 i rn c =
     c\<lparr>endnames := (endnames c)[i := Some (map names [0..<cfg_n c])],
       heap := (heap c)(fresh c \<mapsto> Make (cfg_n c) (int i) (SaveRaftState MakePersister (stored i c)) now rnd1 rnd2),
       saved := (saved c)[i := Shared (fresh c)], rafts := (rafts c)[i := Some (fresh c)], fresh := fresh c + 1,
       net := AddServer i (fresh c) (rn\<lparr>objs := (objs rn)(fresh c \<mapsto> AddService (MakeService ''Raft'' (fresh c) ms) MakeServer)\<rparr>)\<rparr>"

lemma crashed_stored:
  assumes "linked d" and "i < cfg_n d"
  shows "stored i (crashed i d) = stored i d"
  using assms shapeD(4) [of d]
  by (auto simp: linked_def stored_def saved_get_def Persister_defs)

text \<open>The persister that \<open>start1\<close> makes after a crash.\<close>

lemma crashed_persister:
  assumes "i < length (saved d)"
  shows "(if saved (crashed i d) ! i = Nil_saved then Some MakePersister
      else map_option Copy (saved_get (saved (crashed i d) ! i) cfg)) = Some (SaveRaftState MakePersister (stored i (crashed i d)))"
  using assms by (simp add: stored_def) (simp add: saved_get_def Persister_defs)

lemma start1_eq:
  assumes lk: "linked cfg" and i: "i < cfg_n cfg" and d: "disconnect i cfg = Some d"
  shows "start1 ms names now rnd1 rnd2 i cfg =
    map_option (\<lambda>c. started ms names now rnd1 rnd2 i (net c) (crashed i d))
      (for_each (make_end i) [0..<cfg_n d]
         ((crashed i d)\<lparr>endnames := (endnames d)[i := Some (map names [0..<cfg_n d])]\<rparr>))" (is "_ = map_option _ ?loop")
proof -
  let ?c = "crashed i d" and ?rows = "(endnames d)[i := Some (map names [0..<cfg_n d])]"
  have D: "linked d" "cfg_n d = cfg_n cfg" using disconnect_links [OF lk i] d by (metis option.inject)+
  then have i': "i < cfg_n d" and lc: "linked ?c" using i crashed_linked [OF D(1)] by auto
  note L = shapeD [of ?c] and L' = shapeD [of d]
  have len: "i < length (saved ?c)" "i < length (rafts ?c)" "i < length (endnames d)" "i < length (saved d)"
    using L L' i' lc D(1) by (auto simp: linked_def)
  have E: "endname i j (?c\<lparr>endnames := ?rows\<rparr>) = Some (names j)" if "j \<in> set [0..<cfg_n d]" for j
    using that len(3) by (simp add: endname_def)
  show ?thesis
  proof (cases ?loop)
    case None
    then show ?thesis using crash1_eq [OF lk i] d len by (simp add: start1_def)
  next
    case (Some c2)
    have "(?c\<lparr>endnames := ?rows\<rparr>)\<lparr>net := net (?c\<lparr>endnames := ?rows\<rparr>)\<rparr> = ?c\<lparr>endnames := ?rows\<rparr>" by (rule net_same)
    then have "for_each (make_end i) [0..<cfg_n d] ((?c\<lparr>endnames := ?rows\<rparr>)\<lparr>net := net (?c\<lparr>endnames := ?rows\<rparr>)\<rparr>) = Some c2"
      using Some by (simp only:)
    then obtain rn' where rn': "c2 = ?c\<lparr>endnames := ?rows, net := rn'\<rparr>"
      by (rule make_ends [OF _ E]) simp_all
    have "crash1 i cfg = Some ?c" using crash1_eq [OF lk i] d by simp
    then have "start1 ms names now rnd1 rnd2 i cfg =
        do { ps \<leftarrow> (if saved ?c ! i = Nil_saved then Some MakePersister else map_option Copy (saved_get (saved ?c ! i) c2));
             Some (c2\<lparr>heap := (heap c2)(fresh c2 \<mapsto> Make (cfg_n c2) (int i) ps now rnd1 rnd2),
                     saved := (saved c2)[i := Shared (fresh c2)], rafts := (rafts c2)[i := Some (fresh c2)], fresh := fresh c2 + 1,
                     net := AddServer i (fresh c2) ((net c2)\<lparr>objs := (objs (net c2))(fresh c2 \<mapsto> AddService (MakeService ''Raft'' (fresh c2) ms) MakeServer)\<rparr>)\<rparr>) }"
      using Some len rn' by (simp add: start1_def Let_def del: crashed_simps(11))
    also have "\<dots> = Some (started ms names now rnd1 rnd2 i (net c2) ?c)"
      unfolding crashed_persister [OF len(4)] rn' by (simp add: started_def)
    finally show ?thesis using Some by simp
  qed
qed

lemma AddServer_simps [simp]:
  "ends (AddServer i p rn) = ends rn" "enabled (AddServer i p rn) = enabled rn"
  "connections (AddServer i p rn) = connections rn" "objs (AddServer i p rn) = objs rn"
  "servers (AddServer i p rn) = (servers rn)(i \<mapsto> Some p)"
  by (simp_all add: AddServer_def)

text \<open>
  The new instance is linked: \<open>c\<close> is the state after the crash, \<open>names\<close> the new names and \<open>rn\<close> the network
  with the new ends.
\<close>

lemma started_linked:
  assumes lc: "linked c" and i: "i < cfg_n c" "\<not> connected c ! i"
    and nm: "inj_on names {..<cfg_n c}" "\<And>j. j < cfg_n c \<Longrightarrow> ends (net c) (names j) = None"
    and rn: "\<And>e. ends rn e \<noteq> None \<longleftrightarrow> e \<in> names ` {..<cfg_n c} \<or> ends (net c) e \<noteq> None"
      "\<And>e. enabled rn e = (if e \<in> names ` {..<cfg_n c} then Some False else enabled (net c) e)"
      "\<And>e. e \<notin> names ` {..<cfg_n c} \<Longrightarrow> connections rn e = connections (net c) e"
      "\<And>j. j < cfg_n c \<Longrightarrow> connections rn (names j) = Some (Some j)"
      "servers rn = servers (net c)" "objs rn = objs (net c)"
  shows "linked (started ms names now rnd1 rnd2 i rn c)" (is "linked ?s")
proof -
  have sh: "shape c" and lk: "links c" and ob: "objects c" using lc by (simp_all add: linked_def)
  note L = shapeD [OF sh] and K = linksD [OF lk] and O = objectsD [OF ob]
  have S: "cfg_n ?s = cfg_n c" "connected ?s = connected c" "fresh ?s = fresh c + 1"
    "endnames ?s = (endnames c)[i := Some (map names [0..<cfg_n c])]"
    "ends (net ?s) = ends rn" "connections (net ?s) = connections rn" by (simp_all add: started_def)
  have shs: "shape ?s" using sh i(1) L(5) by (simp add: shape_def started_def nth_list_update)
  have en: "endname k j ?s = (if k = i then if j < cfg_n c then Some (names j) else None else endname k j c)" for k j
    using i(1) L(5) by (auto simp: endname_def S(4) slot_def)
  have old: "e \<notin> names ` {..<cfg_n c}" if "endname k j c = Some e" for k j e
    using K(2) [OF that] nm(2) by auto
  have "links ?s"
  proof (rule linksI)
    show "k = k' \<and> j = j'" if "endname k j ?s = Some e" "endname k' j' ?s = Some e" for k j e k' j'
      using that K(1) [of k j e k' j'] old [of k j e] old [of k' j' e] nm(1)
      by (auto simp: en inj_on_def split: if_splits)
    show "ends (net ?s) e \<noteq> None" "connections (net ?s) e = Some (Some j)" if "endname k j ?s = Some e" for k j e
      using that rn(1) [of e] rn(3) [of e] rn(4) [of j] K(2,3) [of k j e] old [of k j e]
      by (auto simp: en S(5,6) split: if_splits)
    show "endnames ?s ! k \<noteq> None" if "k < cfg_n ?s" "connected ?s ! k" for k
      using that K(5) [of k] L(5) by (cases "k = i") (simp_all add: S)
    show "zget False (enabled (net ?s)) e \<longleftrightarrow> (\<exists>k j. endname k j ?s = Some e \<and> connected ?s ! k \<and> connected ?s ! j)" for e
    proof -
      have "zget False (enabled (net ?s)) e \<longleftrightarrow> e \<notin> names ` {..<cfg_n c} \<and> zget False (enabled (net c)) e"
        by (simp add: started_def rn(2) zget_def)
      also have "\<dots> \<longleftrightarrow> (\<exists>k j. endname k j c = Some e \<and> connected c ! k \<and> connected c ! j)"
        unfolding K(4) using old by blast
      also have "\<dots> \<longleftrightarrow> (\<exists>k j. endname k j ?s = Some e \<and> connected ?s ! k \<and> connected ?s ! j)"
        unfolding S(2) en using i(2) by (metis (full_types))
      finally show ?thesis .
    qed
  qed
  moreover have "objects ?s"
  proof (rule objectsI)
    fix k assume "k < cfg_n ?s"
    then have k: "k < cfg_n c" by (simp add: S)
    show "zget None (servers (net ?s)) k = rafts ?s ! k" using O(1) [OF k] i(1) L(1) rn(5) by (simp add: started_def nth_list_update)
    show "saved ?s ! k = Shared p \<and> heap ?s p \<noteq> None \<and> objs (net ?s) p \<noteq> None" if "rafts ?s ! k = Some p" for p
      using O(2-4) [OF k, of p] that i(1) L rn(6) by (auto simp: started_def nth_list_update split: if_splits)
    show "rafts ?s ! k = Some p" if "saved ?s ! k = Shared p" for p
      using O(5) [OF k, of p] that i(1) L by (auto simp: started_def nth_list_update split: if_splits)
    show "k = j" if "j < cfg_n ?s" "rafts ?s ! k = Some p" "rafts ?s ! j = Some p" for j p
      using O(6) [of k p] O(6) [of j p] O(7) [of k j p] k that i(1) L
      by (auto simp: started_def nth_list_update S split: if_splits)
  next
    show "heap ?s p = None" if "fresh ?s \<le> p" for p
      using objects_fresh [OF ob, of p] that by (simp add: started_def)
  qed
  ultimately show ?thesis using shs by (simp add: linked_def)
qed

lemma disconnect_off:
  assumes "linked cfg" and "i < cfg_n cfg" and "disconnect i cfg = Some d"
  shows "linked d" "cfg_n d = cfg_n cfg" "\<not> connected d ! i" "endnames d = endnames cfg" "connected d = (connected cfg)[i := False]"
    "rafts d = rafts cfg" "saved d = saved cfg" "heap d = heap cfg" "fresh d = fresh cfg" "ends (net d) = ends (net cfg)"
    "cfg_logs d = cfg_logs cfg"
proof -
  obtain d' where "disconnect i cfg = Some d'" "linked d'" "connected d' = (connected cfg)[i := False]"
    "endnames d' = endnames cfg" "cfg_n d' = cfg_n cfg" "heap d' = heap cfg" "rafts d' = rafts cfg"
    "saved d' = saved cfg" "cfg_logs d' = cfg_logs cfg" "fresh d' = fresh cfg" "ends (net d') = ends (net cfg)"
    by (rule disconnect_links [OF assms(1,2)])
  then show "linked d" "cfg_n d = cfg_n cfg" "\<not> connected d ! i" "endnames d = endnames cfg" "connected d = (connected cfg)[i := False]"
    "rafts d = rafts cfg" "saved d = saved cfg" "heap d = heap cfg" "fresh d = fresh cfg" "ends (net d) = ends (net cfg)"
    "cfg_logs d = cfg_logs cfg"
    using assms shapeD(3) [of cfg] by (simp_all add: linked_def)
qed

lemma start1_linked:
  assumes lk: "linked cfg" and i: "i < cfg_n cfg" and st: "start1 ms names now rnd1 rnd2 i cfg = Some cfg'"
  obtains d rn where "disconnect i cfg = Some d" "cfg' = started ms names now rnd1 rnd2 i rn (crashed i d)" "linked cfg'"
    "inj_on names {..<cfg_n cfg}" "\<And>j. j < cfg_n cfg \<Longrightarrow> ends (net cfg) (names j) = None"
    "\<And>e. ends rn e \<noteq> None \<longleftrightarrow> e \<in> names ` {..<cfg_n cfg} \<or> ends (net cfg) e \<noteq> None"
proof -
  obtain d where d: "disconnect i cfg = Some d" using disconnect_links [OF lk i] by metis
  note D = disconnect_off [OF lk i d]
  let ?c = "(crashed i d)\<lparr>endnames := (endnames d)[i := Some (map names [0..<cfg_n d])]\<rparr>"
  obtain c2 where c2: "for_each (make_end i) [0..<cfg_n d] (?c\<lparr>net := net ?c\<rparr>) = Some c2"
    "cfg' = started ms names now rnd1 rnd2 i (net c2) (crashed i d)"
    using st start1_eq [OF lk i d] by (auto simp only: net_same map_option_eq_Some)
  have E: "endname i j ?c = Some (names j)" if "j \<in> set [0..<cfg_n d]" for j
    using that i D(2) shapeD(5) [of d] D(1) by (simp add: endname_def linked_def)
  obtain rn where rn: "c2 = ?c\<lparr>net := rn\<rparr>" "distinct (map names [0..<cfg_n d])"
    "\<And>j. j \<in> set [0..<cfg_n d] \<Longrightarrow> ends (net ?c) (names j) = None"
    "\<And>e. ends rn e \<noteq> None \<longleftrightarrow> e \<in> names ` set [0..<cfg_n d] \<or> ends (net ?c) e \<noteq> None"
    "\<And>e. enabled rn e = (if e \<in> names ` set [0..<cfg_n d] then Some False else enabled (net ?c) e)"
    "\<And>e. e \<notin> names ` set [0..<cfg_n d] \<Longrightarrow> connections rn e = connections (net ?c) e"
    "\<And>j. j \<in> set [0..<cfg_n d] \<Longrightarrow> connections rn (names j) = Some (Some j)"
    "servers rn = servers (net ?c)" "objs rn = objs (net ?c)"
    by (rule make_ends [OF c2(1) E], assumption, rule that) blast+
  have inj: "inj_on names {..<cfg_n d}" using rn(2) by (simp add: distinct_map lessThan_atLeast0)
  have "linked (started ms names now rnd1 rnd2 i rn (crashed i d))"
    by (rule started_linked) (use crashed_linked [OF D(1)] D(2,3) i inj rn(3-9) in \<open>simp_all add: lessThan_atLeast0\<close>)
  then show thesis
    using that [of d rn] d c2(2) rn(1,3,4) inj D(2,10) by (simp add: lessThan_atLeast0)
qed

lemma connect_started:
  fixes cfg :: "('c, 'a, 'b) config"
  assumes "linked cfg" and "connect i cfg = Some cfg'"
  shows "i < cfg_n cfg \<and> endnames cfg ! i \<noteq> None"
proof -
  note L = shapeD [of cfg] and sh = assms(1) [unfolded linked_def, THEN conjunct1]
  have i: "i < cfg_n cfg" using assms L(3) by (auto simp: connect_def linked_def go_panic split: bind_splits)
  let ?c = "(connected cfg)[i := True]"
  let ?I = "\<lambda>t :: ('c, 'a, 'b) config. endnames t = endnames cfg \<and> connected t = ?c"
  obtain cfg1 where f: "for_each (\<lambda>j. connect_if j i j) [0..<cfg_n cfg] (cfg\<lparr>connected := ?c\<rparr>) = Some cfg1"
    using assms(2) i L(3) [OF sh] by (auto simp: connect_def split: bind_splits)
  have keeps: "?I t'" if "?I t" "connect_if j i j t = Some t'" for j t t'
    using that by (auto simp: connect_if_def enable_end_def split: bind_splits if_splits)
  have "\<exists>t t'. ?I t \<and> connect_if i i i t = Some t'"
    proof (rule for_each_reached [OF f, where I = ?I and x = i])
    show "?I t'" if "?I t" "connect_if x i x t = Some t'" for x t t' using keeps [OF that] .
  qed (use i in simp_all)
  then obtain t t' where t: "?I t" "connect_if i i i t = Some t'" by blast
  then have "endname i i t \<noteq> None" using i L(3) [OF sh] by (auto simp: connect_if_def enable_end_def split: bind_splits)
  then have "endnames cfg ! i \<noteq> None" using t(1) i L(5) [OF sh] by (auto simp: endname_def split: bind_splits)
  then show ?thesis using i by simp
qed

subsection \<open>Runs of the harness\<close>

text \<open>
  The steps a test makes with the harness, and what happens between them: the peers work, which may change
  any peer in the heap, and the readers of the apply channels record entries.
\<close>

inductive cfg_step :: "('a, 'b, nat) Method list \<Rightarrow> ('c, 'a, 'b) config \<Rightarrow> ('c, 'a, 'b) config \<Rightarrow> bool" for ms where
  connect: "connect i cfg = Some cfg' \<Longrightarrow> cfg_step ms cfg cfg'"
| disconnect: "i < cfg_n cfg \<Longrightarrow> disconnect i cfg = Some cfg' \<Longrightarrow> cfg_step ms cfg cfg'"
| crash: "i < cfg_n cfg \<Longrightarrow> crash1 i cfg = Some cfg' \<Longrightarrow> cfg_step ms cfg cfg'"
| start: "i < cfg_n cfg \<Longrightarrow> start1 ms names now rnd1 rnd2 i cfg = Some cfg' \<Longrightarrow> cfg_step ms cfg cfg'"
| unreliable: "cfg_step ms cfg (setunreliable unrel cfg)"
| delays: "cfg_step ms cfg (cfg\<lparr>net := LongDelays b (net cfg)\<rparr>)"
| entries: "length ls = length (cfg_logs cfg) \<Longrightarrow> cfg_step ms cfg (cfg\<lparr>cfg_logs := ls\<rparr>)"
| reordering: "cfg_step ms cfg (setlongreordering longrel cfg)"
| work: "heap cfg p = Some rf \<Longrightarrow> cfg_step ms cfg (cfg\<lparr>heap := (heap cfg)(p \<mapsto> rf')\<rparr>)"

inductive_cases cfg_stepE: "cfg_step ms cfg cfg'"

lemma cfg_n_flags [simp]:
  "cfg_n (setunreliable unrel cfg) = cfg_n cfg" "cfg_n (setlongreordering longrel cfg) = cfg_n cfg"
  by (simp_all add: setunreliable_def setlongreordering_def)

lemma linked_flags [simp]:
  "linked (setunreliable unrel cfg) = linked cfg" "linked (setlongreordering longrel cfg) = linked cfg"
  "linked (cfg\<lparr>net := LongDelays b (net cfg)\<rparr>) = linked cfg"
  "length ls = length (cfg_logs cfg) \<Longrightarrow> linked (cfg\<lparr>cfg_logs := ls\<rparr>) = linked cfg"
  by (simp_all add: linked_def shape_def links_def objects_def endname_def setunreliable_def setlongreordering_def
      Reliable_def LongReordering_def LongDelays_def)

lemma cfg_step_linked:
  assumes "cfg_step ms cfg cfg'" and lk: "linked cfg"
  shows "linked cfg' \<and> cfg_n cfg' = cfg_n cfg"
  using assms(1)
proof (cases rule: cfg_step.cases)
  case (connect i)
  then show ?thesis using connect_links [OF lk, of i] connect_started [OF lk] by (metis option.inject)
next
  case (disconnect i)
  then show ?thesis using disconnect_off [OF lk, of i cfg'] by simp
next
  case (crash i)
  then obtain d where d: "disconnect i cfg = Some d" "cfg' = crashed i d" using crash1_eq [OF lk] by auto
  then show ?thesis using disconnect_off [OF lk crash(1) d(1)] crashed_linked [of d i] crash(1) by simp
next
  case (start i names now rnd1 rnd2)
  then obtain d rn where "disconnect i cfg = Some d" "cfg' = started ms names now rnd1 rnd2 i rn (crashed i d)" "linked cfg'"
    using start1_linked [OF lk] by metis
  then show ?thesis using disconnect_off(2) [OF lk start(1)] by (simp add: started_def)
next
  case (work p rf rf')
  let ?h = "(heap cfg)(p \<mapsto> rf')"
  have sh: "shape cfg" "links cfg" and ob: "objects cfg" using lk by (simp_all add: linked_def)
  note O = objectsD [OF ob]
  have "shape (cfg\<lparr>heap := ?h\<rparr>)" "links (cfg\<lparr>heap := ?h\<rparr>)"
    using sh by (simp_all add: shape_def links_def endname_def)
  moreover have "objects (cfg\<lparr>heap := ?h\<rparr>)"
  proof (rule objectsI)
    show "heap (cfg\<lparr>heap := ?h\<rparr>) q = None" if "fresh (cfg\<lparr>heap := ?h\<rparr>) \<le> q" for q
      using objects_fresh [OF ob, of q] that work(2) by auto
    show "saved (cfg\<lparr>heap := ?h\<rparr>) ! k = Shared q \<and> heap (cfg\<lparr>heap := ?h\<rparr>) q \<noteq> None \<and> objs (net (cfg\<lparr>heap := ?h\<rparr>)) q \<noteq> None"
      if "k < cfg_n (cfg\<lparr>heap := ?h\<rparr>)" "rafts (cfg\<lparr>heap := ?h\<rparr>) ! k = Some q" for k q
      using O(2-4) [of k q] that by simp
    show "k = j" if "k < cfg_n (cfg\<lparr>heap := ?h\<rparr>)" "j < cfg_n (cfg\<lparr>heap := ?h\<rparr>)"
      "rafts (cfg\<lparr>heap := ?h\<rparr>) ! k = Some q" "rafts (cfg\<lparr>heap := ?h\<rparr>) ! j = Some q" for k j q
      using O(7) [of k j q] that by simp
  qed (use O(1,5) in simp_all)
  ultimately show ?thesis using work by (simp add: linked_def)
qed (use lk in simp_all)

lemma config0_linked: "linked (config0 n)"
  by (auto simp: linked_def shape_def links_def objects_def config0_def endname_def MakeNetwork_def go_panic split: bind_splits)

text \<open>A run: the harness before any server is started, then any steps.\<close>

definition cfg_reach :: "('a, 'b, nat) Method list \<Rightarrow> nat \<Rightarrow> ('c, 'a, 'b) config \<Rightarrow> bool" where
  "cfg_reach ms n cfg \<longleftrightarrow> (cfg_step ms)\<^sup>*\<^sup>* (config0 n) cfg"

lemma cfg_reach_linked: "cfg_reach ms n cfg \<Longrightarrow> linked cfg \<and> cfg_n cfg = n"
  unfolding cfg_reach_def
proof (induction rule: rtranclp_induct)
  case base
  then show ?case using config0_linked by (simp add: config0_def)
qed (use cfg_step_linked in metis)

text \<open>
  C25: the shape of the harness. In every run all tables have one slot per server, the names of a started
  server lead to all servers, and no two ends share a name.
\<close>
theorem harness_shape:
  assumes "cfg_reach ms n cfg"
  shows "shape cfg \<and> cfg_n cfg = n \<and>
    (\<forall>i < n. \<forall>j < n. endnames cfg ! i \<noteq> None \<longrightarrow>
       (\<exists>e. endname i j cfg = Some e \<and> connections (net cfg) e = Some (Some j) \<and>
          (\<forall>k l. endname k l cfg = Some e \<longrightarrow> k = i \<and> l = j)))"
proof -
  have *: "shape cfg" "links cfg" "cfg_n cfg = n" using cfg_reach_linked [OF assms] by (simp_all add: linked_def)
  show ?thesis using * endname_row [OF *(1)] linksD(1,3) [OF *(2)] by metis
qed

text \<open>
  C24: isolation. The network passes a request on exactly when its end belongs to the current instance of a
  connected server \<open>i\<close> and leads to a connected server \<open>j\<close> that runs, and (on an unreliable network) it is
  not dropped; it then reaches the current instance of \<open>j\<close>. So an instance that has crashed, or a server
  that is disconnected, neither sends nor receives.
\<close>
theorem harness_isolates:
  assumes "cfg_reach ms n cfg"
  shows "admit r1 e (net cfg) = Admitted j p (reliable (net cfg)) (longReordering (net cfg)) \<longleftrightarrow>
    (\<exists>i. endname i j cfg = Some e \<and> connected cfg ! i \<and> connected cfg ! j \<and> rafts cfg ! j = Some p) \<and>
    \<not> (\<not> reliable (net cfg) \<and> r1 < 100)"
proof -
  have lk: "shape cfg" "links cfg" "objects cfg" using cfg_reach_linked [OF assms] by (simp_all add: linked_def)
  note K = linksD [OF lk(2)] and O = objectsD(1) [OF lk(3)]
  have "zget False (enabled (net cfg)) e \<and> zget None (connections (net cfg)) e = Some j \<and> zget None (servers (net cfg)) j = Some p \<longleftrightarrow>
    (\<exists>i. endname i j cfg = Some e \<and> connected cfg ! i \<and> connected cfg ! j \<and> rafts cfg ! j = Some p)" (is "?l \<longleftrightarrow> ?r")
  proof
    assume l: ?l
    then obtain i k where k: "endname i k cfg = Some e" "connected cfg ! i" "connected cfg ! k" unfolding K(4) by blast
    then have "k = j" using K(3) [OF k(1)] l by (simp add: zget_def)
    then show ?r using k l O [of j] endname_Some [OF lk(1), of i k e] by auto
  next
    assume ?r
    then obtain i where i: "endname i j cfg = Some e" "connected cfg ! i" "connected cfg ! j" "rafts cfg ! j = Some p" by blast
    then show ?l using K(3) [OF i(1)] O [of j] endname_Some [OF lk(1), of i j e] unfolding K(4) by (auto simp: zget_def)
  qed
  then show ?thesis unfolding admit_Admitted by blast
qed

text \<open>
  \<open>start1\<close> on a running server is the restart of the system model: the old instance is killed, and the
  new one, at a new address, is what \<open>Make\<close> builds from a copy of the Raft state that the old one persisted.
\<close>
theorem start1_restarts:
  assumes "cfg_reach ms n cfg" and "i < n" and "start1 ms names now rnd1 rnd2 i cfg = Some cfg'"
    and "rafts cfg ! i = Some p" and "heap cfg p = Some rf" and "npeers rf = n" and "me rf = int i"
  shows "\<exists>q. q \<noteq> p \<and> rafts cfg' ! i = Some q \<and> heap cfg' q = Some (restart rf now rnd1 rnd2) \<and> heap cfg' p = Some (Kill rf)"
proof -
  have lk: "linked cfg" "shape cfg" "objects cfg" and n: "cfg_n cfg = n" using cfg_reach_linked [OF assms(1)] by (auto simp: linked_def)
  have i: "i < cfg_n cfg" using assms(2) n by simp
  obtain d rn where d: "disconnect i cfg = Some d" "cfg' = started ms names now rnd1 rnd2 i rn (crashed i d)"
    by (rule start1_linked [OF lk(1) i assms(3)])
  note D = disconnect_off [OF lk(1) i d(1)] and L = shapeD [OF lk(2)]
  have p: "p < fresh cfg" "saved cfg ! i = Shared p" using objectsD(2,6) [OF lk(3) i assms(4)] by simp_all
  have "stored i (crashed i d) = ReadRaftState (persister rf)"
    using crashed_stored [OF D(1), of i] i D p(2) assms(5) by (simp add: stored_def saved_get_def)
  then have "heap cfg' = ((heap cfg)(p \<mapsto> Kill rf))(fresh cfg \<mapsto> restart rf now rnd1 rnd2)"
    using d(2) D(2,6,8,9) n assms(4-7) by (simp add: started_def crashed_def restart_def Persister_defs)
  moreover have "rafts cfg' ! i = Some (fresh cfg)" using d(2) D(6,9) i L(1) by (simp add: started_def)
  ultimately show ?thesis using p(1) by simp
qed

subsection \<open>A fresh harness\<close>

lemma start1_total:
  assumes lk: "linked cfg" and i: "i < cfg_n cfg"
    and "inj_on names {..<cfg_n cfg}" and "\<And>j. j < cfg_n cfg \<Longrightarrow> ends (net cfg) (names j) = None"
  shows "start1 ms names now rnd1 rnd2 i cfg \<noteq> None"
proof -
  obtain d where d: "disconnect i cfg = Some d" using disconnect_links [OF lk i] by metis
  note D = disconnect_off [OF lk i d]
  let ?c = "(crashed i d)\<lparr>endnames := (endnames d)[i := Some (map names [0..<cfg_n d])]\<rparr>"
  have "for_each (make_end i) [0..<cfg_n d] (?c\<lparr>net := net ?c\<rparr>) \<noteq> None"
  proof (rule make_ends_total [of names])
    show "distinct (map names [0..<cfg_n d])" using assms(3) D(2) by (simp add: distinct_map lessThan_atLeast0)
    show "endname i j ?c = Some (names j) \<and> ends (net ?c) (names j) = None" if "j \<in> set [0..<cfg_n d]" for j
      using that i assms(4) [of j] D shapeD(5) [of d] by (simp add: endname_def linked_def)
  qed
  then show ?thesis unfolding start1_eq [OF lk i d] net_same by (simp only: option.map_disc_iff not_False_eq_True)
qed

text \<open>After the first \<open>k\<close> servers have been started.\<close>

definition booted :: "(nat \<Rightarrow> nat \<Rightarrow> string) \<Rightarrow> (nat \<Rightarrow> int \<times> int \<times> int) \<Rightarrow> nat \<Rightarrow> nat \<Rightarrow> ('c, 'a, 'b) config \<Rightarrow> bool" where
  "booted names seeds n k cfg \<longleftrightarrow>
     linked cfg \<and> cfg_n cfg = n \<and> fresh cfg = k \<and>
     (\<forall>e. ends (net cfg) e \<noteq> None \<longrightarrow> (\<exists>i < k. \<exists>j < n. e = names i j)) \<and>
     (\<forall>i < n. k \<le> i \<longrightarrow> saved cfg ! i = Nil_saved) \<and>
     (\<forall>i < k. endnames cfg ! i \<noteq> None \<and> rafts cfg ! i = Some i \<and>
        heap cfg i = Some (case seeds i of (now, rnd1, rnd2) \<Rightarrow> Make n (int i) MakePersister now rnd1 rnd2))"

lemma boot_step:
  assumes b: "booted names seeds n k cfg" and k: "k < n"
    and inj: "distinct_names names n"
    and sd: "seeds k = (now, rnd1, rnd2)"
  obtains cfg' where "start1 ms (names k) now rnd1 rnd2 k cfg = Some cfg'" "booted names seeds n (Suc k) cfg'"
proof -
  have lk: "linked cfg" and n: "cfg_n cfg = n" and fr: "fresh cfg = k" and nil: "saved cfg ! k = Nil_saved"
    and E: "\<And>e. ends (net cfg) e \<noteq> None \<Longrightarrow> \<exists>i < k. \<exists>j < n. e = names i j" using b k by (auto simp: booted_def)
  have new: "ends (net cfg) (names k j) = None" if "j < n" for j
  proof (rule ccontr)
    assume "ends (net cfg) (names k j) \<noteq> None"
    then obtain i j' where "i < k" "j' < n" "names k j = names i j'" using E by blast
    then show False using distinct_namesD [OF inj, of k j i j'] k that by simp
  qed
  have i: "k < cfg_n cfg" using k n by simp
  have "start1 ms (names k) now rnd1 rnd2 k cfg \<noteq> None"
    by (rule start1_total [OF lk i]) (use new distinct_namesD [OF inj, of k _ k] k n in \<open>auto simp: inj_on_def\<close>)
  then obtain cfg' where st: "start1 ms (names k) now rnd1 rnd2 k cfg = Some cfg'" by blast
  obtain d rn where d: "disconnect k cfg = Some d" "cfg' = started ms (names k) now rnd1 rnd2 k rn (crashed k d)" "linked cfg'"
    "\<And>e. ends rn e \<noteq> None \<longleftrightarrow> e \<in> names k ` {..<cfg_n cfg} \<or> ends (net cfg) e \<noteq> None"
    by (rule start1_linked [OF lk i st], rule that) blast+
  note D = disconnect_off [OF lk i d(1)]
  have len: "k < length (saved cfg)" "k < length (rafts cfg)" "k < length (endnames cfg)"
    using i lk shapeD [of cfg] by (simp_all add: linked_def)
  have rk: "rafts cfg ! k = None"
    using objectsD(2) [of cfg k] lk i nil by (cases "rafts cfg ! k") (auto simp: linked_def)
  have st0: "stored k (crashed k d) = []" using crashed_stored [OF D(1), of k] i D(2,7,8) nil by (simp add: stored_def saved_get_def)
  have heap: "heap cfg' = (heap cfg)(k \<mapsto> Make n (int k) MakePersister now rnd1 rnd2)"
    using d(2) D rk fr n st0 by (simp add: started_def crashed_def Persister_defs)
  have "booted names seeds n (Suc k) cfg'"
    unfolding booted_def
  proof (intro conjI allI impI)
    show "\<exists>i < Suc k. \<exists>j < n. e = names i j" if "ends (net cfg') e \<noteq> None" for e
    proof -
      have "e \<in> names k ` {..<n} \<or> ends (net cfg) e \<noteq> None" using that d(2,4) n by (simp add: started_def)
      then show ?thesis using E [of e] by (metis imageE lessThan_iff less_SucI lessI)
    qed
    show "saved cfg' ! i = Nil_saved" if "i < n" "Suc k \<le> i" for i
      using that b d(2) D by (simp add: started_def booted_def)
    fix j assume j: "j < Suc k"
    show "endnames cfg' ! j \<noteq> None" "rafts cfg' ! j = Some j"
      "heap cfg' j = Some (case seeds j of (now, rnd1, rnd2) \<Rightarrow> Make n (int j) MakePersister now rnd1 rnd2)"
      using j b d(2) D len fr heap sd by (cases "j = k"; simp add: started_def booted_def)+
  qed (use d(2,3) D n fr in \<open>simp_all add: started_def\<close>)
  then show thesis using that st by blast
qed

lemma boot_loop:
  assumes inj: "distinct_names names n"
    and "booted names seeds n 0 cfg" and "k \<le> n"
  shows "\<exists>cfg'. for_each
     (\<lambda>i cfg. do { ls \<leftarrow> put_slot (cfg_logs cfg) i Map.empty;
                   let (now, rnd1, rnd2) = seeds i;
                   start1 ms (names i) now rnd1 rnd2 i (cfg\<lparr>cfg_logs := ls\<rparr>) }) [0..<k] cfg = Some cfg' \<and>
     booted names seeds n k cfg'"
  using assms(3)
proof (induction k)
  case (Suc k)
  then obtain c where c: "for_each
     (\<lambda>i cfg. do { ls \<leftarrow> put_slot (cfg_logs cfg) i Map.empty;
                   let (now, rnd1, rnd2) = seeds i;
                   start1 ms (names i) now rnd1 rnd2 i (cfg\<lparr>cfg_logs := ls\<rparr>) }) [0..<k] cfg = Some c"
     "booted names seeds n k c" by auto
  have len: "k < length (cfg_logs c)" using c(2) Suc.prems shapeD(6) [of c] by (simp add: booted_def linked_def)
  let ?c = "c\<lparr>cfg_logs := (cfg_logs c)[k := Map.empty]\<rparr>"
  obtain now rnd1 rnd2 where sd: "seeds k = (now, rnd1, rnd2)" by (cases "seeds k") auto
  have b: "booted names seeds n k ?c" and k: "k < n" using c(2) Suc.prems by (simp_all add: booted_def)
  obtain c' where "start1 ms (names k) now rnd1 rnd2 k ?c = Some c'" "booted names seeds n (Suc k) c'"
    by (rule boot_step [OF b k inj sd])
  then show ?case using c(1) len sd by (simp add: for_each_append)
qed (use assms(2) in simp)

lemma connect_loop:
  assumes "booted names seeds n n cfg" and "k \<le> n"
  shows "\<exists>cfg'. for_each connect [0..<k] cfg = Some cfg' \<and> booted names seeds n n cfg' \<and> (\<forall>i < k. connected cfg' ! i)"
  using assms(2)
proof (induction k)
  case (Suc k)
  then obtain c where c: "for_each connect [0..<k] cfg = Some c" "booted names seeds n n c" "\<forall>i < k. connected c ! i" by auto
  have k: "k < cfg_n c" "endnames c ! k \<noteq> None" and lk: "linked c" using c(2) Suc.prems by (auto simp: booted_def)
  obtain c' where "connect k c = Some c'" "linked c'" "connected c' = (connected c)[k := True]"
    "endnames c' = endnames c" "cfg_n c' = cfg_n c" "heap c' = heap c" "rafts c' = rafts c"
    "saved c' = saved c" "fresh c' = fresh c" "ends (net c') = ends (net c)"
    by (rule connect_links [OF lk k])
  then show ?case using c k shapeD(3) [of c] lk
    by (auto simp: for_each_append booted_def linked_def less_Suc_eq nth_list_update)
qed (use assms(1) in simp)

lemma make_config_booted:
  assumes "distinct_names names n"
  shows "\<exists>cfg :: ('c, 'a, 'b) config. make_config ms names seeds n unreliable = Some cfg \<and>
    booted names seeds n n cfg \<and> (\<forall>i < n. connected cfg ! i)"
proof -
  let ?c = "setunreliable unreliable (config0 n :: ('c, 'a, 'b) config)"
  let ?c0 = "?c\<lparr>net := LongDelays True (net ?c)\<rparr>"
  have "linked ?c0" using config0_linked by simp
  then have "booted names seeds n 0 ?c0"
    by (simp add: booted_def) (simp add: config0_def setunreliable_def Reliable_def LongDelays_def MakeNetwork_def)
  from boot_loop [OF assms this order_refl, of ms] obtain c1 where c1: "for_each
     (\<lambda>i cfg. do { ls \<leftarrow> put_slot (cfg_logs cfg) i Map.empty;
                   let (now, rnd1, rnd2) = seeds i;
                   start1 ms (names i) now rnd1 rnd2 i (cfg\<lparr>cfg_logs := ls\<rparr>) }) [0..<n] ?c0 = Some c1"
     "booted names seeds n n c1" by blast
  from connect_loop [OF c1(2) order_refl] obtain c2 where
    "for_each connect [0..<n] c1 = Some c2" "booted names seeds n n c2" "\<forall>i < n. connected c2 ! i" by blast
  then show ?thesis using c1(1) by (simp add: make_config_def Let_def)
qed

lemma make_config_all:
  assumes "distinct_names names n"
  shows "\<exists>cfg :: ('c, 'a, 'b) config. make_config ms names seeds n unreliable = Some cfg \<and> linked cfg \<and>
    (\<forall>i < n. connected cfg ! i \<and> rafts cfg ! i = Some i \<and>
       heap cfg i = Some (case seeds i of (now, rnd1, rnd2) \<Rightarrow> Make n (int i) MakePersister now rnd1 rnd2))"
  using make_config_booted [OF assms, of ms seeds unreliable] by (auto simp: booted_def)

text \<open>
  \<open>make_config\<close> returns whenever the random names are distinct, in a state in which every server is
  connected to every other one and runs the peer that \<open>Make\<close> builds from an empty persister.
\<close>
theorem make_config_ready:
  assumes "distinct_names names n"
  shows "\<exists>cfg :: ('c, 'a, 'b) config. make_config ms names seeds n unreliable = Some cfg \<and> linked cfg \<and>
    (\<forall>i < n. connected cfg ! i \<and> rafts cfg ! i = Some i \<and>
       heap cfg i = Some (case seeds i of (now, rnd1, rnd2) \<Rightarrow> Make n (int i) MakePersister now rnd1 rnd2))"
  using assms by (rule make_config_all)

lemma make_config_reach:
  fixes cfg :: "('c, 'a, 'b) config"
  assumes "make_config ms names seeds n unreliable = Some cfg"
  shows "cfg_reach ms n cfg"
proof -
  have trans: "cfg_reach ms n c \<Longrightarrow> cfg_step ms c c' \<Longrightarrow> cfg_reach ms n c'" for c c' :: "('c, 'a, 'b) config"
    unfolding cfg_reach_def by (rule rtranclp.rtrancl_into_rtrancl)
  let ?c = "setunreliable unreliable (config0 n :: ('c, 'a, 'b) config)"
  let ?c0 = "?c\<lparr>net := LongDelays True (net ?c)\<rparr>"
  have "cfg_reach ms n (config0 n :: ('c, 'a, 'b) config)" by (simp add: cfg_reach_def)
  then have c0: "cfg_reach ms n ?c0" using trans cfg_step.unreliable cfg_step.delays by metis
  obtain c1 where c1: "for_each
     (\<lambda>i cfg. do { ls \<leftarrow> put_slot (cfg_logs cfg) i Map.empty;
                   let (now, rnd1, rnd2) = seeds i;
                   start1 ms (names i) now rnd1 rnd2 i (cfg\<lparr>cfg_logs := ls\<rparr>) }) [0..<n] ?c0 = Some c1"
     "for_each connect [0..<n] c1 = Some cfg"
    using assms by (auto simp: make_config_def Let_def split: bind_splits)
  have "cfg_reach ms n c1"
  proof (rule for_each_inv [OF c1(1), where I = "cfg_reach ms n"])
    fix i and c c' :: "('c, 'a, 'b) config" assume i: "i \<in> set [0..<n]" and c: "cfg_reach ms n c"
      and b: "do { ls \<leftarrow> put_slot (cfg_logs c) i Map.empty; let (now, rnd1, rnd2) = seeds i;
                 start1 ms (names i) now rnd1 rnd2 i (c\<lparr>cfg_logs := ls\<rparr>) } = Some c'"
    obtain now rnd1 rnd2 where sd: "seeds i = (now, rnd1, rnd2)" by (cases "seeds i") auto
    obtain ls where ls: "put_slot (cfg_logs c) i Map.empty = Some ls" "start1 ms (names i) now rnd1 rnd2 i (c\<lparr>cfg_logs := ls\<rparr>) = Some c'"
      using b sd by (auto split: bind_splits)
    have "length ls = length (cfg_logs c)" using ls(1) by (auto simp: go_panic)
    then have "cfg_step ms c (c\<lparr>cfg_logs := ls\<rparr>)" by (rule cfg_step.entries)
    then have "cfg_reach ms n (c\<lparr>cfg_logs := ls\<rparr>)" by (rule trans [OF c])
    moreover have "i < cfg_n (c\<lparr>cfg_logs := ls\<rparr>)" using i cfg_reach_linked [OF c] by simp
    ultimately show "cfg_reach ms n c'" using trans cfg_step.start [OF _ ls(2)] by blast
  qed (rule c0)
  then show ?thesis by (rule for_each_inv [OF c1(2), where I = "cfg_reach ms n"]) (use trans cfg_step.connect in metis)
qed

theorem make_config_ready_witness:
  "\<exists>cfg :: (int, unit, unit) config. make_config [] pair_name (\<lambda>i. (0, 0, 0)) 3 False = Some cfg \<and> linked cfg \<and> connected cfg ! 2"
  using make_config_ready [OF distinct_pair_name [of 3], of "[]" "\<lambda>i. (0, 0, 0)" False] by fastforce

lemma ready3:
  obtains cfg :: "(int, unit, unit) config" where "cfg_reach [] 3 cfg"
    "\<And>i. i < 3 \<Longrightarrow> connected cfg ! i \<and> rafts cfg ! i = Some i \<and> endnames cfg ! i \<noteq> None \<and>
       heap cfg i = Some (Make 3 (int i) MakePersister 0 0 0)"
proof -
  obtain cfg :: "(int, unit, unit) config" where c: "make_config [] pair_name (\<lambda>i. (0, 0, 0)) 3 False = Some cfg"
    "linked cfg" "\<forall>i < 3. connected cfg ! i \<and> rafts cfg ! i = Some i \<and> heap cfg i = Some (Make 3 (int i) MakePersister 0 0 0)"
    using make_config_all [OF distinct_pair_name [of 3], of "[]" "\<lambda>i. (0, 0, 0)" False] by auto
  then have r: "cfg_reach [] 3 cfg" using make_config_reach by blast
  then show thesis using that c(3) linksD(5) [of cfg] c(2) cfg_reach_linked [OF r] by (auto simp: linked_def)
qed

theorem harness_shape_witness:
  "\<exists>cfg :: (int, unit, unit) config. cfg_reach [] 3 cfg \<and> shape cfg \<and> (\<exists>e. endname 0 1 cfg = Some e)"
proof -
  obtain cfg :: "(int, unit, unit) config" where r: "cfg_reach [] 3 cfg" and c: "endnames cfg ! 0 \<noteq> None"
    by (rule ready3) auto
  have "\<forall>i < 3. \<forall>j < 3. endnames cfg ! i \<noteq> None \<longrightarrow> (\<exists>e. endname i j cfg = Some e)" using harness_shape [OF r] by blast
  then have "endnames cfg ! 0 \<noteq> None \<longrightarrow> (\<exists>e. endname 0 1 cfg = Some e)" by (rule allE [of _ 0]) (simp del: One_nat_def)
  then show ?thesis using r c harness_shape [OF r] by blast
qed

theorem harness_isolates_witness:
  "\<exists>(cfg :: (int, unit, unit) config) e. cfg_reach [] 3 cfg \<and> endname 0 1 cfg = Some e \<and>
     admit 500 e (net cfg) = Admitted 1 1 (reliable (net cfg)) (longReordering (net cfg))"
proof -
  obtain cfg :: "(int, unit, unit) config" where r: "cfg_reach [] 3 cfg"
    and c: "\<And>i. i < 3 \<Longrightarrow> connected cfg ! i \<and> rafts cfg ! i = Some i \<and> endnames cfg ! i \<noteq> None \<and>
       heap cfg i = Some (Make 3 (int i) MakePersister 0 0 0)" using ready3 by blast
  obtain e where e: "endname 0 1 cfg = Some e"
    using endname_row [of cfg 0 1] cfg_reach_linked [OF r] c [of 0] by (auto simp: linked_def)
  have "admit 500 e (net cfg) = Admitted 1 1 (reliable (net cfg)) (longReordering (net cfg))"
    unfolding harness_isolates [OF r] using e c [of 0] c [of 1] by auto
  then show ?thesis using r e by blast
qed

theorem start1_restarts_witness:
  "\<exists>(cfg :: (int, unit, unit) config) cfg' q. cfg_reach [] 3 cfg \<and> start1 [] (\<lambda>j. pair_name 3 j) 0 0 0 1 cfg = Some cfg' \<and>
     q \<noteq> 1 \<and> rafts cfg' ! 1 = Some q \<and> heap cfg' 1 = Some (Kill (Make 3 1 MakePersister 0 0 0))"
proof -
  obtain cfg :: "(int, unit, unit) config" where c: "make_config [] pair_name (\<lambda>i. (0, 0, 0)) 3 False = Some cfg"
    "booted pair_name (\<lambda>i. (0, 0, 0)) 3 3 cfg"
    using make_config_booted [OF distinct_pair_name [of 3], of "[]" "\<lambda>i. (0, 0, 0)" False] by blast
  have r: "cfg_reach [] 3 cfg" by (rule make_config_reach [OF c(1)])
  have new: "ends (net cfg) (pair_name 3 j) = None" if "j < 3" for j
  proof (rule ccontr)
    assume "ends (net cfg) (pair_name 3 j) \<noteq> None"
    then obtain i k where "i < 3" "k < 3" "pair_name 3 j = pair_name i k" using c(2) by (auto simp: booted_def)
    then show False using distinct_namesD [OF distinct_pair_name [of 4], of 3 j i k] that by simp
  qed
  have "inj_on (\<lambda>j. pair_name 3 j) {..<3}"
    using distinct_namesD [OF distinct_pair_name [of 4], of 3 _ 3] by (auto simp: inj_on_def)
  then have "start1 [] (\<lambda>j. pair_name 3 j) 0 0 0 1 cfg \<noteq> None"
    using c(2) new by (intro start1_total) (auto simp: booted_def)
  then obtain cfg' where st: "start1 [] (\<lambda>j. pair_name 3 j) 0 0 0 1 cfg = Some cfg'" by blast
  have "\<exists>q. q \<noteq> 1 \<and> rafts cfg' ! 1 = Some q \<and> heap cfg' q = Some (restart (Make 3 1 MakePersister 0 0 0) 0 0 0) \<and>
      heap cfg' 1 = Some (Kill (Make 3 1 MakePersister 0 0 0))"
    by (rule start1_restarts [OF r _ st])
      (use c(2) in \<open>simp_all add: booted_def Make_def readPersist_def ps.fresh_state Let_def\<close>)
  then show ?thesis using r st by blast
qed

end
