(* ===== verification/Raft_Checks.thy ===== *)
theory Raft_Checks
  imports Raft_Config
begin

text \<open>
  The checks of \<^verbatim>\<open>src/raft/config.go\<close>: the goroutine that reads a peer's apply channel (in \<open>start1\<close>),
  \<open>checkOneLeader\<close>, \<open>checkTerms\<close>, \<open>checkNoLeader\<close>, \<open>nCommitted\<close>, \<open>wait\<close> and \<open>one\<close>. The peers go on while a
  check runs, so what it reads of them, and when, is an argument. \<open>t.Fatalf\<close>, \<open>log.Fatalf\<close> and a panic are
  values of \<open>failure\<close>. Then what a check that passes says about the peers, and, the other way round, that
  the checks cannot fail in ordered (or strict) runs of the system.
\<close>

datatype 'c failure =
    Crash
  | Mismatch int nat 'c nat int
  | OutOfOrder nat int
  | NotAnInt 'c
  | ManyLeaders int nat
  | NoLeader
  | TermsDisagree
  | UnexpectedLeader nat
  | ApplyErr string
  | ValuesDiffer int int int
  | TooFew nat int int
  | NoAgreement 'c

subsection \<open>Reading an apply channel\<close>

text \<open>
  One turn of the reader of server \<open>i\<close>. \<open>as_int\<close> is the type assertion \<open>m.Command.(int)\<close>. The last test that
  fails determines the message.
\<close>

definition apply_check ::
  "('c \<Rightarrow> int option) \<Rightarrow> nat \<Rightarrow> 'c ApplyMsg \<Rightarrow> (int \<rightharpoonup> int) list \<Rightarrow> 'c failure option \<times> (int \<rightharpoonup> int) list" where
  "apply_check as_int i m ls =
     (if UseSnapshot m then (None, ls)
      else case as_int (Command m) of
        Some v \<Rightarrow>
          let err1 = fold (\<lambda>j err. case (ls ! j) (Index m) of
                         Some old \<Rightarrow> if old \<noteq> v then Some (Mismatch (Index m) i (Command m) j old) else err
                       | None \<Rightarrow> err) [0..<length ls] None;
              prevok = ((ls ! i) (Index m - 1) \<noteq> None);
              ls' = ls[i := (ls ! i)(Index m \<mapsto> v)]
          in (if Index m > 1 \<and> \<not> prevok then Some (OutOfOrder i (Index m)) else err1, ls')
      | None \<Rightarrow> (Some (NotAnInt (Command m)), ls))"

text \<open>When the turn reports nothing.\<close>

lemma fold_errors_None:
  "fold (\<lambda>j err. case f j of Some old \<Rightarrow> if old \<noteq> v then Some (g j old) else err | None \<Rightarrow> err) js e = None \<longleftrightarrow>
   e = None \<and> (\<forall>j \<in> set js. \<forall>old. f j = Some old \<longrightarrow> old = v)"
  by (induction js arbitrary: e) (auto split: option.splits)

lemma apply_check_None:
  assumes "\<not> UseSnapshot m" and "as_int (Command m) = Some v"
  shows "fst (apply_check as_int i m ls) = None \<longleftrightarrow>
      (1 < Index m \<longrightarrow> (ls ! i) (Index m - 1) \<noteq> None) \<and> (\<forall>j < length ls. \<forall>old. (ls ! j) (Index m) = Some old \<longrightarrow> old = v)"
    and "snd (apply_check as_int i m ls) = ls[i := (ls ! i)(Index m \<mapsto> v)]"
  using assms by (auto simp: apply_check_def Let_def fold_errors_None)

text \<open>What all readers together accept.\<close>

fun read_all ::
  "('c \<Rightarrow> int option) \<Rightarrow> (nat \<times> 'c ApplyMsg) list \<Rightarrow> (int \<rightharpoonup> int) list \<Rightarrow> 'c failure + (int \<rightharpoonup> int) list" where
  "read_all as_int [] ls = Inr ls"
| "read_all as_int ((i, m) # evs) ls =
     (case apply_check as_int i m ls of
        (Some err, _) \<Rightarrow> Inl err
      | (None, ls') \<Rightarrow> read_all as_int evs ls')"

text \<open>Logs that agree and have no gaps: what the readers keep up.\<close>

definition consistent :: "(int \<rightharpoonup> int) list \<Rightarrow> bool" where
  "consistent ls \<longleftrightarrow>
     (\<forall>i < length ls. \<forall>j < length ls. \<forall>x v w. (ls ! i) x = Some v \<and> (ls ! j) x = Some w \<longrightarrow> v = w) \<and>
     (\<forall>i < length ls. \<forall>x. 1 < x \<and> (ls ! i) x \<noteq> None \<longrightarrow> (ls ! i) (x - 1) \<noteq> None)"

lemma apply_check_consistent:
  assumes "consistent ls" and "i < length ls" and "apply_check as_int i m ls = (None, ls')"
  shows "consistent ls' \<and> length ls' = length ls"
proof (cases "UseSnapshot m")
  case False
  then obtain v where v: "as_int (Command m) = Some v"
    using assms(3) by (cases "as_int (Command m)") (auto simp: apply_check_def)
  have ok: "1 < Index m \<longrightarrow> (ls ! i) (Index m - 1) \<noteq> None" "\<forall>j < length ls. \<forall>old. (ls ! j) (Index m) = Some old \<longrightarrow> old = v"
    and ls': "ls' = ls[i := (ls ! i)(Index m \<mapsto> v)]" using apply_check_None [where as_int = as_int and i = i and ls = ls, OF False v] assms(3) by auto
  show ?thesis
    unfolding consistent_def ls'
  proof (intro conjI allI impI)
    fix j k x a b assume "j < length (ls[i := (ls ! i)(Index m \<mapsto> v)])" "k < length (ls[i := (ls ! i)(Index m \<mapsto> v)])"
      and "(ls[i := (ls ! i)(Index m \<mapsto> v)] ! j) x = Some a \<and> (ls[i := (ls ! i)(Index m \<mapsto> v)] ! k) x = Some b"
    then show "a = b" using assms(1,2) ok(2) unfolding consistent_def
      by (auto simp: nth_list_update split: if_splits)
  next
    fix j x assume "j < length (ls[i := (ls ! i)(Index m \<mapsto> v)])" "1 < x \<and> (ls[i := (ls ! i)(Index m \<mapsto> v)] ! j) x \<noteq> None"
    moreover have "j < length ls \<Longrightarrow> 1 < x \<Longrightarrow> (ls ! j) x \<noteq> None \<Longrightarrow> (ls ! j) (x - 1) \<noteq> None"
      using assms(1) unfolding consistent_def by blast
    ultimately show "(ls[i := (ls ! i)(Index m \<mapsto> v)] ! j) (x - 1) \<noteq> None" using assms(2) ok(1)
      by (cases "j = i"; cases "x = Index m") simp_all
  qed simp
qed (use assms in \<open>simp add: apply_check_def\<close>)

text \<open>
  The readers check what they should. If the readers accept a sequence of messages, the committed
  entries they have recorded agree between all servers, and the record of every server has no gap.
\<close>
theorem readers_sound:
  assumes "read_all as_int evs (replicate n Map.empty) = Inr ls" and "\<forall>(i, m) \<in> set evs. i < n"
  shows "consistent ls \<and> length ls = n"
proof -
  have "consistent ls' \<and> length ls' = n"
    if "read_all as_int evs l = Inr ls'" "consistent l" "length l = n" "\<forall>(i, m) \<in> set evs. i < n" for l ls'
    using that
  proof (induction as_int evs l rule: read_all.induct)
    case (2 as_int i m evs l)
    then obtain l1 where l1: "apply_check as_int i m l = (None, l1)" "read_all as_int evs l1 = Inr ls'"
      by (auto split: prod.splits option.splits)
    have "consistent l1 \<and> length l1 = length l" by (rule apply_check_consistent [OF _ _ l1(1)]) (use 2 in auto)
    then show ?case using 2 l1 by auto
  qed simp
  moreover have "consistent (replicate n Map.empty)" by (simp add: consistent_def)
  ultimately show ?thesis using assms by simp
qed

theorem readers_sound_witness:
  "\<exists>ls. read_all Some [(0, \<lparr>Index = 1, Command = 7, UseSnapshot = False\<rparr>), (1, \<lparr>Index = 1, Command = 7, UseSnapshot = False\<rparr>)]
     (replicate 2 Map.empty) = Inr ls \<and> consistent ls"
proof -
  let ?m = "\<lparr>Index = 1, Command = 7, UseSnapshot = False\<rparr> :: int ApplyMsg"
  have "(case read_all Some [(0, ?m), (1, ?m)] (replicate 2 Map.empty) of Inr ls \<Rightarrow> True | Inl _ \<Rightarrow> False)" by code_simp
  then obtain ls where "read_all Some [(0, ?m), (1, ?m)] (replicate 2 Map.empty) = Inr ls" by (auto split: sum.splits)
  then show ?thesis using readers_sound [of Some "[(0, ?m), (1, ?m)]" 2 ls] by auto
qed

subsection \<open>Leaders and terms\<close>

text \<open>
  \<open>checkOneLeader\<close>. \<open>st k p\<close> is the peer at address \<open>p\<close> at the two moments at which \<open>GetState\<close>, which takes no lock,
  reads its term and its role in turn \<open>k\<close>; \<open>ord\<close> is the order in
  which Go's \<open>range\<close> visits the terms of the map, which may differ from turn to turn;
  it is empty exactly when the map is.
\<close>

definition note_leader :: "(nat \<Rightarrow> 'c reading) \<Rightarrow> ('c, 'a, 'b) config \<Rightarrow> nat \<Rightarrow> (int \<rightharpoonup> nat list) \<Rightarrow> (int \<rightharpoonup> nat list) option" where
  "note_leader st cfg i m =
     do { c \<leftarrow> slot (connected cfg) i;
          if c then do { rf \<leftarrow> slot (rafts cfg) i; p \<leftarrow> rf;
                         let (t, leader) = GetState (st p);
                         Some (if leader then m(t \<mapsto> zget [] m t @ [i]) else m) }
          else Some m }"

definition leaders_of :: "(nat \<Rightarrow> 'c reading) \<Rightarrow> ('c, 'a, 'b) config \<Rightarrow> (int \<rightharpoonup> nat list) option" where
  "leaders_of st cfg = for_each (note_leader st cfg) [0..<cfg_n cfg] Map.empty"

fun scan_terms :: "(int \<rightharpoonup> nat list) \<Rightarrow> int list \<Rightarrow> int \<Rightarrow> 'c failure + int" where
  "scan_terms m [] newest = Inr newest"
| "scan_terms m (t # ts) newest =
     (if length (zget [] m t) > 1 then Inl (ManyLeaders t (length (zget [] m t)))
      else scan_terms m ts (if t > newest then t else newest))"

fun one_leader_turns ::
  "(nat \<Rightarrow> (int \<rightharpoonup> nat list) \<Rightarrow> int list) \<Rightarrow> (nat \<Rightarrow> nat \<Rightarrow> 'c reading) \<Rightarrow> ('c, 'a, 'b) config \<Rightarrow> nat \<Rightarrow> nat \<Rightarrow> 'c failure + nat" where
  "one_leader_turns ord st cfg iters 0 = Inl NoLeader"
| "one_leader_turns ord st cfg iters (Suc k) =
     (case leaders_of (st iters) cfg of
        None \<Rightarrow> Inl Crash
      | Some m \<Rightarrow>
          (case scan_terms m (ord iters m) (-1) of
             Inl e \<Rightarrow> Inl e
           | Inr newest \<Rightarrow>
               if ord iters m \<noteq> [] then
                 (case slot (zget [] m newest) 0 of None \<Rightarrow> Inl Crash | Some i \<Rightarrow> Inr i)
               else one_leader_turns ord st cfg (Suc iters) k))"

definition checkOneLeader ::
  "(nat \<Rightarrow> (int \<rightharpoonup> nat list) \<Rightarrow> int list) \<Rightarrow> (nat \<Rightarrow> nat \<Rightarrow> 'c reading) \<Rightarrow> ('c, 'a, 'b) config \<Rightarrow> 'c failure + nat" where
  "checkOneLeader ord st cfg = one_leader_turns ord st cfg 0 10"

definition checkTerms :: "(nat \<Rightarrow> 'c reading) \<Rightarrow> ('c, 'a, 'b) config \<Rightarrow> 'c failure + int" where
  "checkTerms st cfg =
     fold (\<lambda>i r. case r of
         Inl e \<Rightarrow> Inl e
       | Inr term \<Rightarrow>
           (case slot (connected cfg) i of
              Some True \<Rightarrow>
                (case do { rf \<leftarrow> slot (rafts cfg) i; rf } of
                   None \<Rightarrow> Inl Crash
                 | Some p \<Rightarrow>
                     let xterm = fst (GetState (st p))
                     in if term = -1 then Inr xterm else if term \<noteq> xterm then Inl TermsDisagree else Inr term)
            | Some False \<Rightarrow> Inr term
            | None \<Rightarrow> Inl Crash)) [0..<cfg_n cfg] (Inr (-1))"

definition checkNoLeader :: "(nat \<Rightarrow> 'c reading) \<Rightarrow> ('c, 'a, 'b) config \<Rightarrow> 'c failure + unit" where
  "checkNoLeader st cfg =
     fold (\<lambda>i r. case r of
         Inl e \<Rightarrow> Inl e
       | Inr _ \<Rightarrow>
           (case slot (connected cfg) i of
              Some True \<Rightarrow>
                (case do { rf \<leftarrow> slot (rafts cfg) i; rf } of
                   None \<Rightarrow> Inl Crash
                 | Some p \<Rightarrow> if snd (GetState (st p)) then Inl (UnexpectedLeader i) else Inr ())
            | Some False \<Rightarrow> Inr ()
            | None \<Rightarrow> Inl Crash)) [0..<cfg_n cfg] (Inr ())"

text \<open>Connected servers have an instance.\<close>

definition running_all :: "('c, 'a, 'b) config \<Rightarrow> bool" where
  "running_all cfg \<longleftrightarrow> (\<forall>i < cfg_n cfg. connected cfg ! i \<longrightarrow> rafts cfg ! i \<noteq> None)"

definition leads :: "(nat \<Rightarrow> 'c reading) \<Rightarrow> ('c, 'a, 'b) config \<Rightarrow> int \<Rightarrow> nat \<Rightarrow> bool" where
  "leads st cfg t i \<longleftrightarrow> connected cfg ! i \<and> GetState (st (the (rafts cfg ! i))) = (t, True)"

lemma leaders_of_eq:
  assumes "shape cfg" and "running_all cfg"
  shows "\<exists>m. leaders_of st cfg = Some m \<and>
    (\<forall>t. m t = (let is = filter (leads st cfg t) [0..<cfg_n cfg] in if is = [] then None else Some is))"
proof -
  have "\<exists>m. for_each (note_leader st cfg) [0..<k] Map.empty = Some m \<and>
    (\<forall>t. m t = (let is = filter (leads st cfg t) [0..<k] in if is = [] then None else Some is))" if "k \<le> cfg_n cfg" for k
    using that
  proof (induction k)
    case (Suc k)
    then obtain m where m: "for_each (note_leader st cfg) [0..<k] Map.empty = Some m"
      "\<And>t. m t = (let is = filter (leads st cfg t) [0..<k] in if is = [] then None else Some is)" by auto
    have k: "slot (connected cfg) k = Some (connected cfg ! k)" "slot (rafts cfg) k = Some (rafts cfg ! k)"
      using Suc.prems shapeD(1,3) [OF assms(1)] by simp_all
    have F: "for_each (note_leader st cfg) [0..<Suc k] Map.empty = note_leader st cfg k m"
      using m(1) by (cases "note_leader st cfg k m") (simp_all add: for_each_append)
    show ?case
    proof (cases "connected cfg ! k")
      case True
      then obtain p where p: "rafts cfg ! k = Some p"
        using assms(2) Suc.prems unfolding running_all_def by (metis Suc_le_lessD not_None_eq)
      obtain t lead where g: "GetState (st p) = (t, lead)" by (cases "GetState (st p)") auto
      have "leads st cfg t' k \<longleftrightarrow> lead \<and> t' = t" for t' using True p g by (auto simp: leads_def)
      moreover have "note_leader st cfg k m = Some (if lead then m(t \<mapsto> zget [] m t @ [k]) else m)"
        using True k p g by (simp add: note_leader_def)
      ultimately show ?thesis unfolding F using m(2) by (auto simp: zget_def Let_def)
    next
      case False
      then have "\<not> leads st cfg t' k" for t' by (simp add: leads_def)
      moreover have "note_leader st cfg k m = Some m" using False k by (simp add: note_leader_def)
      ultimately show ?thesis unfolding F using m(2) by simp
    qed
  qed simp
  from this [OF order_refl] show ?thesis by (simp add: leaders_of_def)
qed

lemma scan_terms_Inr:
  "scan_terms m ts u = Inr v \<Longrightarrow>
   (\<forall>t \<in> set ts. length (zget [] m t) \<le> 1) \<and> v \<in> insert u (set ts) \<and> (\<forall>t \<in> insert u (set ts). t \<le> v)"
proof (induction m ts u rule: scan_terms.induct)
  case (2 m t ts u)
  then show ?case by (cases "t > u") (auto split: if_splits)
qed simp

lemma scan_terms_Inl:
  "scan_terms m ts u = Inl e \<Longrightarrow> \<exists>t \<in> set ts. 1 < length (zget [] m t) \<and> e = ManyLeaders t (length (zget [] m t))"
  by (induction m ts u rule: scan_terms.induct) (auto split: if_splits)

text \<open>One turn, for a map and an order that fit.\<close>

definition enumerates :: "(nat \<Rightarrow> (int \<rightharpoonup> nat list) \<Rightarrow> int list) \<Rightarrow> bool" where
  "enumerates ord \<longleftrightarrow> (\<forall>k m. finite (dom m) \<longrightarrow> set (ord k m) = dom m)"

text \<open>
  The outcome of one turn: two leaders of a term, no leader and another turn, or the leader of the
  newest term.
\<close>

lemma two_of_filter:
  assumes "1 < length (filter P [0..<n])"
  obtains i j where "i < j" "j < n" "P i" "P j"
proof -
  let ?xs = "filter P [0..<n]"
  have "sorted_wrt (<) ?xs" by (simp add: sorted_wrt_filter)
  then have "?xs ! 0 < ?xs ! 1" using assms by (simp add: sorted_wrt_nth_less)
  moreover have "?xs ! 0 \<in> set ?xs" by (rule nth_mem) (use assms in linarith)
  moreover have "?xs ! 1 \<in> set ?xs" by (rule nth_mem) (use assms in linarith)
  ultimately show thesis using that [of "?xs ! 0" "?xs ! 1"] unfolding set_filter by simp
qed

lemma turn_terms:
  assumes "shape cfg" and "running_all cfg" and "enumerates ord"
  obtains m where "leaders_of st cfg = Some m" "\<And>t. zget [] m t = filter (leads st cfg t) [0..<cfg_n cfg]"
    "\<And>t. t \<in> set (ord k m) \<longleftrightarrow> (\<exists>i < cfg_n cfg. leads st cfg t i)"
proof -
  let ?F = "\<lambda>t. filter (leads st cfg t) [0..<cfg_n cfg]"
  obtain m where m: "leaders_of st cfg = Some m" "\<And>t. m t = (let is = ?F t in if is = [] then None else Some is)"
    using leaders_of_eq [OF assms(1,2), of st] by blast
  have dom: "dom m = {t. \<exists>i < cfg_n cfg. leads st cfg t i}" by (auto simp: dom_def m(2) Let_def filter_empty_conv)
  have "t \<in> (\<lambda>i. fst (GetState (st (the (rafts cfg ! i))))) ` {..<cfg_n cfg}" if "i < cfg_n cfg" "leads st cfg t i" for t i
    by (rule image_eqI [of _ _ i]) (use that in \<open>simp_all add: leads_def\<close>)
  then have "dom m \<subseteq> (\<lambda>i. fst (GetState (st (the (rafts cfg ! i))))) ` {..<cfg_n cfg}" unfolding dom by blast
  then have "finite (dom m)" by (rule finite_subset) simp
  then have "t \<in> set (ord k m) \<longleftrightarrow> (\<exists>i < cfg_n cfg. leads st cfg t i)" for t
    using assms(3) dom by (simp add: enumerates_def)
  then show thesis by (intro that [OF m(1)]) (simp_all add: zget_def m(2) Let_def)
qed

lemma one_of_filter: "length (filter P xs) \<le> 1 \<Longrightarrow> x \<in> set xs \<Longrightarrow> y \<in> set xs \<Longrightarrow> P x \<Longrightarrow> P y \<Longrightarrow> x = y"
  by (cases "filter P xs") (auto simp: filter_eq_Cons_iff filter_empty_conv dest!: sym [of "[]"])

lemma length_leaders: "length (filter P [0..<n]) = card {i. i < n \<and> P i}"
proof -
  have "length (filter P [0..<n]) = card (set (filter P [0..<n]))" by (rule distinct_card [symmetric]) simp
  also have "set (filter P [0..<n]) = {i. i < n \<and> P i}" by auto
  finally show ?thesis .
qed

lemma one_leader_turn:
  fixes cfg :: "('c, 'a, 'b) config"
  assumes "shape cfg" and "running_all cfg" and "enumerates ord"
    and pos: "\<forall>i < cfg_n cfg. \<forall>t. leads (st iters) cfg t i \<longrightarrow> 0 \<le> t"
  obtains (many) t i j where "i < j" "j < cfg_n cfg" "leads (st iters) cfg t i" "leads (st iters) cfg t j"
    "one_leader_turns ord st cfg iters (Suc k) = Inl (ManyLeaders t (card {i. i < cfg_n cfg \<and> leads (st iters) cfg t i}))"
  | (none) "\<And>i t. i < cfg_n cfg \<Longrightarrow> \<not> leads (st iters) cfg t i"
    "one_leader_turns ord st cfg iters (Suc k) = one_leader_turns ord st cfg (Suc iters) k"
  | (one) T i where "one_leader_turns ord st cfg iters (Suc k) = Inr i" "i < cfg_n cfg" "leads (st iters) cfg T i"
    "\<And>i' T'. i' < cfg_n cfg \<Longrightarrow> leads (st iters) cfg T' i' \<Longrightarrow> T' \<le> T"
    "\<And>i' j' T'. i' < cfg_n cfg \<Longrightarrow> j' < cfg_n cfg \<Longrightarrow> leads (st iters) cfg T' i' \<Longrightarrow> leads (st iters) cfg T' j' \<Longrightarrow> i' = j'"
proof -
  let ?F = "\<lambda>t. filter (leads (st iters) cfg t) [0..<cfg_n cfg]"
  obtain m where m: "leaders_of (st iters) cfg = Some m" "\<And>t. zget [] m t = ?F t"
    "\<And>t. t \<in> set (ord iters m) \<longleftrightarrow> (\<exists>i < cfg_n cfg. leads (st iters) cfg t i)"
    using turn_terms [OF assms(1-3)] by metis
  show thesis
  proof (cases "scan_terms m (ord iters m) (-1) :: 'c failure + int")
    case (Inl e)
    then obtain t where t: "1 < length (?F t)" "e = ManyLeaders t (length (?F t))"
      using scan_terms_Inl [OF Inl] by (auto simp: m(2))
    obtain i j where "i < j" "j < cfg_n cfg" "leads (st iters) cfg t i" "leads (st iters) cfg t j"
      using two_of_filter [OF t(1)] .
    then show thesis by (rule many) (use m(1) Inl t(2) in \<open>simp add: length_leaders\<close>)
  next
    case (Inr v)
    note S = scan_terms_Inr [OF Inr]
    show thesis
    proof (cases "ord iters m = []")
      case True
      show thesis by (rule none) (use True m(1,3) Inr in auto)
    next
      case False
      then obtain t where t: "t \<in> set (ord iters m)" by (cases "ord iters m") auto
      then have "0 \<le> t" using m(3) pos by blast
      then have "v \<in> set (ord iters m)" using S t by auto
      then have "?F v \<noteq> []" using m(3) by (auto simp: filter_empty_conv)
      then obtain i rest where f: "?F v = i # rest" by (auto simp: neq_Nil_conv)
      then have i: "i \<in> set (?F v)" by simp
      show thesis
      proof (rule one)
        show "one_leader_turns ord st cfg iters (Suc k) = Inr i" using m(1,2) Inr False f by simp
        show "T' \<le> v" if "i' < cfg_n cfg" "leads (st iters) cfg T' i'" for i' T' using S m(3) that by blast
        show "i' = j'" if h: "i' < cfg_n cfg" "j' < cfg_n cfg" "leads (st iters) cfg T' i'" "leads (st iters) cfg T' j'" for i' j' T'
          using S m(2,3) h by (intro one_of_filter [of "leads (st iters) cfg T'" "[0..<cfg_n cfg]"]) fastforce+
      qed (use i in auto)
    qed
  qed
qed

lemma turns_Inr:
  assumes "shape cfg" and "running_all cfg" and "enumerates ord"
    and pos: "\<And>j t i. i < cfg_n cfg \<Longrightarrow> leads (st j) cfg t i \<Longrightarrow> 0 \<le> t"
    and "one_leader_turns ord st cfg iters k = Inr i"
  shows "\<exists>j T. j < iters + k \<and> i < cfg_n cfg \<and> leads (st j) cfg T i \<and>
    (\<forall>i' < cfg_n cfg. \<forall>T'. leads (st j) cfg T' i' \<longrightarrow> T' \<le> T \<and> (T' = T \<longrightarrow> i' = i))"
  using assms(5)
proof (induction k arbitrary: iters)
  case (Suc k)
  have pos': "\<forall>i < cfg_n cfg. \<forall>t. leads (st iters) cfg t i \<longrightarrow> 0 \<le> t" using pos by blast
  from assms(1-3) pos' show ?case
  proof (cases rule: one_leader_turn [of cfg ord st iters k])
    case (many t i j)
    then show ?thesis using Suc.prems by simp
  next
    case none
    then have "one_leader_turns ord st cfg (Suc iters) k = Inr i" using Suc.prems by simp
    from Suc.IH [OF this] show ?thesis by simp
  next
    case (one T i')
    then have "i' = i" using Suc.prems by simp
    moreover have "T' \<le> T \<and> (T' = T \<longrightarrow> k' = i')" if "k' < cfg_n cfg" "leads (st iters) cfg T' k'" for k' T'
      using one(4) [OF that] one(5) [OF that(1) one(2) that(2)] one(3) by blast
    moreover have "iters < iters + Suc k" by simp
    ultimately show ?thesis using one(2,3) by blast
  qed
qed simp

text \<open>
  \<open>checkOneLeader\<close> is right when it returns: in one of its ten turns the server it returns led a term
  when it was read, no other connected server led that term, and none led a newer one.
\<close>
theorem checkOneLeader_sound:
  assumes "cfg_reach ms n cfg" and "running_all cfg" and "enumerates ord"
    and "\<And>j i t. i < n \<Longrightarrow> leads (st j) cfg t i \<Longrightarrow> 0 \<le> t" and "checkOneLeader ord st cfg = Inr i"
  shows "\<exists>j T. j < 10 \<and> i < n \<and> leads (st j) cfg T i \<and>
    (\<forall>i' < n. \<forall>T'. leads (st j) cfg T' i' \<longrightarrow> T' \<le> T \<and> (T' = T \<longrightarrow> i' = i))"
proof -
  have sh: "shape cfg" and n: "cfg_n cfg = n" using cfg_reach_linked [OF assms(1)] by (simp_all add: linked_def)
  show ?thesis
    using turns_Inr [OF sh assms(2,3), of st 0 10 i] assms(4,5) n by (simp add: checkOneLeader_def)
qed

text \<open>Strict runs as sequences of states.\<close>

definition strict_run :: "nat \<Rightarrow> (nat \<Rightarrow> 'c sys) \<Rightarrow> bool" where
  "strict_run n \<sigma> \<longleftrightarrow> reach True n (\<sigma> 0) \<and> (\<forall>k. strict_step\<^sup>*\<^sup>* (\<sigma> k) (\<sigma> (Suc k)))"

lemma reach_strict: "strict_step\<^sup>*\<^sup>* s s' \<Longrightarrow> reach True n s \<Longrightarrow> reach True n s'"
  by (induction rule: rtranclp_induct) (auto simp: strict_step_def intro: reach.step)

lemma strict_run_later: "strict_run n \<sigma> \<Longrightarrow> a \<le> b \<Longrightarrow> strict_step\<^sup>*\<^sup>* (\<sigma> a) (\<sigma> b)"
proof (induction b)
  case (Suc b)
  show ?case
  proof (cases "a = Suc b")
    case False
    then have "strict_step\<^sup>*\<^sup>* (\<sigma> a) (\<sigma> b)" using Suc by simp
    moreover have "strict_step\<^sup>*\<^sup>* (\<sigma> b) (\<sigma> (Suc b))" using Suc.prems(1) by (simp add: strict_run_def)
    ultimately show ?thesis by (rule rtranclp_trans)
  qed simp
qed simp

lemma strict_run_reach: "strict_run n \<sigma> \<Longrightarrow> reach True n (\<sigma> k)"
  using strict_run_later [of n \<sigma> 0 k] reach_strict [of "\<sigma> 0" "\<sigma> k" n] by (simp add: strict_run_def)

lemma term_nonneg: "reach True n s \<Longrightarrow> i < n \<Longrightarrow> 0 \<le> currentTerm (node s ! i)"
proof (induction rule: reach.induct)
  case start
  then show ?case by (simp add: sys_init_def Make_def readPersist_def ps.fresh_state Let_def)
next
  case (step s l s')
  obtain a P where "sim False n s a P" using reach_sim [OF step(1)] by blast
  from exec_forward [OF this step(4,2)] show ?case using step(3) step(4) by (simp add: forward_def)
qed

text \<open>
  The readings of \<open>checkOneLeader\<close>: server \<open>i\<close> is read in turn \<open>j\<close> at time \<open>j * n + i\<close> of the run, its term and its
  role at the same moment between two critical sections.
\<close>

definition reads :: "nat \<Rightarrow> (nat \<Rightarrow> 'c sys) \<Rightarrow> ('c, 'a, 'b) config \<Rightarrow> (nat \<Rightarrow> nat \<Rightarrow> 'c reading) \<Rightarrow> bool" where
  "reads n \<sigma> cfg st \<longleftrightarrow> (\<forall>j. \<forall>i < n. connected cfg ! i \<longrightarrow> st j (the (rafts cfg ! i)) = still (node (\<sigma> (j * n + i)) ! i))"

lemma leads_reads:
  "reads n \<sigma> cfg st \<Longrightarrow> i < n \<Longrightarrow> leads (st j) cfg t i \<Longrightarrow> GetState (still (node (\<sigma> (j * n + i)) ! i)) = (t, True)"
  by (auto simp: reads_def leads_def)

text \<open>
  \<open>first_leader n cfg st a j i\<close>: of the turns from \<open>a\<close> to \<open>j\<close>, server \<open>i\<close> leads the newest term of the first turn in which
  any connected server leads, and nobody else leads that term.
\<close>

definition first_leader :: "nat \<Rightarrow> ('c, 'a, 'b) config \<Rightarrow> (nat \<Rightarrow> nat \<Rightarrow> 'c reading) \<Rightarrow> nat \<Rightarrow> nat \<Rightarrow> nat \<Rightarrow> bool" where
  "first_leader n cfg st a j i \<longleftrightarrow> (\<exists>k T. a \<le> k \<and> k \<le> j \<and> i < n \<and> leads (st k) cfg T i \<and>
     (\<forall>k'. a \<le> k' \<and> k' < k \<longrightarrow> (\<forall>i' < n. \<forall>T'. \<not> leads (st k') cfg T' i')) \<and>
     (\<forall>i' < n. \<forall>T'. leads (st k) cfg T' i' \<longrightarrow> T' \<le> T \<and> (T' = T \<longrightarrow> i' = i)))"

lemma first_leader_later:
  assumes "first_leader n cfg st (Suc a) j i" and "\<And>i' T'. i' < n \<Longrightarrow> \<not> leads (st a) cfg T' i'"
  shows "first_leader n cfg st a j i"
proof -
  obtain k T where k: "Suc a \<le> k" "k \<le> j" "i < n" "leads (st k) cfg T i"
      "\<forall>k'. Suc a \<le> k' \<and> k' < k \<longrightarrow> (\<forall>i' < n. \<forall>T'. \<not> leads (st k') cfg T' i')"
      "\<forall>i' < n. \<forall>T'. leads (st k) cfg T' i' \<longrightarrow> T' \<le> T \<and> (T' = T \<longrightarrow> i' = i)"
    using assms(1) unfolding first_leader_def by blast
  have "\<not> leads (st k') cfg T' i'" if "a \<le> k'" "k' < k" "i' < n" for k' i' T'
    using k(5) assms(2) that by (cases "k' = a") auto
  then have "\<forall>k'. a \<le> k' \<and> k' < k \<longrightarrow> (\<forall>i' < n. \<forall>T'. \<not> leads (st k') cfg T' i')" by blast
  then show ?thesis unfolding first_leader_def using k(1) Suc_leD [OF k(1)]
    by (intro exI [of _ k] exI [of _ T] conjI k(2-4,6))
qed

lemma turns_pass:
  assumes sh: "shape cfg" "running_all cfg" "enumerates ord" and n: "cfg_n cfg = n"
    and r: "strict_run n \<sigma>" "reads n \<sigma> cfg st"
    and "iters \<le> j" "j < iters + k" "i < n" "leads (st j) cfg T i"
  shows "\<exists>i'. one_leader_turns ord st cfg iters k = Inr i' \<and> first_leader n cfg st iters j i'"
  using assms(7,8)
proof (induction k arbitrary: iters)
  case (Suc k)
  have pos: "\<forall>i < cfg_n cfg. \<forall>t. leads (st iters) cfg t i \<longrightarrow> 0 \<le> t"
    using leads_reads [OF r(2)] term_nonneg [OF strict_run_reach [OF r(1)]] n by (fastforce simp: GetState_def)
  from sh pos show ?case
  proof (cases rule: one_leader_turn [of cfg ord st iters k])
    case (many t a b)
    have "a = b"
    proof (rule one_leader [OF strict_run_reach [OF r(1)] strict_run_later [OF r(1)]])
      show "iters * n + a \<le> iters * n + b" using many(1) by simp
      show "GetState (still (node (\<sigma> (iters * n + a)) ! a)) = (t, True)"
        "GetState (still (node (\<sigma> (iters * n + b)) ! b)) = (t, True)"
        using leads_reads [OF r(2)] many n by auto
    qed (use many n in auto)
    then show ?thesis using many(1) by simp
  next
    case none
    then have "iters \<noteq> j" using assms(9,10) n by auto
    then obtain i' where "one_leader_turns ord st cfg (Suc iters) k = Inr i'" "first_leader n cfg st (Suc iters) j i'"
      using Suc.IH [of "Suc iters"] Suc.prems by auto
    then show ?thesis using none n first_leader_later [of n cfg st iters j i'] by auto
  next
    case (one U i')
    have "first_leader n cfg st iters j i'"
      unfolding first_leader_def using one Suc.prems(1) n by (intro exI [of _ iters] exI [of _ U]) auto
    then show ?thesis using one(1) by blast
  qed
qed simp

text \<open>
  C28: \<open>checkOneLeader\<close> accepts every group of peers that behaves. If what it reads are states of a strict run,
  each server's term and role at one moment between critical sections, and a connected server leads when it is
  read in turn \<open>j\<close>, the check does not fail and does not panic: it returns the server that, in the first turn in which
  any connected server leads, leads the newest term, alone.
\<close>
theorem checkOneLeader_passes:
  assumes "cfg_reach ms n cfg" and "running_all cfg" and "enumerates ord"
    and "strict_run n \<sigma>" and "reads n \<sigma> cfg st"
    and "j < 10" and "i < n" and "leads (st j) cfg T i"
  shows "\<exists>k T' i'. k \<le> j \<and> checkOneLeader ord st cfg = Inr i' \<and> i' < n \<and> leads (st k) cfg T' i' \<and>
    (\<forall>k' < k. \<forall>a < n. \<forall>U. \<not> leads (st k') cfg U a) \<and>
    (\<forall>a < n. \<forall>U. leads (st k) cfg U a \<longrightarrow> U \<le> T' \<and> (U = T' \<longrightarrow> a = i'))"
proof -
  have sh: "shape cfg" and n: "cfg_n cfg = n" using cfg_reach_linked [OF assms(1)] by (simp_all add: linked_def)
  obtain i' where "one_leader_turns ord st cfg 0 10 = Inr i'" "first_leader n cfg st 0 j i'"
    using turns_pass [OF sh assms(2,3) n assms(4,5), of 0 j 10 i T] assms(6-8) by auto
  then show ?thesis unfolding checkOneLeader_def first_leader_def by (metis le0)
qed

text \<open>The concrete run that elects peer 0, seen by three connected servers.\<close>

definition sorted_terms :: "nat \<Rightarrow> (int \<rightharpoonup> nat list) \<Rightarrow> int list" where
  "sorted_terms k m = sorted_list_of_set (dom m)"

lemma elect_run_roles:
  "(case run True elect_run (sys_init 3) of
      Next s \<Rightarrow> currentTerm (node s ! 0) = 1 \<and> map role (node s) = [2, 0, 0] | _ \<Rightarrow> False)"
  unfolding elect_run_def by code_simp

lemma elected3:
  obtains (cfg) cfg :: "(int, unit, unit) config" and s :: "int sys" where
    "cfg_reach [] 3 cfg" "running_all cfg" "shape cfg" "cfg_n cfg = 3" "reach True 3 s" "strict_run 3 (\<lambda>k. s)"
    "reads 3 (\<lambda>k. s) cfg (\<lambda>j p. still (node s ! p))"
    "\<forall>i < 3. \<forall>t. leads (\<lambda>p. still (node s ! p)) cfg t i \<longleftrightarrow> i = 0 \<and> t = 1"
proof -
  obtain cfg :: "(int, unit, unit) config" where r: "cfg_reach [] 3 cfg"
    and c: "\<And>i. i < 3 \<Longrightarrow> connected cfg ! i \<and> rafts cfg ! i = Some i \<and> endnames cfg ! i \<noteq> None \<and>
       heap cfg i = Some (Make 3 (int i) MakePersister 0 0 0)" using ready3 by blast
  obtain s :: "int sys" where s: "reach True 3 s" "currentTerm (node s ! 0) = 1 \<and> map role (node s) = [2, 0, 0]"
    by (rule run_witness [OF elect_run_roles])
  have len: "length (node s) = 3" using arg_cong [OF conjunct2 [OF s(2)], of length] by simp
  have role: "role (node s ! i) = [2, 0, 0] ! i" if "i < 3" for i using s(2) len that by (metis nth_map)
  have n: "shape cfg" "cfg_n cfg = 3" using cfg_reach_linked [OF r] by (simp_all add: linked_def)
  have "leads (\<lambda>p. still (node s ! p)) cfg t i \<longleftrightarrow> i = 0 \<and> t = 1" if "i < 3" for i t
    using c [OF that] role [OF that] s(2) that by (auto simp: leads_def GetState_def less_Suc_eq numeral_3_eq_3 nth_Cons')
  then have L: "\<forall>i < 3. \<forall>t. leads (\<lambda>p. still (node s ! p)) cfg t i \<longleftrightarrow> i = 0 \<and> t = 1" by blast
  show thesis
    by (rule cfg [OF r _ n s(1) _ _ L]) (use n c s in \<open>auto simp: running_all_def strict_run_def reads_def\<close>)
qed

lemma sorted_terms_enumerates: "enumerates sorted_terms"
  by (simp add: enumerates_def sorted_terms_def)

theorem checkOneLeader_passes_witness:
  "\<exists>(cfg :: (int, unit, unit) config) s. cfg_reach [] 3 cfg \<and> reach True 3 s \<and> leads (\<lambda>p. still (node s ! p)) cfg 1 0 \<and>
     checkOneLeader sorted_terms (\<lambda>j p. still (node s ! p)) cfg = Inr 0"
proof -
  obtain cfg :: "(int, unit, unit) config" and s where w: "cfg_reach [] 3 cfg" "running_all cfg" "shape cfg" "cfg_n cfg = 3"
    "reach True 3 s" "strict_run 3 (\<lambda>k. s)" "reads 3 (\<lambda>k. s) cfg (\<lambda>j p. still (node s ! p))"
    "\<forall>i < 3. \<forall>t. leads (\<lambda>p. still (node s ! p)) cfg t i \<longleftrightarrow> i = 0 \<and> t = 1" by (rule elected3)
  have "leads (\<lambda>p. still (node s ! p)) cfg 1 0" using w(8) [rule_format, of 0 1] by simp
  moreover from checkOneLeader_passes [OF w(1,2) sorted_terms_enumerates w(6,7) _ _ this, of 0]
  have "checkOneLeader sorted_terms (\<lambda>j p. still (node s ! p)) cfg = Inr 0" using w(8) by auto
  ultimately show ?thesis using w(1,5) by blast
qed

theorem checkOneLeader_sound_witness:
  "\<exists>(cfg :: (int, unit, unit) config) (s :: int sys) i T. cfg_reach [] 3 cfg \<and>
     checkOneLeader sorted_terms (\<lambda>j p. still (node s ! p)) cfg = Inr i \<and> i < 3 \<and> leads (\<lambda>p. still (node s ! p)) cfg T i"
proof -
  obtain cfg :: "(int, unit, unit) config" and s where w: "cfg_reach [] 3 cfg" "running_all cfg" "shape cfg" "cfg_n cfg = 3"
    "reach True 3 s" "strict_run 3 (\<lambda>k. s)" "reads 3 (\<lambda>k. s) cfg (\<lambda>j p. still (node s ! p))"
    "\<forall>i < 3. \<forall>t. leads (\<lambda>p. still (node s ! p)) cfg t i \<longleftrightarrow> i = 0 \<and> t = 1" by (rule elected3)
  obtain i where i: "checkOneLeader sorted_terms (\<lambda>j p. still (node s ! p)) cfg = Inr i"
    using turns_pass [OF w(3,2) sorted_terms_enumerates w(4,6,7), of 0 0 10 0 1] w(8) [rule_format, of 0 1] by (auto simp: checkOneLeader_def)
  have pos: "0 \<le> t" if "i < 3" "leads (\<lambda>p. still (node s ! p)) cfg t i" for i t using w(8) [rule_format, OF that(1)] that(2) by simp
  have "\<exists>j T. j < (10 :: nat) \<and> i < 3 \<and> leads (\<lambda>p. still (node s ! p)) cfg T i \<and>
    (\<forall>i' < 3. \<forall>T'. leads (\<lambda>p. still (node s ! p)) cfg T' i' \<longrightarrow> T' \<le> T \<and> (T' = T \<longrightarrow> i' = i))"
    by (rule checkOneLeader_sound [OF w(1,2) sorted_terms_enumerates _ i]) (rule pos)
  then show ?thesis using w(1) i by blast
qed

subsection \<open>Agreement\<close>

text \<open>
  \<open>nCommitted\<close>: how many servers have recorded an entry at an index, and which one. \<open>lg i\<close> is the record of
  server \<open>i\<close> when it is read.
\<close>

fun count_committed ::
  "string list \<Rightarrow> (nat \<Rightarrow> int \<rightharpoonup> int) \<Rightarrow> int \<Rightarrow> nat list \<Rightarrow> int \<Rightarrow> int \<Rightarrow> 'c failure + int \<times> int" where
  "count_committed errs lg index [] cnt cmd = Inr (cnt, cmd)"
| "count_committed errs lg index (i # is) cnt cmd =
     (case slot errs i of
        None \<Rightarrow> Inl Crash
      | Some err \<Rightarrow>
          if err \<noteq> '''' then Inl (ApplyErr err)
          else (case lg i index of
                  None \<Rightarrow> count_committed errs lg index is cnt cmd
                | Some cmd1 \<Rightarrow>
                    if cnt > 0 \<and> cmd \<noteq> cmd1 then Inl (ValuesDiffer index cmd cmd1)
                    else count_committed errs lg index is (cnt + 1) cmd1))"

definition nCommitted :: "(nat \<Rightarrow> int \<rightharpoonup> int) \<Rightarrow> int \<Rightarrow> ('c, 'a, 'b) config \<Rightarrow> 'c failure + int \<times> int" where
  "nCommitted lg index cfg = count_committed (applyErr cfg) lg index [0..<length (rafts cfg)] 0 (-1)"

text \<open>
  \<open>wait\<close>. \<open>lg k\<close> and \<open>st k\<close> are the records and the peers as turn \<open>k\<close> reads them. The second component of the
  result is the time slept, in milliseconds. \<open>startTerm > -1\<close> makes the loop stop when a peer has moved on.
\<close>

fun moved_on :: "(nat \<Rightarrow> 'c reading) \<Rightarrow> int \<Rightarrow> nat option list \<Rightarrow> bool option" where
  "moved_on st startTerm [] = Some False"
| "moved_on st startTerm (None # rs) = None"
| "moved_on st startTerm (Some p # rs) =
     (if fst (GetState (st p)) > startTerm then Some True else moved_on st startTerm rs)"

fun wait_loop ::
  "(nat \<Rightarrow> nat \<Rightarrow> int \<rightharpoonup> int) \<Rightarrow> (nat \<Rightarrow> nat \<Rightarrow> 'c reading) \<Rightarrow> int \<Rightarrow> int \<Rightarrow> int \<Rightarrow> ('c, 'a, 'b) config \<Rightarrow>
   nat \<Rightarrow> nat \<Rightarrow> int \<Rightarrow> int \<Rightarrow> ('c failure + int option) \<times> int" where
  "wait_loop lg st index n startTerm cfg k 0 to slept = (Inr None, slept)"
| "wait_loop lg st index n startTerm cfg k (Suc left) to slept =
     (case nCommitted (lg k) index cfg of
        Inl e \<Rightarrow> (Inl e, slept)
      | Inr (nd, _) \<Rightarrow>
          if nd \<ge> n then (Inr None, slept)
          else
            let slept' = slept + to;
                to' = (if to < 1000 then to * 2 else to)
            in if startTerm > -1 then
                 (case moved_on (st k) startTerm (rafts cfg) of
                    None \<Rightarrow> (Inl Crash, slept')
                  | Some True \<Rightarrow> (Inr (Some (-1)), slept')
                  | Some False \<Rightarrow> wait_loop lg st index n startTerm cfg (Suc k) left to' slept')
               else wait_loop lg st index n startTerm cfg (Suc k) left to' slept')"

definition wait ::
  "(nat \<Rightarrow> nat \<Rightarrow> int \<rightharpoonup> int) \<Rightarrow> (nat \<Rightarrow> nat \<Rightarrow> 'c reading) \<Rightarrow> int \<Rightarrow> int \<Rightarrow> int \<Rightarrow> ('c, 'a, 'b) config \<Rightarrow>
   ('c failure + int) \<times> int" where
  "wait lg st index n startTerm cfg =
     (case wait_loop lg st index n startTerm cfg 0 30 10 0 of
        (Inl e, slept) \<Rightarrow> (Inl e, slept)
      | (Inr (Some v), slept) \<Rightarrow> (Inr v, slept)
      | (Inr None, slept) \<Rightarrow>
          (case nCommitted (lg 30) index cfg of
             Inl e \<Rightarrow> (Inl e, slept)
           | Inr (nd, cmd) \<Rightarrow> (if nd < n then Inl (TooFew (nat nd) index n) else Inr cmd, slept)))"

text \<open>
  \<open>one\<close>. A round is the state of the peers when their \<open>Start\<close> is called and the records of the servers at
  every poll of the two seconds that follow; the rounds end when the ten seconds are over. \<open>index\<close>
  is \<open>-1\<close> in the code as long as no peer has accepted, and \<open>None\<close> here. The result is the index and the addresses of the peers that accepted the command.
\<close>

fun try_start ::
  "(nat \<Rightarrow> int Raft) \<Rightarrow> int \<Rightarrow> (int, 'a, 'b) config \<Rightarrow> nat \<Rightarrow> nat \<Rightarrow> (nat \<times> (nat \<times> int) option) option" where
  "try_start st cmd cfg 0 starts = Some (starts, None)"
| "try_start st cmd cfg (Suc k) starts =
     (let starts' = (starts + 1) mod cfg_n cfg
      in do { c \<leftarrow> slot (connected cfg) starts';
              rf \<leftarrow> (if c then slot (rafts cfg) starts' else Some None);
              (case rf of
                 None \<Rightarrow> try_start st cmd cfg k starts'
               | Some p \<Rightarrow>
                   (let (_, index1, _, accepted) = Start cmd (st p)
                    in if accepted then Some (starts', Some (p, index1)) else try_start st cmd cfg k starts')) })"

fun poll_agreement ::
  "(nat \<Rightarrow> int \<rightharpoonup> int) list \<Rightarrow> int \<Rightarrow> int \<Rightarrow> int \<Rightarrow> (int, 'a, 'b) config \<Rightarrow> int failure + bool" where
  "poll_agreement [] cmd expected index cfg = Inr False"
| "poll_agreement (lg # lgs) cmd expected index cfg =
     (case nCommitted lg index cfg of
        Inl e \<Rightarrow> Inl e
      | Inr (nd, cmd1) \<Rightarrow>
          if nd > 0 \<and> nd \<ge> expected \<and> cmd1 = cmd then Inr True
          else poll_agreement lgs cmd expected index cfg)"

fun one ::
  "((nat \<Rightarrow> int Raft) \<times> (nat \<Rightarrow> int \<rightharpoonup> int) list) list \<Rightarrow> int \<Rightarrow> int \<Rightarrow> (int, 'a, 'b) config \<Rightarrow> nat \<Rightarrow> nat list \<Rightarrow>
   int failure + int \<times> nat list" where
  "one [] cmd expected cfg starts subs = Inl (NoAgreement cmd)"
| "one ((st, lgs) # rounds) cmd expected cfg starts subs =
     (case try_start st cmd cfg (cfg_n cfg) starts of
        None \<Rightarrow> Inl Crash
      | Some (starts', None) \<Rightarrow> one rounds cmd expected cfg starts' subs
      | Some (starts', Some (p, index)) \<Rightarrow>
          (case poll_agreement lgs cmd expected index cfg of
             Inl e \<Rightarrow> Inl e
           | Inr True \<Rightarrow> Inr (index, subs @ [p])
           | Inr False \<Rightarrow> one rounds cmd expected cfg starts' (subs @ [p])))"

text \<open>What a count that succeeds says.\<close>

lemma count_committed_Inr:
  assumes "count_committed errs lg index is cnt cmd = Inr (c, v)" and "0 \<le> cnt"
  shows "c = cnt + int (length (filter (\<lambda>i. lg i index \<noteq> None) is)) \<and>
    (\<forall>i \<in> set is. \<forall>w. lg i index = Some w \<longrightarrow> w = v) \<and> (0 < cnt \<longrightarrow> v = cmd) \<and> (c = cnt \<longrightarrow> v = cmd)"
  using assms
proof (induction errs lg index "is" cnt cmd rule: count_committed.induct)
  case (2 errs lg index i "is" cnt cmd)
  obtain err where err: "slot errs i = Some err" "\<not> err \<noteq> []" using 2(3) by (auto split: option.splits if_splits)
  show ?case
  proof (cases "lg i index")
    case None
    then show ?thesis using 2(1) [OF err None] 2(3,4) err by simp
  next
    case (Some w)
    then have "\<not> (cnt > 0 \<and> cmd \<noteq> w)" using 2(3) err by (auto split: if_splits)
    then show ?thesis using 2(2) [OF err Some] 2(3,4) err Some by auto
  qed
qed simp

text \<open>The servers that have recorded \<open>v\<close> at an index, and the agreement of all of them.\<close>

definition recorded :: "(nat \<Rightarrow> int \<rightharpoonup> int) \<Rightarrow> nat \<Rightarrow> int \<Rightarrow> int \<Rightarrow> nat set" where
  "recorded lg n index v = {i. i < n \<and> lg i index = Some v}"

lemma nCommitted_Inr:
  assumes "shape cfg" and "nCommitted lg index cfg = Inr (nd, v)"
  shows "nd = int (card (recorded lg (cfg_n cfg) index v))" and "\<And>i w. i < cfg_n cfg \<Longrightarrow> lg i index = Some w \<Longrightarrow> w = v"
    and "nd = 0 \<Longrightarrow> v = -1"
proof -
  note C = count_committed_Inr [OF assms(2) [unfolded nCommitted_def]]
  have c: "nd = int (length (filter (\<lambda>i. lg i index \<noteq> None) [0..<cfg_n cfg]))"
    "\<And>i w. i < cfg_n cfg \<Longrightarrow> lg i index = Some w \<Longrightarrow> w = v" "nd = 0 \<Longrightarrow> v = -1"
    using C shapeD(1) [OF assms(1)] by auto
  have "length (filter (\<lambda>i. lg i index \<noteq> None) [0..<cfg_n cfg]) = card (set (filter (\<lambda>i. lg i index \<noteq> None) [0..<cfg_n cfg]))"
    by (rule distinct_card [symmetric]) simp
  also have "set (filter (\<lambda>i. lg i index \<noteq> None) [0..<cfg_n cfg]) = recorded lg (cfg_n cfg) index v"
    using c(2) by (auto simp: recorded_def)
  finally show "nd = int (card (recorded lg (cfg_n cfg) index v))" using c(1) by simp
  show "i < cfg_n cfg \<Longrightarrow> lg i index = Some w \<Longrightarrow> w = v" for i w by (rule c(2))
  show "nd = 0 \<Longrightarrow> v = -1" by (rule c(3))
qed

text \<open>The sleeping times double until they exceed a second.\<close>

lemma wait_loop_slept:
  assumes "to = 10 * 2 ^ k" and "k \<le> 7"
  shows "slept \<le> snd (wait_loop lg st index n startTerm cfg j left to slept) \<and>
    snd (wait_loop lg st index n startTerm cfg j left to slept) \<le> slept + (\<Sum>i < left. 10 * 2 ^ min (k + i) 7)"
  using assms
proof (induction left arbitrary: j k to slept)
  case (Suc left)
  let ?to = "if to < 1000 then to * 2 else to"
  obtain k' where k': "?to = 10 * 2 ^ k'" "k' \<le> 7" "\<And>i. min (k' + i) 7 = min (k + Suc i) 7"
  proof (cases "k = 7")
    case True
    then show thesis using that [of 7] Suc.prems by simp
  next
    case False
    then have "k \<le> 6" using Suc.prems by simp
    then have "(2 :: int) ^ k \<le> 2 ^ 6" by (intro power_increasing) simp_all
    then show thesis using that [of "Suc k"] Suc.prems \<open>k \<le> 6\<close> by simp
  qed
  have b: "(\<Sum>i < Suc left. (10 :: int) * 2 ^ min (k + i) 7) = to + (\<Sum>i < left. 10 * 2 ^ min (k' + i) 7)"
    unfolding k'(3) sum.lessThan_Suc_shift using Suc.prems by simp
  have pos: "0 \<le> to" "0 \<le> (\<Sum>i < left. (10 :: int) * 2 ^ min (k' + i) 7)" using Suc.prems by (auto intro: sum_nonneg)
  note IH = Suc.IH [OF k'(1,2), of "slept + to" "Suc j"]
  show ?case unfolding b using IH pos
    by (auto simp: Let_def split: sum.splits prod.splits option.splits bool.splits)
qed simp

text \<open>
  C29: \<open>wait\<close> ends: whatever the peers do, it sleeps for at most 30.71 seconds.
\<close>
theorem wait_bounded: "0 \<le> snd (wait lg st index n startTerm cfg) \<and> snd (wait lg st index n startTerm cfg) \<le> 30710"
proof -
  have "(\<Sum>i < 30. (10 :: int) * 2 ^ min (0 + i) 7) = 30710" by (simp add: numeral_eq_Suc sum.lessThan_Suc)
  moreover have "snd (wait lg st index n startTerm cfg) = snd (wait_loop lg st index n startTerm cfg 0 30 10 0)"
    by (auto simp: wait_def split: prod.splits sum.splits option.splits)
  ultimately show ?thesis
    using wait_loop_slept [of 10 0 0 lg st index n startTerm cfg 0 30] by (simp only: power_0 mult_1_right) simp
qed

text \<open>
  What \<open>wait\<close> returns. A command is returned only when at least \<open>n\<close> servers have recorded it at the
  index and no server has recorded another one; otherwise the result is \<open>-1\<close>, and then the caller asked to
  stop when a term newer than \<open>startTerm\<close> shows, and one did.
\<close>
theorem wait_sound:
  assumes "shape cfg" and "0 < n" and "fst (wait lg st index n startTerm cfg) = Inr v"
  shows "(n \<le> int (card (recorded (lg 30) (cfg_n cfg) index v)) \<and>
      (\<forall>i < cfg_n cfg. \<forall>w. lg 30 i index = Some w \<longrightarrow> w = v)) \<or>
    (v = -1 \<and> -1 < startTerm \<and> (\<exists>k < 30. \<exists>p. Some p \<in> set (rafts cfg) \<and> startTerm < currentTerm (fst (st k p))))"
proof -
  have moved: "\<exists>p. Some p \<in> set rs \<and> startTerm < currentTerm (fst (st' p))" if "moved_on st' startTerm rs = Some True" for st' rs
    using that by (induction st' startTerm rs rule: moved_on.induct) (auto simp: GetState_def split: if_splits)
  have loop: "x = -1 \<and> -1 < startTerm \<and> (\<exists>k < j + left. \<exists>p. Some p \<in> set (rafts cfg) \<and> startTerm < currentTerm (fst (st k p)))"
    if "wait_loop lg st index n startTerm cfg j left to slept = (Inr (Some x), t)" for j left to slept x t
    using that
  proof (induction left arbitrary: j to slept)
    case (Suc left)
    then consider (stop) "-1 < startTerm" "x = -1" "moved_on (st j) startTerm (rafts cfg) = Some True"
      | (go) to' slept' where "wait_loop lg st index n startTerm cfg (Suc j) left to' slept' = (Inr (Some x), t)"
      by (auto simp: Let_def split: sum.splits prod.splits option.splits bool.splits if_splits)
    then show ?case
    proof cases
      case stop
      moreover have "j < j + Suc left" by simp
      ultimately show ?thesis using moved [OF stop(3)] by blast
    next
      case go
      then show ?thesis using Suc.IH [OF go] by simp
    qed
  qed simp
  obtain r t where r: "wait_loop lg st index n startTerm cfg 0 30 10 0 = (r, t)" by (cases "wait_loop lg st index n startTerm cfg 0 30 10 0")
  show ?thesis
  proof (cases r)
    case (Inl e)
    then show ?thesis using assms(3) r by (simp add: wait_def)
  next
    case (Inr o')
    show ?thesis
    proof (cases o')
      case None
      then obtain nd where nd: "nCommitted (lg 30) index cfg = Inr (nd, v)" "n \<le> nd"
        using assms(3) r Inr by (auto simp: wait_def split: sum.splits prod.splits if_splits)
      show ?thesis using nCommitted_Inr(1,2) [OF assms(1) nd(1)] nd(2) by blast
    next
      case (Some x)
      then show ?thesis using loop [of 0 30 10 0 x t] assms(3) r Inr by (simp add: wait_def)
    qed
  qed
qed

text \<open>A server that \<open>try_start\<close> finds leads and appends the command at the index.\<close>

lemma try_start_found:
  assumes "try_start st cmd cfg k starts = Some (starts', Some (p, index))"
  shows "\<exists>i. i < length (connected cfg) \<and> connected cfg ! i \<and> i < length (rafts cfg) \<and> rafts cfg ! i = Some p \<and>
    role (st p) = 2 \<and> index = int (length (logs (st p))) + 1"
  using assms
proof (induction st cmd cfg k starts rule: try_start.induct)
  case (2 st cmd cfg k starts)
  let ?s = "Suc starts mod cfg_n cfg"
  obtain c where c: "slot (connected cfg) ?s = Some c" using 2(3) by (auto simp: Let_def split: bind_splits)
  obtain rf where rf: "(if c then slot (rafts cfg) ?s else Some None) = Some rf" using 2(3) c by (auto simp: Let_def split: bind_splits)
  note c' = c [unfolded Suc_eq_plus1] and rf' = rf [unfolded Suc_eq_plus1]
  show ?case
  proof (cases rf)
    case None
    then show ?thesis using 2(1) [OF refl c' rf' None] 2(3) c rf by (simp add: Let_def)
  next
    case (Some q)
    then have q: "?s < length (connected cfg)" "connected cfg ! ?s" "?s < length (rafts cfg)" "rafts cfg ! ?s = Some q"
      using c rf by (auto simp: go_panic split: if_splits)
    show ?thesis
    proof (cases "role (st q) = 2")
      case True
      then have "p = q" "index = int (length (logs (st q))) + 1" using 2(3) c rf Some by (auto simp: Let_def Start_def)
      then show ?thesis using q True by blast
    next
      case False
      then show ?thesis using 2(2) [OF refl c' rf' Some] 2(3) c rf Some by (simp add: Let_def Start_def)
    qed
  qed
qed simp

lemma poll_agreement_True:
  assumes "shape cfg" and "poll_agreement lgs cmd expected index cfg = Inr True"
  shows "\<exists>lg \<in> set lgs. expected \<le> int (card (recorded lg (cfg_n cfg) index cmd)) \<and> recorded lg (cfg_n cfg) index cmd \<noteq> {} \<and>
    (\<forall>i < cfg_n cfg. \<forall>w. lg i index = Some w \<longrightarrow> w = cmd)"
  using assms(2)
proof (induction lgs)
  case (Cons lg lgs)
  obtain nd v where n: "nCommitted lg index cfg = Inr (nd, v)" using Cons.prems by (auto split: sum.splits)
  show ?case
  proof (cases "nd > 0 \<and> nd \<ge> expected \<and> v = cmd")
    case True
    note N = nCommitted_Inr [OF assms(1) n]
    have "recorded lg (cfg_n cfg) index cmd \<noteq> {}" using N(1) True by auto
    then show ?thesis using N(1,2) True by auto
  next
    case False
    then show ?thesis using Cons n by auto
  qed
qed simp

text \<open>
  What \<open>one\<close> guarantees. When it returns an index, the command was handed to a connected server that led
  and appended it at that index, and then at one poll at least the expected number of servers, and at least
  one, had recorded the command there, and no server had recorded another command there.
\<close>
theorem one_sound:
  assumes "shape cfg" and "one rounds cmd expected cfg starts subs = Inr (index, subs')"
  shows "\<exists>(st, lgs) \<in> set rounds.
    (\<exists>i < cfg_n cfg. connected cfg ! i \<and> rafts cfg ! i = Some (last subs') \<and> role (st (last subs')) = 2 \<and>
       index = int (length (logs (st (last subs')))) + 1) \<and>
    (\<exists>lg \<in> set lgs. expected \<le> int (card (recorded lg (cfg_n cfg) index cmd)) \<and> recorded lg (cfg_n cfg) index cmd \<noteq> {} \<and>
       (\<forall>i < cfg_n cfg. \<forall>w. lg i index = Some w \<longrightarrow> w = cmd))"
  using assms(2)
proof (induction rounds arbitrary: starts subs)
  case (Cons rd rounds)
  obtain st lgs where rd: "rd = (st, lgs)" by (cases rd)
  obtain starts' f where t: "try_start st cmd cfg (cfg_n cfg) starts = Some (starts', f)"
    using Cons.prems rd by (auto split: option.splits)
  consider (found) p where "f = Some (p, index)" "poll_agreement lgs cmd expected index cfg = Inr True" "subs' = subs @ [p]"
    | (again) subs1 where "one rounds cmd expected cfg starts' subs1 = Inr (index, subs')"
    using Cons.prems rd t by (auto split: option.splits prod.splits sum.splits bool.splits)
  then show ?case
  proof cases
    case found
    then have t': "try_start st cmd cfg (cfg_n cfg) starts = Some (starts', Some (p, index))" using t by simp
    show ?thesis
      using try_start_found [OF t'] poll_agreement_True [OF assms(1) found(2)] rd found(3) shapeD(1) [OF assms(1)] by auto
  next
    case again
    then show ?thesis using Cons.IH [OF again] by auto
  qed
qed simp

text \<open>Three servers that have all recorded command 7 at index 1.\<close>

definition three :: "(int, unit, unit) config" where
  "three = (config0 3)\<lparr>connected := replicate 3 True, rafts := [Some 0, Some 1, Some 2]\<rparr>"

definition all_seven :: "nat \<Rightarrow> int \<rightharpoonup> int" where
  "all_seven i = [1 \<mapsto> 7]"

definition a_leader :: "nat \<Rightarrow> int Raft" where
  "a_leader p = (Make 3 (int p) MakePersister 0 0 0)\<lparr>role := (if p = 2 then 2 else 0)\<rparr>"

lemma shape_three: "shape three"
  by (simp add: shape_def three_def config0_def)

theorem wait_sound_witness:
  "wait (\<lambda>k. all_seven) (\<lambda>k p. still (a_leader p)) 1 2 0 three = (Inr 7, 0) \<and> 2 \<le> int (card (recorded all_seven 3 1 7))"
proof -
  have w: "wait (\<lambda>k. all_seven) (\<lambda>k p. still (a_leader p)) 1 2 0 three = (Inr 7, 0)" by code_simp
  then show ?thesis using wait_sound [OF shape_three, of 2 "\<lambda>k. all_seven" "\<lambda>k p. still (a_leader p)" 1 0 7]
    by (auto simp: three_def config0_def)
qed

theorem one_sound_witness:
  "one [(a_leader, [\<lambda>i. Map.empty, all_seven])] 7 3 three 0 [] = Inr (1, [2]) \<and> 3 \<le> int (card (recorded all_seven 3 1 7))"
proof -
  have w: "one [(a_leader, [\<lambda>i. Map.empty, all_seven])] 7 3 three 0 [] = Inr (1, [2])" by code_simp
  have e: "recorded (\<lambda>i. Map.empty) 3 1 7 = {}" by (simp add: recorded_def)
  show ?thesis using w one_sound [OF shape_three w] e by (auto simp: three_def config0_def)
qed

end
