(* ===== verification/Raft_Readers.thy ===== *)
theory Raft_Readers
  imports Raft_Checks
begin

text \<open>
  The group of peers together with the goroutines that read their apply channels
  (\<^verbatim>\<open>src/raft/config.go\<close>, \<open>start1\<close>). Every instance of a peer has its own channel and reader, which may lag
  behind; a reader of an instance that has crashed may still be working. In ordered runs no reader ever
  reports an error: neither two different commands at an index, nor an entry out of order.
\<close>

subsection \<open>What a critical section delivers\<close>

text \<open>
  The messages go out in the order of their indexes, starting after the commit index; the new commit
  index is not beyond them, nor are they beyond it.
\<close>

definition delivers :: "'c Raft \<Rightarrow> 'c Raft \<Rightarrow> bool" where
  "delivers rf rf' \<longleftrightarrow>
     (\<exists>ms. applyCh rf' = applyCh rf @ ms \<and> map Index ms = [commitIndex rf + 1..commitIndex rf + int (length ms)] \<and>
        (\<forall>m \<in> set ms. \<not> UseSnapshot m) \<and> commitIndex rf' \<le> commitIndex rf + int (length ms) \<and>
        (\<forall>m \<in> set ms. Index m \<le> commitIndex rf'))"

lemma deliversI:
  "applyCh rf' = applyCh rf @ ms \<Longrightarrow> map Index ms = [commitIndex rf + 1..commitIndex rf + int (length ms)] \<Longrightarrow>
   \<forall>m \<in> set ms. \<not> UseSnapshot m \<Longrightarrow> commitIndex rf' \<le> commitIndex rf + int (length ms) \<Longrightarrow>
   \<forall>m \<in> set ms. Index m \<le> commitIndex rf' \<Longrightarrow> delivers rf rf'"
  by (auto simp: delivers_def)

lemma delivers_same: "applyCh rf' = applyCh rf \<Longrightarrow> commitIndex rf' = commitIndex rf \<Longrightarrow> delivers rf rf'"
  by (rule deliversI [of _ _ "[]"]) simp_all

lemma apply_range_index:
  "apply_range l lo hi = Some ms \<Longrightarrow> map Index ms = [lo + 1..hi] \<and> (\<forall>m \<in> set ms. \<not> UseSnapshot m)"
proof (induction l lo hi arbitrary: ms rule: apply_range.induct)
  case (1 l lo hi)
  show ?case
  proof (cases "lo < hi")
    case True
    then obtain e ms' where e: "go_nth l lo = Some e" "apply_range l (lo + 1) hi = Some ms'"
      "ms = \<lparr>Index = lo + 1, Command = ecommand e, UseSnapshot = False\<rparr> # ms'"
      using 1(2) by (auto simp: apply_range.simps [of l lo hi] split: bind_splits)
    moreover have "[lo + 1..hi] = (lo + 1) # [lo + 1 + 1..hi]" using True by (simp add: upto.simps)
    ultimately show ?thesis using 1(1) [OF True e(1,2)] by simp
  next
    case False
    then show ?thesis using 1(2) by (simp add: apply_range.simps [of l lo hi])
  qed
qed

lemma upto_length: "map Index ms = [lo + 1..hi] \<Longrightarrow> [lo + 1..lo + int (length ms)] = [lo + 1..hi] \<and> hi \<le> lo + int (length ms)"
  by (drule arg_cong [where f = length]) (cases "lo \<le> hi"; simp)

lemma upto_le: "map Index ms = [lo + 1..hi] \<Longrightarrow> \<forall>m \<in> set ms. Index m \<le> hi"
  by (drule arg_cong [where f = set]) auto

lemma delivers_AppendEntries:
  assumes "AppendEntries now args rf = Some (rf', rep)"
  shows "delivers rf rf'"
proof -
  consider "applyCh rf' = applyCh rf" "commitIndex rf' = commitIndex rf"
    | l ms where "apply_range l (commitIndex rf) (LeaderCommit args) = Some ms" "applyCh rf' = applyCh rf @ ms"
      "commitIndex rf' = LeaderCommit args"
    using assms by (auto simp: AppendEntries_def Let_def split: bind_splits if_splits)
  then show ?thesis
  proof cases
    case (2 l ms)
    note R = apply_range_index [OF 2(1)]
    show ?thesis by (rule deliversI [OF 2(2)]) (use R upto_length [OF R [THEN conjunct1]] upto_le [OF R [THEN conjunct1]] 2(3) in auto)
  qed (rule delivers_same)
qed

text \<open>The commit loop of a leader stays in step: it delivers exactly up to its new commit index.\<close>

lemma commit_loop_delivers:
  "commit_loop iter rf = Some rf' \<Longrightarrow> commitIndex rf \<le> iter \<Longrightarrow>
   \<exists>ms. applyCh rf' = applyCh rf @ ms \<and> map Index ms = [commitIndex rf + 1..commitIndex rf'] \<and>
     (\<forall>m \<in> set ms. \<not> UseSnapshot m) \<and> commitIndex rf \<le> commitIndex rf'"
proof (induction iter rf arbitrary: rf' rule: commit_loop.induct)
  case (1 iter rf)
  consider (stop) "rf' = rf"
    | (old) e where "iter < int (length (logs rf))" "go_nth (logs rf) iter = Some e" "eterm e < currentTerm rf"
        "commit_loop (iter + 1) rf = Some rf'"
    | (yes) e cnt ms where "iter < int (length (logs rf))" "go_nth (logs rf) iter = Some e" "\<not> eterm e < currentTerm rf"
        "count_match rf iter [0..<npeers rf] 1 = Some cnt" "cnt * 2 > int (npeers rf)"
        "apply_range (logs rf) (commitIndex rf) (iter + 1) = Some ms"
        "commit_loop (iter + 1) (rf\<lparr>commitIndex := if commitIndex rf \<le> iter then iter + 1 else commitIndex rf,
           applyCh := applyCh rf @ ms\<rparr>) = Some rf'"
    using 1(3) by (subst (asm) commit_loop.simps) (auto split: bind_splits if_splits)
  then show ?case
  proof cases
    case stop
    then show ?thesis by simp
  next
    case old
    then show ?thesis using 1(1) [OF old(1-4)] 1(4) by simp
  next
    case yes
    have "\<exists>ms'. applyCh rf' = (applyCh rf @ ms) @ ms' \<and> map Index ms' = [iter + 1 + 1..commitIndex rf'] \<and>
        (\<forall>m \<in> set ms'. \<not> UseSnapshot m) \<and> iter + 1 \<le> commitIndex rf'"
      using 1(2) [OF yes] 1(4) by simp
    then obtain ms' where ms': "applyCh rf' = applyCh rf @ ms @ ms'" "map Index ms' = [iter + 1 + 1..commitIndex rf']"
      "\<forall>m \<in> set ms'. \<not> UseSnapshot m" "iter + 1 \<le> commitIndex rf'" by auto
    note R = apply_range_index [OF yes(6)]
    have "map Index (ms @ ms') = [commitIndex rf + 1..commitIndex rf']"
      using R ms'(2,4) upto_split2 [of "commitIndex rf + 1" "iter + 1" "commitIndex rf'"] 1(4) by simp
    then show ?thesis using R ms' 1(4) by (intro exI [of _ "ms @ ms'"]) auto
  qed
qed

lemma delivers_handlers:
  "RequestVote now rargs rf = (rf', rep) \<Longrightarrow> delivers rf rf'"
  "currentTerm rf < T \<Longrightarrow> delivers rf (step_down T rf)"
  "count_vote rargs acc a rf = (rf', a', lead) \<Longrightarrow> delivers rf rf'"
  "delivers rf (become_candidate rnd rf)"
  "delivers rf (fst (Start cmd rf))"
  "adjust_next j args rep' rf = Some rf' \<Longrightarrow> delivers rf rf'"
  "build_append j rf = Some (rf', args') \<Longrightarrow> delivers rf rf'"
  "submit_reply j args acc rf = Some rf' \<Longrightarrow> delivers rf rf'"
proof -
  show "RequestVote now rargs rf = (rf', rep) \<Longrightarrow> delivers rf rf'"
    by (rule delivers_same) (auto simp: RequestVote_def Let_def split: if_splits prod.splits)
  show "count_vote rargs acc a rf = (rf', a', lead) \<Longrightarrow> delivers rf rf'"
    by (rule delivers_same) (auto simp: count_vote_def Let_def split: if_splits)
  show "adjust_next j args rep' rf = Some rf' \<Longrightarrow> delivers rf rf'"
    by (rule delivers_same) (auto dest: adjust_next_same)
  show "build_append j rf = Some (rf', args') \<Longrightarrow> delivers rf rf'"
    by (rule delivers_same) (auto simp: build_append_def Let_def split: if_splits bind_splits)
  show "submit_reply j args acc rf = Some rf' \<Longrightarrow> delivers rf rf'"
  proof (cases "acc \<and> aeTerm args = currentTerm rf \<and> role rf = 2")
    case True
    assume "submit_reply j args acc rf = Some rf'"
    then obtain mx where "commit_loop (commitIndex rf) (rf\<lparr>matchIndex := mx\<rparr>) = Some rf'"
      using True by (auto simp: submit_reply_def split: bind_splits)
    from commit_loop_delivers [OF this] obtain ms where ms: "applyCh rf' = applyCh rf @ ms"
      "map Index ms = [commitIndex rf + 1..commitIndex rf']" "\<forall>m \<in> set ms. \<not> UseSnapshot m" by auto
    show ?thesis by (rule deliversI [OF ms(1)]) (use ms upto_length [OF ms(2)] upto_le [OF ms(2)] in auto)
  qed (auto simp: submit_reply_def delivers_same)
qed (auto simp: Start_def Let_def intro: delivers_same)

text \<open>One step of the system: every peer delivers, except one that is restarted, whose channel is new.\<close>

lemma handle_delivers:
  assumes "handle True now pk s = Next s'"
  shows "inc s' = inc s \<and> (node s' = node s \<or> (\<exists>k rf. node s' = (node s)[k := rf] \<and> delivers (node s ! k) rf))"
  using assms
  by (cases pk)
    (auto simp: send_def put_def split: if_splits prod.splits option.splits
      dest: delivers_handlers(1,2,3,6-8) delivers_AppendEntries)

lemma delivers_node:
  assumes "node s' = (node s)[k := rf]" and "delivers (node s ! k) rf"
  shows "delivers (node s ! i) (node s' ! i)"
  using assms by (cases "k < length (node s)"; cases "i = k")
    (auto simp: nth_list_update list_update_beyond delivers_same)

lemma exec_delivers:
  assumes ex: "exec True l s = Next s'" and len: "length (inc s) = length (node s)"
  shows "inc s' = inc s \<and> delivers (node s ! i) (node s' ! i) \<or>
    (\<exists>k. k < length (node s) \<and> inc s' = (inc s)[k := inc s ! k + 1] \<and> applyCh (node s' ! k) = [] \<and> commitIndex (node s' ! k) = 0 \<and>
       (\<forall>j. j \<noteq> k \<longrightarrow> node s' ! j = node s ! j))"
proof (cases l)
  case (Timeout k rnd)
  then have "inc s' = inc s" "node s' = (node s)[k := become_candidate rnd (node s ! k)]"
    using ex by (auto simp: put_def split: if_splits)
  then show ?thesis using delivers_node [of s' s k, OF _ delivers_handlers(4), of _ i] by simp
next
  case (Submit k cmd)
  then have "inc s' = inc s" "node s' = (node s)[k := fst (Start cmd (node s ! k))]"
    using ex by (auto simp: put_def split: if_splits)
  then show ?thesis using delivers_node [of s' s k, OF _ delivers_handlers(5), of _ i] by simp
next
  case (Restart k now r1 r2)
  then have "k < length (node s)" "inc s' = (inc s)[k := inc s ! k + 1]" "node s' = (node s)[k := restart (node s ! k) now r1 r2]"
    using ex by (auto simp: put_def split: if_splits)
  moreover have "applyCh (restart rf now r1 r2) = []" "commitIndex (restart rf now r1 r2) = 0" for rf :: "'a Raft"
    by (simp_all add: restart_def Make_def readPersist_def Let_def split: prod.splits)
  ultimately show ?thesis by (intro disjI2 exI [of _ k]) simp
next
  case (Handle k now)
  then have h: "handle True now (flight s ! k) (drop_packet k s) = Next s'" using ex by (simp split: if_splits)
  then show ?thesis using handle_delivers [OF h] delivers_node [of s' s] by (auto simp: drop_packet_def delivers_same)
qed (use ex in \<open>auto simp: send_def drop_packet_def delivers_same split: if_splits\<close>)

subsection \<open>The peers and their readers\<close>

text \<open>
  \<open>Q i c\<close> is what is under way in the channel of instance \<open>c\<close> of server \<open>i\<close>, and \<open>L\<close> is \<open>cfg.logs\<close>. A step of
  the peers puts the messages it delivers into the channels; a reader takes the first message of its
  channel and checks it.
\<close>

type_synonym 'c queues = "nat \<Rightarrow> nat \<Rightarrow> 'c ApplyMsg list"

definition push :: "'c sys \<Rightarrow> 'c sys \<Rightarrow> 'c queues \<Rightarrow> 'c queues" where
  "push s s' Q = (\<lambda>i c. if i < length (node s) \<and> inc s ! i = c \<and> inc s' ! i = c
     then Q i c @ drop (length (applyCh (node s ! i))) (applyCh (node s' ! i)) else Q i c)"

inductive readers_step ::
  "int sys \<times> int queues \<times> (int \<rightharpoonup> int) list \<Rightarrow> int sys \<times> int queues \<times> (int \<rightharpoonup> int) list \<Rightarrow> bool" where
  work: "in_order l s \<Longrightarrow> exec True l s = Next s' \<Longrightarrow> readers_step (s, Q, L) (s', push s s' Q, L)"
| read: "Q i c = m # q \<Longrightarrow> apply_check Some i m L = (None, L') \<Longrightarrow> readers_step (s, Q, L) (s, Q(i := (Q i)(c := q)), L')"

text \<open>A channel whose messages fit to what its server has recorded.\<close>

fun chain :: "int set \<Rightarrow> 'c ApplyMsg list \<Rightarrow> bool" where
  "chain D [] = True"
| "chain D (m # q) \<longleftrightarrow> (1 < Index m \<longrightarrow> Index m - 1 \<in> D) \<and> chain (insert (Index m) D) q"

lemma chain_mono: "chain D q \<Longrightarrow> D \<subseteq> D' \<Longrightarrow> chain D' q"
proof (induction D q arbitrary: D' rule: chain.induct)
  case (2 D m q)
  then show ?case using "2.IH" [of "insert (Index m) D'"] by auto
qed simp

lemma chain_append: "chain D (q @ r) \<longleftrightarrow> chain D q \<and> chain (D \<union> Index ` set q) r"
  by (induction D q rule: chain.induct) auto

lemma chain_upto:
  "map Index ms = [c + 1..c + int (length ms)] \<Longrightarrow> \<forall>x. 1 \<le> x \<and> x \<le> c \<longrightarrow> x \<in> D \<Longrightarrow> chain D ms"
proof (induction ms arbitrary: c D)
  case (Cons m ms)
  have "[c + 1..c + int (length (m # ms))] = (c + 1) # [c + 1 + 1..c + 1 + int (length ms)]"
    by (subst upto.simps) (simp add: add.assoc)
  then have m: "Index m = c + 1" "map Index ms = [c + 1 + 1..c + 1 + int (length ms)]" using Cons.prems(1) by auto
  have "chain (insert (c + 1) D) ms" by (rule Cons.IH [OF m(2)]) (use Cons.prems(2) in force)
  then show ?case using m(1) Cons.prems(2) by auto
qed simp

definition readers_inv :: "nat \<Rightarrow> int sys \<Rightarrow> int queues \<Rightarrow> (int \<rightharpoonup> int) list \<Rightarrow> int spec \<Rightarrow> bool" where
  "readers_inv n s Q L a \<longleftrightarrow> length L = n \<and>
     (\<forall>i c. \<forall>m \<in> set (Q i c). i < n \<and> delivered n a m \<and> \<not> UseSnapshot m) \<and>
     (\<forall>i < n. \<forall>x v. (L ! i) x = Some v \<longrightarrow> delivered n a \<lparr>Index = x, Command = v, UseSnapshot = False\<rparr>) \<and>
     (\<forall>i < n. \<forall>c. chain (dom (L ! i)) (Q i c)) \<and>
     (\<forall>i < n. \<forall>c. inc s ! i < c \<longrightarrow> Q i c = []) \<and>
     (\<forall>i < n. \<forall>x. 1 \<le> x \<and> x \<le> commitIndex (node s ! i) \<longrightarrow> x \<in> dom (L ! i) \<union> Index ` set (Q i (inc s ! i)))"

lemma readers_invD:
  assumes "readers_inv n s Q L a"
  shows "length L = n" "m \<in> set (Q i c) \<Longrightarrow> i < n" "m \<in> set (Q i c) \<Longrightarrow> delivered n a m" "m \<in> set (Q i c) \<Longrightarrow> \<not> UseSnapshot m"
    "i < n \<Longrightarrow> (L ! i) x = Some v \<Longrightarrow> delivered n a \<lparr>Index = x, Command = v, UseSnapshot = False\<rparr>"
    "i < n \<Longrightarrow> chain (dom (L ! i)) (Q i c)" "i < n \<Longrightarrow> inc s ! i < c \<Longrightarrow> Q i c = []"
    "i < n \<Longrightarrow> 1 \<le> x \<Longrightarrow> x \<le> commitIndex (node s ! i) \<Longrightarrow> x \<in> dom (L ! i) \<union> Index ` set (Q i (inc s ! i))"
proof -
  note r1 = assms [unfolded readers_inv_def]
  note r2 = r1 [THEN conjunct2] and r3 = r1 [THEN conjunct2, THEN conjunct2]
  note r4 = r3 [THEN conjunct2] and r5 = r3 [THEN conjunct2, THEN conjunct2]
  show "length L = n" by (rule r1 [THEN conjunct1])
  show "m \<in> set (Q i c) \<Longrightarrow> i < n" "m \<in> set (Q i c) \<Longrightarrow> delivered n a m" "m \<in> set (Q i c) \<Longrightarrow> \<not> UseSnapshot m"
    using r2 [THEN conjunct1, rule_format, of m i c] by simp_all
  show "i < n \<Longrightarrow> (L ! i) x = Some v \<Longrightarrow> delivered n a \<lparr>Index = x, Command = v, UseSnapshot = False\<rparr>"
    by (rule r3 [THEN conjunct1, rule_format])
  show "i < n \<Longrightarrow> chain (dom (L ! i)) (Q i c)" by (rule r4 [THEN conjunct1, rule_format])
  show "i < n \<Longrightarrow> inc s ! i < c \<Longrightarrow> Q i c = []" by (rule r5 [THEN conjunct1, rule_format])
  show "i < n \<Longrightarrow> 1 \<le> x \<Longrightarrow> x \<le> commitIndex (node s ! i) \<Longrightarrow> x \<in> dom (L ! i) \<union> Index ` set (Q i (inc s ! i))"
    by (rule r5 [THEN conjunct2, rule_format]) simp_all
qed

lemma readers_invI:
  assumes "length L = n" and "\<And>i c m. m \<in> set (Q i c) \<Longrightarrow> i < n \<and> delivered n a m \<and> \<not> UseSnapshot m"
    and "\<And>i x v. i < n \<Longrightarrow> (L ! i) x = Some v \<Longrightarrow> delivered n a \<lparr>Index = x, Command = v, UseSnapshot = False\<rparr>"
    and "\<And>i c. i < n \<Longrightarrow> chain (dom (L ! i)) (Q i c)" and "\<And>i c. i < n \<Longrightarrow> inc s ! i < c \<Longrightarrow> Q i c = []"
    and "\<And>i x. i < n \<Longrightarrow> 1 \<le> x \<Longrightarrow> x \<le> commitIndex (node s ! i) \<Longrightarrow> x \<in> dom (L ! i) \<union> Index ` set (Q i (inc s ! i))"
  shows "readers_inv n s Q L a"
  unfolding readers_inv_def using assms by blast

text \<open>A message at the head of a channel passes the check.\<close>

lemma head_passes:
  assumes sim: "sim True n s a P" and inv: "readers_inv n s Q L a" and m: "Q i c = m # q"
  shows "fst (apply_check Some i m L) = None"
proof -
  note R = readers_invD [OF inv]
  have i: "i < n" and d: "delivered n a m" and u: "\<not> UseSnapshot m" using R(2-4) [of m i c] m by simp_all
  have "(L ! i) (Index m - 1) \<noteq> None" if "1 < Index m" using R(6) [OF i, of c] m that by auto
  moreover have "old = Command m" if "j < length L" "(L ! j) (Index m) = Some old" for j old
    using delivered_agree [OF simD(4) [OF sim] d R(5) [of j "Index m" old]] that R(1) by simp
  ultimately show ?thesis using apply_check_None(1) [OF u, of Some "Command m" i L] by simp
qed

lemma read_inv:
  assumes inv: "readers_inv n s Q L a" and m: "Q i c = m # q" and ok: "apply_check Some i m L = (None, L')"
  shows "readers_inv n s (Q(i := (Q i)(c := q))) L' a"
proof -
  note R = readers_invD [OF inv]
  have i: "i < n" and d: "delivered n a m" and u: "\<not> UseSnapshot m" using R(2-4) [of m i c] m by simp_all
  have L': "L' = L[i := (L ! i)(Index m \<mapsto> Command m)]" using apply_check_None(2) [OF u, of Some "Command m" i L] ok by simp
  have dom: "dom (L' ! j) = (if j = i then insert (Index m) (dom (L ! j)) else dom (L ! j))" if "j < n" for j
    using that R(1) i by (simp add: L' nth_list_update)
  have sub: "set ((Q(i := (Q i)(c := q))) j e) \<subseteq> set (Q j e)" for j e using m by auto
  show ?thesis
  proof (rule readers_invI)
    show "length L' = n" using R(1) L' by simp
    show "j < n \<and> delivered n a x \<and> \<not> UseSnapshot x" if "x \<in> set ((Q(i := (Q i)(c := q))) j e)" for j e x
      using R(2-4) [of x j e] sub [of j e] that by blast
    show "delivered n a \<lparr>Index = x, Command = v, UseSnapshot = False\<rparr>" if "j < n" "(L' ! j) x = Some v" for j x v
    proof (cases "j = i \<and> x = Index m")
      case True
      then show ?thesis using that d i R(1) by (simp add: L' delivered_def)
    next
      case False
      then show ?thesis using that R(5) [of j x v] i R(1) by (auto simp: L' nth_list_update split: if_splits)
    qed
    show "chain (dom (L' ! j)) ((Q(i := (Q i)(c := q))) j e)" if j: "j < n" for j e
    proof (cases "j = i \<and> e = c")
      case True
      then show ?thesis using R(6) [OF i, of c] m dom [OF i] by simp
    next
      case False
      then have "(Q(i := (Q i)(c := q))) j e = Q j e" by auto
      then show ?thesis using chain_mono [OF R(6) [OF j, of e]] dom [OF j] by auto
    qed
    show "(Q(i := (Q i)(c := q))) j e = []" if "j < n" "inc s ! j < e" for j e
      using R(7) [OF that] m by auto
    show "x \<in> dom (L' ! j) \<union> Index ` set ((Q(i := (Q i)(c := q))) j (inc s ! j))"
      if "j < n" "1 \<le> x" "x \<le> commitIndex (node s ! j)" for j x
      using R(8) [OF that] dom [OF that(1)] m by (cases "j = i \<and> c = inc s ! j") auto
  qed
qed

lemma exec_channel:
  assumes "exec True l s = Next s'" and len: "length (inc s) = length (node s)" and "i < length (node s)"
  obtains (same) ms where "inc s' ! i = inc s ! i" "applyCh (node s' ! i) = applyCh (node s ! i) @ ms"
      "map Index ms = [commitIndex (node s ! i) + 1..commitIndex (node s ! i) + int (length ms)]"
      "\<forall>m \<in> set ms. \<not> UseSnapshot m" "commitIndex (node s' ! i) \<le> commitIndex (node s ! i) + int (length ms)"
  | (restarted) "inc s' ! i = inc s ! i + 1" "commitIndex (node s' ! i) = 0"
  using exec_delivers [OF assms(1,2), of i]
proof (elim disjE exE conjE)
  fix k assume k: "k < length (node s)" "inc s' = (inc s)[k := inc s ! k + 1]" "commitIndex (node s' ! k) = 0"
    "\<forall>j. j \<noteq> k \<longrightarrow> node s' ! j = node s ! j"
  show thesis
  proof (cases "i = k")
    case True
    then show thesis using k len by (intro restarted) auto
  next
    case False
    then have "inc s' ! i = inc s ! i" "delivers (node s ! i) (node s' ! i)" using k delivers_same [of "node s ! i" "node s ! i"] by auto
    then show thesis using same by (auto simp: delivers_def)
  qed
qed (auto simp: delivers_def intro: same)

text \<open>What the step adds to a channel continues its chain, and covers what was committed.\<close>

lemma push_chain:
  assumes "exec True l s = Next s'" and len: "length (inc s) = length (node s)" and i: "i < length (node s)"
    and "chain D (Q i c)" and cov: "\<And>x. 1 \<le> x \<Longrightarrow> x \<le> commitIndex (node s ! i) \<Longrightarrow> x \<in> D \<union> Index ` set (Q i (inc s ! i))"
  shows "chain D (push s s' Q i c)"
proof (cases "inc s ! i = c \<and> inc s' ! i = c")
  case True
  from assms(1) len i show ?thesis
  proof (cases rule: exec_channel)
    case (same ms)
    have "chain (D \<union> Index ` set (Q i c)) ms" by (rule chain_upto [OF same(3)]) (use cov True in blast)
    then show ?thesis using assms(4) same(2) True i by (simp add: push_def chain_append)
  qed (use True in simp)
next
  case False
  then have "push s s' Q i c = Q i c" by (auto simp: push_def)
  then show ?thesis using assms(4) by simp
qed

lemma push_covers:
  assumes "exec True l s = Next s'" and len: "length (inc s) = length (node s)" and i: "i < length (node s)"
    and cov: "\<And>x. 1 \<le> x \<Longrightarrow> x \<le> commitIndex (node s ! i) \<Longrightarrow> x \<in> D \<union> Index ` set (Q i (inc s ! i))"
    and x: "1 \<le> x" "x \<le> commitIndex (node s' ! i)"
  shows "x \<in> D \<union> Index ` set (push s s' Q i (inc s' ! i))"
  using assms(1) len i
proof (cases rule: exec_channel)
  case (same ms)
  have p: "push s s' Q i (inc s' ! i) = Q i (inc s ! i) @ ms" using same(1,2) i by (simp add: push_def)
  show ?thesis
  proof (cases "x \<le> commitIndex (node s ! i)")
    case True
    then show ?thesis using cov [OF x(1)] p by auto
  next
    case False
    then have "x \<in> set [commitIndex (node s ! i) + 1..commitIndex (node s ! i) + int (length ms)]" using x(2) same(5) by simp
    then have "x \<in> Index ` set ms" using same(3) by (metis list.set_map)
    then show ?thesis using p by auto
  qed
qed (use x in simp)

lemma work_inv:
  assumes sim: "sim True n s a P" and inv: "readers_inv n s Q L a" and sim': "sim True n s' b P'" "extends True a b"
    and ex: "exec True l s = Next s'"
  shows "readers_inv n s' (push s s' Q) L b"
proof (rule readers_invI)
  note R = readers_invD [OF inv]
  have len: "length (node s) = n" "length (inc s) = length (node s)" using simD(1,3) [OF sim] by simp_all
  note channel = exec_channel [OF ex len(2), unfolded len(1)]
  show "length L = n" by (rule R(1))
  show "delivered n b \<lparr>Index = x, Command = v, UseSnapshot = False\<rparr>" if "i < n" "(L ! i) x = Some v" for i x v
    by (rule delivered_extends [OF R(5) [OF that] sim'(2)])
  show "push s s' Q i c = []" if i: "i < n" and c: "inc s' ! i < c" for i c
  proof -
    have "inc s ! i < c" using channel [OF i] c by fastforce
    then show ?thesis using R(7) [OF i] by (simp add: push_def)
  qed
  show "i < n \<and> delivered n b m \<and> \<not> UseSnapshot m" if m: "m \<in> set (push s s' Q i c)" for i c m
  proof (cases "m \<in> set (Q i c)")
    case True
    then show ?thesis using R(2-4) [of m i c] delivered_extends [OF _ sim'(2)] by blast
  next
    case False
    then have i: "i < n" "inc s' ! i = inc s ! i" "m \<in> set (drop (length (applyCh (node s ! i))) (applyCh (node s' ! i)))"
      using m len by (auto simp: push_def split: if_splits)
    then have "m \<in> set (applyCh (node s' ! i))" by (auto dest: in_set_dropD)
    then have "delivered n b m" by (rule ordered_pair_self(2) [OF sim'(1) i(1)])
    then show ?thesis using i by (rule_tac channel [OF i(1)]) auto
  qed
  show "chain (dom (L ! i)) (push s s' Q i c)" if i: "i < n" for i c
    by (rule push_chain [OF ex len(2)]) (use i len R(6,8) [OF i] in auto)
  show "x \<in> dom (L ! i) \<union> Index ` set (push s s' Q i (inc s' ! i))"
    if i: "i < n" and x: "1 \<le> x" "x \<le> commitIndex (node s' ! i)" for i x
    by (rule push_covers [OF ex len(2)]) (use i len R(8) [OF i] x in auto)
qed

lemma readers_reach:
  assumes "readers_step\<^sup>*\<^sup>* (sys_init n, \<lambda>i c. [], replicate n Map.empty) z"
  shows "\<exists>a P. sim True n (fst z) a P \<and> readers_inv n (fst z) (fst (snd z)) (snd (snd z)) a"
  using assms
proof (induction rule: rtranclp_induct)
  case base
  obtain a :: "int spec" and P where "sim True n (sys_init n) a P" using ordered_reach_sim [of n "sys_init n"] by blast
  moreover have "commitIndex (node (sys_init n :: int sys) ! i) = 0" if "i < n" for i
    using that by (simp add: sys_init_def Make_def Let_def)
  ultimately show ?case by (auto intro!: readers_invI exI)
next
  case (step y z)
  then obtain a P where a: "sim True n (fst y) a P" "readers_inv n (fst y) (fst (snd y)) (snd (snd y)) a" by blast
  from step.hyps(2) show ?case
  proof (cases rule: readers_step.cases)
    case (work l s s' Q L)
    obtain b P' where b: "sim True n s' b P'" "extends True a b"
      using simulated_exec [of True n s a P l] a(1) work by (auto simp: simulated_def)
    have "readers_inv n s' (push s s' Q) L b" by (rule work_inv [OF _ _ b work(4)]) (use a work in simp_all)
    then show ?thesis using b(1) work(2) by auto
  next
    case (read Q i c m q L L' s)
    then have "sim True n s a P" "readers_inv n s (Q(i := (Q i)(c := q))) L' a"
      using a read_inv [of n s Q L a i c m q L'] by simp_all
    then show ?thesis unfolding read(2) fst_conv snd_conv by blast
  qed
qed

text \<open>
  C9: the readers never complain. In every ordered run of the peers, with readers that lag behind by any
  amount and across crashes, the next message of a channel passes the checks of its reader: no server has
  recorded another command at that index, and the entry before it has been recorded.
\<close>
theorem readers_accept:
  assumes "readers_step\<^sup>*\<^sup>* (sys_init n, \<lambda>i c. [], replicate n Map.empty) (s, Q, L)" and "Q i c = m # q"
  shows "fst (apply_check Some i m L) = None"
proof -
  obtain a P where "sim True n s a P" "readers_inv n s Q L a" using readers_reach [OF assms(1)] by auto
  then show ?thesis by (rule head_passes [where Q = Q and i = i and c = c]) (rule assms(2))
qed

text \<open>As long as no reader turns, a channel holds all that its instance has delivered.\<close>

lemma inc_mono:
  assumes "exec True l s = Next s'" and "length (inc s) = length (node s)"
  shows "inc s ! i \<le> inc s' ! i"
  using exec_delivers [OF assms, of i]
proof (elim disjE exE conjE)
  fix k assume "inc s' = (inc s)[k := inc s ! k + 1]"
  then show ?thesis by (cases "k < length (inc s)"; cases "i = k") (simp_all add: list_update_beyond)
qed simp

lemma ordered_run_inc:
  "ordered_run ls s = Next s' \<Longrightarrow> sim True n s a P \<Longrightarrow> inc s ! i \<le> inc s' ! i"
proof (induction ls arbitrary: s a P)
  case (Cons l ls)
  then obtain t where t: "in_order l s" "exec True l s = Next t" "ordered_run ls t = Next s'"
    by (auto split: if_splits outcome.splits)
  obtain b P' where "sim True n t b P'" using simulated_exec [OF Cons.prems(2), of l] t by (auto simp: simulated_def)
  then show ?case using inc_mono [OF t(2), of i] simD(1,3) [OF Cons.prems(2)] Cons.IH [OF t(3)] by (auto intro: order_trans)
qed simp

lemma unread_channel:
  "ordered_run ls s = Next s' \<Longrightarrow> sim True n s a P \<Longrightarrow> i < n \<Longrightarrow> inc s' ! i = inc s ! i \<Longrightarrow> Q i (inc s ! i) = applyCh (node s ! i) \<Longrightarrow>
   \<exists>Q'. readers_step\<^sup>*\<^sup>* (s, Q, L) (s', Q', L) \<and> Q' i (inc s' ! i) = applyCh (node s' ! i)"
proof (induction ls arbitrary: s a P Q)
  case Nil
  then show ?case by (auto intro!: exI [of _ Q])
next
  case (Cons l ls)
  then obtain t where t: "in_order l s" "exec True l s = Next t" "ordered_run ls t = Next s'"
    by (auto split: if_splits outcome.splits)
  note len = simD(1,3) [OF Cons.prems(2)]
  obtain b P' where b: "sim True n t b P'" using simulated_exec [OF Cons.prems(2), of l] t by (auto simp: simulated_def)
  have same: "inc t ! i = inc s ! i"
    using inc_mono [OF t(2), of i] ordered_run_inc [OF t(3) b, of i] Cons.prems(4) len by simp
  have "\<exists>ms. applyCh (node t ! i) = applyCh (node s ! i) @ ms"
    using exec_delivers [OF t(2), of i] same len Cons.prems(3) by (auto simp: delivers_def nth_list_update split: if_splits)
  then have "push s t Q i (inc t ! i) = applyCh (node t ! i)" using same Cons.prems(3,5) len by (auto simp: push_def)
  with Cons.IH [OF t(3) b Cons.prems(3), of "push s t Q"] same Cons.prems(4) obtain Q' where
    "readers_step\<^sup>*\<^sup>* (t, push s t Q, L) (s', Q', L)" "Q' i (inc s' ! i) = applyCh (node s' ! i)" by auto
  moreover have "readers_step (s, Q, L) (t, push s t Q, L)" by (rule readers_step.work [OF t(1,2)])
  ultimately show ?case using converse_rtranclp_into_rtranclp [of readers_step] by blast
qed

lemma commit_run_channel:
  "(case ordered_run commit_run (sys_init 3) of
      Next s \<Rightarrow> applyCh (node s ! 1) = [\<lparr>Index = 1, Command = 7, UseSnapshot = False\<rparr>] \<and> inc s ! 1 = 0
    | _ \<Rightarrow> False)"
  unfolding commit_run_def elect_run_def by code_simp

theorem readers_accept_witness:
  "\<exists>s Q. readers_step\<^sup>*\<^sup>* (sys_init 3, \<lambda>i c. [], replicate 3 Map.empty) (s, Q, replicate 3 Map.empty) \<and>
     Q 1 0 = [\<lparr>Index = 1, Command = 7, UseSnapshot = False\<rparr>] \<and>
     fst (apply_check Some 1 \<lparr>Index = 1, Command = 7, UseSnapshot = False\<rparr> (replicate 3 Map.empty)) = None"
proof -
  obtain s :: "int sys" where s: "ordered_run commit_run (sys_init 3) = Next s"
    "applyCh (node s ! 1) = [\<lparr>Index = 1, Command = 7, UseSnapshot = False\<rparr>]" "inc s ! 1 = 0"
    using commit_run_channel by (auto split: outcome.splits)
  obtain a :: "int spec" and P where a: "sim True 3 (sys_init 3) a P" using ordered_reach_sim [of 3 "sys_init 3"] by blast
  have "inc (sys_init 3 :: int sys) ! 1 = 0" "applyCh (node (sys_init 3 :: int sys) ! 1) = []"
    by (simp_all add: sys_init_def Make_def readPersist_def ps.fresh_state Let_def)
  then obtain Q where r: "readers_step\<^sup>*\<^sup>* (sys_init 3, \<lambda>i c. [], replicate 3 Map.empty) (s, Q, replicate 3 Map.empty)"
    and q: "Q 1 0 = [\<lparr>Index = 1, Command = 7, UseSnapshot = False\<rparr>]"
    using unread_channel [OF s(1) a, of 1 "\<lambda>i c. []" "replicate 3 Map.empty"] s(2,3) by auto
  show ?thesis using r q readers_accept [OF r q] by blast
qed

end
