(* ===== verification/KV_System.thy ===== *)
theory KV_System
  imports Raft_Readers KVRaft
begin

text \<open>
  The key/value servers of \<^verbatim>\<open>src/kvraft/server.go\<close> on a group of Raft peers. A state is a state of the group
  together with \<open>kv.currentIndex\<close> of every server and the number of messages its applier has taken from the
  channel; a step is a step of the group, with the order of appends kept, or one message for an applier. A
  handler is spread over such a run: it starts with \<open>Start\<close>, then each poll reads \<open>kv.currentIndex\<close> at one
  state and, without a lock, the fields of the peer at later moments, which may lie inside a critical section of
  the peer. A clerk gets its answers from such handlers.
\<close>

subsection \<open>The servers on their group\<close>

record kvsys =
  peers :: "Op sys"
  current :: "int list"
  taken :: "nat list"

definition kv_at :: "kvsys \<Rightarrow> nat \<Rightarrow> RaftKV" where
  "kv_at g i = \<lparr>kvme = int i, rf = node (peers g) ! i, maxraftstate = -1, currentIndex = current g ! i\<rparr>"

definition kv_init :: "nat \<Rightarrow> kvsys" where
  "kv_init n = \<lparr>peers = sys_init n, current = replicate n 0, taken = replicate n 0\<rparr>"

datatype kv_label = Work "Op label" | Deliver nat

text \<open>A server that is started again has a new channel, and its applied index is zero.\<close>

fun renew :: "Op label \<Rightarrow> kvsys \<Rightarrow> kvsys" where
  "renew (Restart i now r1 r2) g = g\<lparr>current := (current g)[i := 0], taken := (taken g)[i := 0]\<rparr>"
| "renew _ g = g"

fun kv_exec :: "kv_label \<Rightarrow> kvsys \<Rightarrow> kvsys outcome" where
  "kv_exec (Work l) g =
     (if in_order l (peers g)
      then case exec True l (peers g) of Disabled \<Rightarrow> Disabled | Panic \<Rightarrow> Panic | Next s \<Rightarrow> Next (renew l (g\<lparr>peers := s\<rparr>))
      else Disabled)"
| "kv_exec (Deliver i) g =
     (if i < length (current g) \<and> taken g ! i < length (applyCh (node (peers g) ! i))
      then Next (g\<lparr>current := (current g)[i := currentIndex (apply_one (applyCh (node (peers g) ! i) ! (taken g ! i)) (kv_at g i))],
             taken := (taken g)[i := taken g ! i + 1]\<rparr>)
      else Disabled)"

definition kvsys_step :: "kvsys \<Rightarrow> kvsys \<Rightarrow> bool" where
  "kvsys_step g g' \<longleftrightarrow> (\<exists>l. kv_exec l g = Next g')"

fun kv_execs :: "kv_label list \<Rightarrow> kvsys \<Rightarrow> kvsys outcome" where
  "kv_execs [] g = Next g"
| "kv_execs (l # ls) g = (case kv_exec l g of Disabled \<Rightarrow> Disabled | Panic \<Rightarrow> Panic | Next g' \<Rightarrow> kv_execs ls g')"

lemma kv_execs_steps: "kv_execs ls g = Next g' \<Longrightarrow> kvsys_step\<^sup>*\<^sup>* g g'"
proof (induction ls g rule: kv_execs.induct)
  case (2 l ls g)
  then obtain h where "kv_exec l g = Next h" "kvsys_step\<^sup>*\<^sup>* h g'" by (auto split: outcome.splits)
  then have "kvsys_step g h" by (auto simp: kvsys_step_def)
  then show ?case using \<open>kvsys_step\<^sup>*\<^sup>* h g'\<close> by (rule converse_rtranclp_into_rtranclp)
qed simp

lemma renew_simps [simp]:
  "peers (renew l g) = peers g" "length (current (renew l g)) = length (current g)" "length (taken (renew l g)) = length (taken g)"
  by (cases l; simp)+

lemma kvsys_step_cases:
  assumes "kvsys_step g g'"
  obtains (work) l s where "in_order l (peers g)" "exec True l (peers g) = Next s" "g' = renew l (g\<lparr>peers := s\<rparr>)"
  | (deliver) i where "i < length (current g)" "taken g ! i < length (applyCh (node (peers g) ! i))"
      "g' = g\<lparr>current := (current g)[i := max (current g ! i) (Index (applyCh (node (peers g) ! i) ! (taken g ! i)))],
             taken := (taken g)[i := taken g ! i + 1]\<rparr>"
proof -
  obtain l where l: "kv_exec l g = Next g'" using assms by (auto simp: kvsys_step_def)
  show thesis
  proof (cases l)
    case (Work r)
    then show ?thesis using l work by (auto split: if_splits outcome.splits)
  next
    case (Deliver i)
    then show ?thesis using l deliver by (auto simp: kv_at_def split: if_splits)
  qed
qed

lemma kvsys_steps_peers: "kvsys_step\<^sup>*\<^sup>* g g' \<Longrightarrow> ordered_step\<^sup>*\<^sup>* (peers g) (peers g')"
proof (induction rule: rtranclp_induct)
  case (step h g')
  from step.hyps(2) show ?case
  proof (cases rule: kvsys_step_cases)
    case (work l s)
    then have "ordered_step (peers h) (peers g')" by (auto simp: ordered_step_def)
    then show ?thesis using step.IH by simp
  qed (use step.IH in simp)
qed simp

subsection \<open>What an applier has seen is committed\<close>

text \<open>
  \<open>settled n s i x\<close>: peer \<open>i\<close> has had a commit index of \<open>x\<close> or more at some earlier moment of the run that
  leads to \<open>s\<close>. This holds of every message in its channel, and of the applied index of its server.
\<close>

definition settled :: "nat \<Rightarrow> 'c sys \<Rightarrow> nat \<Rightarrow> int \<Rightarrow> bool" where
  "settled n s i x \<longleftrightarrow> (\<exists>u. ordered_step\<^sup>*\<^sup>* (sys_init n) u \<and> ordered_step\<^sup>*\<^sup>* u s \<and> x \<le> commitIndex (node u ! i))"

lemma settled_later: "settled n s i x \<Longrightarrow> ordered_step\<^sup>*\<^sup>* s s' \<Longrightarrow> settled n s' i x"
  unfolding settled_def by (meson rtranclp_trans)

lemma settled_log:
  assumes "settled n s i x" and "i < n" and "0 \<le> x"
  shows "x \<le> int (length (logs (node s ! i)))"
    and "ordered_step\<^sup>*\<^sup>* s s' \<Longrightarrow> j < n \<Longrightarrow> x \<le> commitIndex (node s' ! j) \<Longrightarrow>
      take (nat x) (logs (node s' ! j)) = take (nat x) (logs (node s ! i))"
proof -
  obtain u where u: "ordered_step\<^sup>*\<^sup>* (sys_init n) u" "ordered_step\<^sup>*\<^sup>* u s" "int (nat x) \<le> commitIndex (node u ! i)"
    using assms(1,3) by (auto simp: settled_def)
  note K = committed_stays [OF u(1,2) assms(2) u(3)]
  then show "x \<le> int (length (logs (node s ! i)))" using nat_le_iff by blast
  show "take (nat x) (logs (node s' ! j)) = take (nat x) (logs (node s ! i))"
    if "ordered_step\<^sup>*\<^sup>* s s'" "j < n" "x \<le> commitIndex (node s' ! j)"
    using committed_prefix_agree(1) [OF u(1) rtranclp_trans [OF u(2) that(1)] assms(2) that(2) u(3)] that(3) assms(3) K
    by simp
qed

lemma channel_settled:
  assumes "ordered_step\<^sup>*\<^sup>* (sys_init n) s" and "i < n" and "m \<in> set (applyCh (node s ! i))"
  shows "settled n s i (Index m)"
  using assms
proof (induction arbitrary: m rule: rtranclp_induct)
  case base
  then show ?case by (simp add: sys_init_def Make_def readPersist_def ps.fresh_state Let_def)
next
  case (step t s)
  obtain l where l: "exec True l t = Next s" using step.hyps(2) by (auto simp: ordered_step_def)
  obtain a P where sim: "sim True n t a P" using ordered_reach_sim [OF step.hyps(1)] by blast
  have len: "length (inc t) = length (node t)" using simD(1,3) [OF sim] by simp
  have run: "ordered_step\<^sup>*\<^sup>* (sys_init n) s" using step.hyps by simp
  have old: "settled n s i (Index m)" if "m \<in> set (applyCh (node t ! i))"
    using settled_later [OF step.IH [OF step.prems(1) that]] step.hyps(2) by blast
  have new: "settled n s i (Index m)" if "Index m \<le> commitIndex (node s ! i)"
    using run that unfolding settled_def by blast
  from exec_delivers [OF l len, of i] show ?case
  proof (elim disjE exE conjE)
    assume "delivers (node t ! i) (node s ! i)"
    then show ?thesis using old new step.prems(2) by (auto simp: delivers_def)
  next
    fix k assume k: "applyCh (node s ! k) = []" "\<forall>j. j \<noteq> k \<longrightarrow> node s ! j = node t ! j"
    then show ?thesis using old step.prems(2) by (cases "i = k") auto
  qed
qed

definition kv_inv :: "nat \<Rightarrow> kvsys \<Rightarrow> bool" where
  "kv_inv n g \<longleftrightarrow> ordered_step\<^sup>*\<^sup>* (sys_init n) (peers g) \<and> length (current g) = n \<and> length (taken g) = n \<and>
     (\<forall>i < n. 0 \<le> current g ! i \<and> (current g ! i = 0 \<or> settled n (peers g) i (current g ! i)))"

lemma kv_invD:
  assumes "kv_inv n g"
  shows "ordered_step\<^sup>*\<^sup>* (sys_init n) (peers g)" "length (current g) = n" "length (taken g) = n"
    "i < n \<Longrightarrow> 0 \<le> current g ! i" "i < n \<Longrightarrow> current g ! i = 0 \<or> settled n (peers g) i (current g ! i)"
  using assms by (simp_all add: kv_inv_def)

lemma kv_inv_init: "kv_inv n (kv_init n)"
  by (simp add: kv_inv_def kv_init_def)

lemma renew_current: "i < length (current g) \<Longrightarrow> current (renew l g) ! i = current g ! i \<or> current (renew l g) ! i = 0"
  by (cases l; simp) (metis nth_list_update_eq nth_list_update_neq)

lemma kv_inv_step:
  assumes inv: "kv_inv n g" and step: "kvsys_step g g'"
  shows "kv_inv n g'"
  using step
proof (cases rule: kvsys_step_cases)
  case (work l s)
  have o: "ordered_step (peers g) s" using work(1,2) by (auto simp: ordered_step_def)
  have "0 \<le> current g' ! i \<and> (current g' ! i = 0 \<or> settled n s i (current g' ! i))" if "i < n" for i
    using renew_current [of i "g\<lparr>peers := s\<rparr>" l] kv_invD(2) [OF inv] kv_invD(4,5) [OF inv that]
      settled_later [OF _ r_into_rtranclp [of ordered_step, OF o], of n i] that work(3) by auto
  then show ?thesis using kv_invD(1-3) [OF inv] o work(3) by (simp add: kv_inv_def)
next
  case (deliver i)
  have i: "i < n" using deliver(1) kv_invD(2) [OF inv] by simp
  let ?m = "applyCh (node (peers g) ! i) ! (taken g ! i)"
  have "settled n (peers g) i (Index ?m)"
    by (rule channel_settled [OF kv_invD(1) [OF inv] i]) (use deliver(2) in simp)
  then show ?thesis using inv i deliver by (auto simp: kv_inv_def nth_list_update max_def)
qed

lemma kvsys_reach_inv: "kvsys_step\<^sup>*\<^sup>* (kv_init n) g \<Longrightarrow> kv_inv n g"
  by (induction rule: rtranclp_induct) (auto intro: kv_inv_init kv_inv_step)

subsection \<open>Handlers in a run\<close>

definition put_op_of :: "PutAppendArgs \<Rightarrow> Op" where
  "put_op_of args = \<lparr>Opt = paOpt args, opKey = paKey args, opValue = paValue args, opUUID = paUUID args\<rparr>"

definition get_op_of :: "GetArgs \<Rightarrow> Op" where
  "get_op_of args = \<lparr>Opt = ''Get'', opKey = gKey args, opValue = '''', opUUID = gUUID args\<rparr>"

text \<open>
  A handler of server \<open>i\<close> that is entered in state \<open>g\<close>: it submits \<open>op\<close>, and its \<open>k\<close>-th poll reads the applied index
  in \<open>G k\<close> and ends before \<open>H k\<close>; in between it calls \<open>GetState2\<close>, which reads the peer at the moments \<open>M k\<close>. As long
  as the server is not started again, these are the values the handler reads.
\<close>

definition serving :: "nat \<Rightarrow> Op \<Rightarrow> kvsys \<Rightarrow> (nat \<Rightarrow> kvsys) \<Rightarrow> (nat \<Rightarrow> kvsys) \<Rightarrow> bool" where
  "serving i op g G H \<longleftrightarrow> (\<exists>g'. kv_exec (Work (Submit i op)) g = Next g' \<and> kvsys_step\<^sup>*\<^sup>* g' (G 0)) \<and>
     (\<forall>k. kvsys_step\<^sup>*\<^sup>* (G k) (H k) \<and> kvsys_step\<^sup>*\<^sup>* (H k) (G (Suc k)))"

definition serve_put ::
  "nat \<Rightarrow> PutAppendArgs \<Rightarrow> kvsys \<Rightarrow> (nat \<Rightarrow> kvsys) \<Rightarrow> (nat \<Rightarrow> Op moments) \<Rightarrow> (RaftKV \<times> PutAppendReply) option" where
  "serve_put i args g G M = PutAppend (\<lambda>k. current (G k) ! i) M args (kv_at g i)"

definition serve_get ::
  "nat \<Rightarrow> GetArgs \<Rightarrow> kvsys \<Rightarrow> (nat \<Rightarrow> kvsys) \<Rightarrow> (nat \<Rightarrow> Op moments) \<Rightarrow> (RaftKV \<times> GetReply) option" where
  "serve_get i args g G M = Get (\<lambda>k. current (G k) ! i) M args (kv_at g i)"

text \<open>
  What an unlocked reader can see of peer \<open>i\<close> in a state: the peer between two critical sections or, if an append
  that it accepts is the next to be handled, the peer inside that section, when the log has been cut back and the
  entries have not been appended yet. No other section shows a log that is neither the one before nor the one after.
\<close>

definition cut_back :: "'c AppendEntriesArgs \<Rightarrow> 'c Raft \<Rightarrow> 'c Raft" where
  "cut_back args q = q\<lparr>currentTerm := aeTerm args, role := 0, votedFor := LeaderId args,
     logs := take (nat (PrevLogIndex args)) (logs q)\<rparr>"

fun inside :: "nat \<Rightarrow> 'c sys \<Rightarrow> 'c packet \<Rightarrow> 'c Raft list" where
  "inside i s (AEReq i' c j args) =
     (case AppendEntries 0 args (node s ! i) of
        Some (q, rep) \<Rightarrow> if j = i \<and> Success rep then [cut_back args (node s ! i)] else []
      | None \<Rightarrow> [])"
| "inside i s _ = []"

definition glimpse :: "kvsys \<Rightarrow> nat \<Rightarrow> Op Raft list" where
  "glimpse g i = node (peers g) ! i #
     concat (map (\<lambda>k. inside i (peers g) (flight (peers g) ! k))
       (filter (\<lambda>k. in_order (Handle k 0) (peers g)) [0..<length (flight (peers g))]))"

text \<open>
  A poll that reads the log at any such moment between \<open>g\<close> and \<open>h\<close>. Nothing is said of the other two fields, which
  \<open>PutAppend\<close> discards. A poll that reads all it uses at one moment \<open>h\<close> between two critical sections is \<open>whole i h\<close>.
\<close>

definition polled :: "nat \<Rightarrow> kvsys \<Rightarrow> kvsys \<Rightarrow> Op moments \<Rightarrow> bool" where
  "polled i g h m \<longleftrightarrow> (\<exists>u. kvsys_step\<^sup>*\<^sup>* g u \<and> kvsys_step\<^sup>*\<^sup>* u h \<and> fst (snd m) \<in> set (glimpse u i))"

definition whole :: "nat \<Rightarrow> kvsys \<Rightarrow> Op moments \<Rightarrow> bool" where
  "whole i h m \<longleftrightarrow> snd m = still (node (peers h) ! i)"

lemma whole_polled: "whole i h m \<Longrightarrow> kvsys_step\<^sup>*\<^sup>* g h \<Longrightarrow> polled i g h m"
  unfolding polled_def by (intro exI [of _ h]) (simp add: whole_def glimpse_def)

lemma whole_still [simp]: "whole i h (still2 (node (peers h) ! i))"
  by (simp add: whole_def)

lemma inside_log: "q \<in> set (inside i s pk) \<Longrightarrow> \<exists>c. logs q = take c (logs (node s ! i))"
  by (cases pk) (auto simp: cut_back_def split: option.splits if_splits)

lemma glimpse_log:
  assumes "q \<in> set (glimpse g i)" and "go_nth (logs q) x = Some e"
  shows "go_nth (logs (node (peers g) ! i)) x = Some e"
proof -
  obtain c where "logs q = take c (logs (node (peers g) ! i))"
    using assms(1) inside_log by (fastforce simp: glimpse_def intro: exI [of _ "length (logs q)"])
  then show ?thesis using assms(2) by (auto simp: go_nth_def split: if_splits)
qed

lemma serving_steps:
  assumes "serving i op g G H"
  shows "kvsys_step\<^sup>*\<^sup>* (G k) (H k)" "kvsys_step\<^sup>*\<^sup>* g (G k)" "k \<le> m \<Longrightarrow> kvsys_step\<^sup>*\<^sup>* (H k) (H m)"
proof -
  have S: "kvsys_step\<^sup>*\<^sup>* (G k) (H k)" "kvsys_step\<^sup>*\<^sup>* (H k) (G (Suc k))" for k using assms by (auto simp: serving_def)
  obtain g' where "kv_exec (Work (Submit i op)) g = Next g'" "kvsys_step\<^sup>*\<^sup>* g' (G 0)" using assms by (auto simp: serving_def)
  then have "kvsys_step g g'" "kvsys_step\<^sup>*\<^sup>* g' (G 0)" unfolding kvsys_step_def by blast+
  then have 0: "kvsys_step\<^sup>*\<^sup>* g (G 0)" by (rule converse_rtranclp_into_rtranclp)
  show "kvsys_step\<^sup>*\<^sup>* (G k) (H k)" by (rule S)
  show "kvsys_step\<^sup>*\<^sup>* g (G k)" by (induction k) (use 0 S in \<open>blast intro: rtranclp_trans\<close>)+
  have "kvsys_step\<^sup>*\<^sup>* (H k) (H (Suc k))" for k by (rule rtranclp_trans [OF S(2) S(1)])
  then have "kvsys_step\<^sup>*\<^sup>* (H k) (H (k + d))" for d by (induction d) (simp, metis add_Suc_right rtranclp_trans)
  then show "k \<le> m \<Longrightarrow> kvsys_step\<^sup>*\<^sup>* (H k) (H m)" by (metis le_add_diff_inverse)
qed

text \<open>What a poll sees applied is in the log that it reads.\<close>

lemma poll_settled:
  assumes "kvsys_step\<^sup>*\<^sup>* (kv_init n) g" and "kvsys_step\<^sup>*\<^sup>* g h" and "i < n" and "0 < x" and "x \<le> current g ! i"
  shows "settled n (peers h) i x"
proof -
  have "settled n (peers g) i (current g ! i)" using kv_invD(5) [OF kvsys_reach_inv [OF assms(1)] assms(3)] assms(4,5) by auto
  then have "settled n (peers g) i x" using assms(5) by (force simp: settled_def)
  then show ?thesis by (rule settled_later [OF _ kvsys_steps_peers [OF assms(2)]])
qed

lemma poll_log:
  assumes "kvsys_step\<^sup>*\<^sup>* (kv_init n) g" and "kvsys_step\<^sup>*\<^sup>* g h" and "i < n" and "0 < x" and "x \<le> current g ! i"
  shows "\<exists>e. go_nth (logs (node (peers h) ! i)) (x - 1) = Some e"
  using settled_log(1) [OF poll_settled [OF assms] assms(3)] assms(4) by (simp add: go_nth_def)

lemma put_wait_returns:
  assumes "\<And>k. 0 < k \<Longrightarrow> index \<le> seen k \<Longrightarrow> \<exists>e. go_nth (logs_at (peer k)) (index - 1) = Some e"
  shows "put_wait seen peer op index 0 r0 \<noteq> None"
proof (cases "\<exists>k. 0 < k \<and> k \<le> 500 \<and> index \<le> seen k")
  case True
  then obtain m where m: "0 < m" "m \<le> 500" "index \<le> seen m" by blast
  obtain k where k: "0 < k" "k \<le> m" "index \<le> seen k" "\<forall>j. 0 < j \<and> j < k \<longrightarrow> \<not> index \<le> seen j"
    using first_poll [of "\<lambda>k. index \<le> seen k" m] m by auto
  then show ?thesis using put_wait_first [of 0 k index seen peer op r0] assms [OF k(1,3)] m(2) by (auto simp: not_le)
next
  case False
  then have "\<forall>j. 0 < j \<and> j \<le> 500 \<longrightarrow> seen j < index" using not_le by blast
  then show ?thesis using put_wait_none by blast
qed

lemma get_wait_returns:
  "(\<And>k. \<exists>st. replay_log (logs_at (peer k)) (commit_at (peer k)) = Some st) \<Longrightarrow> get_wait seen peer key index cnt r0 \<noteq> None"
proof (induction seen peer key index cnt r0 rule: get_wait.induct)
  case (1 seen peer key index cnt r0)
  show ?case
  proof (cases "30 < cnt + 1 \<or> seen (cnt + 1) = index")
    case True
    obtain db U where "replay_log (logs_at (peer (cnt + 1))) (commit_at (peer (cnt + 1))) = Some (db, U)"
      using "1.prems" [of "cnt + 1"] by auto
    then show ?thesis using True by (subst get_wait.simps) (auto simp: GetState2_def Let_def)
  next
    case False
    then have "get_wait seen peer key index (cnt + 1) r0 \<noteq> None" using "1.IH" [OF refl _ _ "1.prems"] by blast
    then show ?thesis using False by (subst get_wait.simps) (simp add: Let_def)
  qed
qed

lemma commit_in_log:
  assumes "ordered_step\<^sup>*\<^sup>* (sys_init n) s" and "i < n"
  shows "0 \<le> commitIndex (node s ! i)" "commitIndex (node s ! i) \<le> int (length (logs (node s ! i)))"
proof -
  obtain a P where "sim True n s a P" using ordered_reach_sim [OF assms(1)] by blast
  from node_okD(4) [OF simD(5) [OF this assms(2)]]
  show "0 \<le> commitIndex (node s ! i)" "commitIndex (node s ! i) \<le> int (length (logs (node s ! i)))"
    by (simp_all add: idx_ok_def)
qed

lemma kv_peers: "kvsys_step\<^sup>*\<^sup>* (kv_init n) g \<Longrightarrow> ordered_step\<^sup>*\<^sup>* (sys_init n) (peers g)"
  using kvsys_steps_peers [of "kv_init n" g] by (simp add: kv_init_def)

text \<open>
  C13: the handlers do not panic when \<open>GetState2\<close> reads between critical sections. In a run that keeps the order
  of appends, \<open>PutAppend\<close>, which reads \<open>logs[index - 1]\<close> although the log may have been replaced since its \<open>Start\<close>, does
  not index its copy of the log out of range if each poll reads the log at a moment between two critical sections of
  the peer; nor does \<open>Get\<close>, which reads the log up to the commit index, if each poll reads the two at one such moment.
  Nothing in the code ensures this: \<open>torn_put_panics\<close> and \<open>torn_get_panics\<close> are runs in which the reads fall otherwise.
\<close>
theorem handlers_return:
  assumes "kvsys_step\<^sup>*\<^sup>* (kv_init n) g" and "i < n"
  shows "(serving i (put_op_of pargs) g G H \<and> (\<forall>k. fst (snd (M k)) = node (peers (H k)) ! i) \<longrightarrow>
      serve_put i pargs g G M \<noteq> None) \<and>
    (serving i (get_op_of gargs) g G H \<and> (\<forall>k. whole i (H k) (M k)) \<longrightarrow> serve_get i gargs g G M \<noteq> None)"
proof (intro conjI impI; elim conjE)
  assume "serving i (put_op_of pargs) g G H" and M: "\<forall>k. fst (snd (M k)) = node (peers (H k)) ! i"
  note S = serving_steps [OF this(1)]
  let ?x = "int (length (logs (rf (kv_at g i)))) + 1"
  have "\<exists>e. go_nth (logs_at (M k)) (?x - 1) = Some e" if "?x \<le> current (G k) ! i" for k
    using poll_log [OF rtranclp_trans [OF assms(1) S(2)] S(1) assms(2) _ that] M by simp
  then have "put_wait (\<lambda>k. current (G k) ! i) M op ?x 0 r0 \<noteq> None" for op r0
    by (intro put_wait_returns)
  then show "serve_put i pargs g G M \<noteq> None"
    by (simp add: serve_put_def PutAppend_def Start_def Let_def bind_eq_None_conv del: not_None_eq)
next
  assume "serving i (get_op_of gargs) g G H" and M: "\<forall>k. whole i (H k) (M k)"
  note S = serving_steps [OF this(1)]
  have "\<exists>st. replay_log (logs_at (M k)) (commit_at (M k)) = Some st" for k
    using commit_in_log [OF kv_peers [OF rtranclp_trans [OF assms(1) rtranclp_trans [OF S(2) S(1) [of k]]]] assms(2)] M
    by (simp add: replay_log_fold whole_def)
  then have "get_wait (\<lambda>k. current (G k) ! i) M key x 0 r0 \<noteq> None" for key x r0
    by (intro get_wait_returns)
  then show "serve_get i gargs g G M \<noteq> None"
    by (simp add: serve_get_def Get_def Start_def Let_def bind_eq_None_conv del: not_None_eq)
qed

text \<open>The operations that a read at server \<open>i\<close> in state \<open>g\<close> replays.\<close>

definition history :: "kvsys \<Rightarrow> nat \<Rightarrow> Op list" where
  "history g i = map ecommand (take (nat (commitIndex (node (peers g) ! i))) (logs (node (peers g) ! i)))"

text \<open>
  \<open>holds_write args ops x\<close>: the operation at index \<open>x\<close>, counted from one, is of the request's kind, key and value;
  and it is the request itself if no other identifier occurs with that kind, key and value.
\<close>

definition equal_write :: "PutAppendArgs \<Rightarrow> Op \<Rightarrow> bool" where
  "equal_write args op \<longleftrightarrow> Opt op = paOpt args \<and> opKey op = paKey args \<and> opValue op = paValue args"

definition holds_write :: "PutAppendArgs \<Rightarrow> Op list \<Rightarrow> nat \<Rightarrow> bool" where
  "holds_write args ops x \<longleftrightarrow> 0 < x \<and> x \<le> length ops \<and> equal_write args (ops ! (x - 1)) \<and>
     ((\<forall>op \<in> set ops. equal_write args op \<longrightarrow> opUUID op = paUUID args) \<longrightarrow> ops ! (x - 1) = put_op_of args)"

lemma holds_writeI: "0 < x \<Longrightarrow> x \<le> length ops \<Longrightarrow> equal_write args (ops ! (x - 1)) \<Longrightarrow> holds_write args ops x"
  by (auto simp: holds_write_def equal_write_def put_op_of_def)

lemma ack_kept:
  assumes "kvsys_step\<^sup>*\<^sup>* (kv_init n) g" and ij: "i < n" "j < n" and s: "serving i (put_op_of args) g G H"
    and M: "\<forall>k. polled i (G k) (H k) (M k)"
    and ack: "serve_put i args g G M = Some (kv', r0)" "\<not> paWrongLeader r0"
    and h: "kvsys_step\<^sup>*\<^sup>* (H 500) h" "paID r0 \<le> commitIndex (node (peers h) ! j)"
  shows "holds_write args (history h j) (nat (paID r0))"
proof -
  note S = serving_steps [OF s]
  obtain k e where k: "k \<le> 500" "paID r0 \<le> current (G k) ! i" and pos: "0 < paID r0"
    and e: "go_nth (logs_at (M k)) (paID r0 - 1) = Some e" "equal_write args (ecommand e)"
    using put_acknowledged [OF ack [unfolded serve_put_def]] by (auto simp: equal_write_def)
  obtain u where u: "kvsys_step\<^sup>*\<^sup>* (G k) u" "kvsys_step\<^sup>*\<^sup>* u (H k)" "go_nth (logs (node (peers u) ! i)) (paID r0 - 1) = Some e"
    using M glimpse_log [OF _ e(1)] unfolding polled_def by blast
  let ?x = "nat (paID r0)" and ?l = "logs (node (peers h) ! j)" and ?c = "commitIndex (node (peers h) ! j)"
  have uh: "ordered_step\<^sup>*\<^sup>* (peers u) (peers h)"
    by (rule kvsys_steps_peers [OF rtranclp_trans [OF u(2) rtranclp_trans [OF S(3) [OF k(1)] h(1)]]])
  have set: "settled n (peers u) i (paID r0)"
    by (rule poll_settled [OF rtranclp_trans [OF assms(1) S(2)] u(1) ij(1) pos k(2)])
  have tk: "take ?x ?l = take ?x (logs (node (peers u) ! i))"
    using settled_log(2) [OF set ij(1) _ uh ij(2) h(2)] pos by simp
  have "ordered_step\<^sup>*\<^sup>* (sys_init n) (peers h)"
    by (rule kv_peers [OF rtranclp_trans [OF assms(1) rtranclp_trans [OF rtranclp_trans [OF S(2) S(1)] h(1)]]])
  then have len: "?c \<le> int (length ?l)" by (rule commit_in_log(2) [OF _ ij(2)])
  have "?l ! (?x - 1) = e"
    using u(3) tk pos nth_take [of "?x - 1" ?x ?l] nth_take [of "?x - 1" ?x "logs (node (peers u) ! i)"]
    by (auto simp: go_nth_def nat_diff_distrib split: if_splits)
  moreover have "?x \<le> nat ?c" "nat ?c \<le> length ?l" using h(2) len by simp_all
  ultimately show ?thesis using e(2) pos by (intro holds_writeI) (simp_all add: history_def)
qed

lemma ack_settled:
  assumes "kvsys_step\<^sup>*\<^sup>* (kv_init n) g" and "i < n" and s: "serving i (put_op_of args) g G H"
    and ack: "serve_put i args g G M = Some (kv', r0)" "\<not> paWrongLeader r0"
  shows "0 < paID r0" and "settled n (peers (H 500)) i (paID r0)"
proof -
  note S = serving_steps [OF s]
  obtain k where k: "k \<le> 500" "paID r0 \<le> current (G k) ! i" "0 < paID r0"
    using put_acknowledged [OF ack [unfolded serve_put_def]] by auto
  show "settled n (peers (H 500)) i (paID r0)"
    by (rule poll_settled [OF rtranclp_trans [OF assms(1) S(2)] rtranclp_trans [OF S(1) S(3) [OF k(1)]] assms(2) k(3,2)])
  show "0 < paID r0" by (rule k(3))
qed

text \<open>
  C6: an acknowledged write stays. Once \<open>PutAppend\<close> at some server has reported success, wherever its unlocked reads of
  the log fell, an operation with the request's kind, key and value is at the reported index of the history that
  every server replays, at any later time and after any crashes and changes of leader, as soon as the server's commit
  index has reached that index. It is the acknowledged write itself unless the history has an equal write with
  another identifier: the handler does not compare the identifier, see \<open>put_foreign_acknowledged\<close>.
\<close>
theorem acknowledged_write_kept:
  assumes "kvsys_step\<^sup>*\<^sup>* (kv_init n) g" and "i < n" and "j < n" and "serving i (put_op_of args) g G H"
    and "\<forall>k. polled i (G k) (H k) (M k)"
    and "serve_put i args g G M = Some (kv', r0)" and "\<not> paWrongLeader r0"
    and "kvsys_step\<^sup>*\<^sup>* (H 500) h" and "paID r0 \<le> commitIndex (node (peers h) ! j)"
  shows "holds_write args (history h j) (nat (paID r0))"
  using assms by (rule ack_kept)

lemma get_wait_value:
  "get_wait seen peer key index cnt r0 = Some r \<Longrightarrow> gWrongLeader r0 \<Longrightarrow> \<not> gWrongLeader r \<Longrightarrow>
   \<exists>k st. k \<le> 30 \<and> seen k = index \<and> replay_log (logs_at (peer k)) (commit_at (peer k)) = Some st \<and> gValue r = zget '''' (fst st) key"
proof (induction seen peer key index cnt r0 rule: get_wait.induct)
  case (1 seen peer key index cnt r0)
  consider "30 < cnt + 1" | "\<not> 30 < cnt + 1" "seen (cnt + 1) = index" | "\<not> 30 < cnt + 1" "seen (cnt + 1) \<noteq> index" by blast
  then show ?case
  proof cases
    case 1
    then show ?thesis using "1.prems" by (subst (asm) get_wait.simps) (simp add: Let_def)
  next
    case 2
    then show ?thesis using "1.prems"
      by (subst (asm) get_wait.simps) (auto simp: Let_def GetState2_def split: bind_splits intro!: exI [of _ "Suc cnt"])
  next
    case 3
    then have "get_wait seen peer key index (cnt + 1) r0 = Some r"
      using "1.prems"(1) by (subst (asm) get_wait.simps) (simp add: Let_def)
    then show ?thesis using "1.IH" [OF refl 3 _ "1.prems"(2,3)] by simp
  qed
qed

lemma get_from_history:
  assumes "kvsys_step\<^sup>*\<^sup>* (kv_init n) g" and i: "i < n" and s: "serving i (get_op_of args) g G H"
    and M: "\<forall>k. whole i (H k) (M k)" and ack: "serve_get i args g G M = Some (kv', r0)" "\<not> gWrongLeader r0"
  obtains k where "k \<le> 30" "gValue r0 = zget '''' (spec_db (history (H k) i)) (gKey args)"
proof -
  note S = serving_steps [OF s]
  obtain k st where k: "k \<le> 30" "replay_log (logs (node (peers (H k)) ! i)) (commitIndex (node (peers (H k)) ! i)) = Some st"
      "gValue r0 = zget '''' (fst st) (gKey args)"
    using ack M by (auto simp: serve_get_def Get_def Start_def Let_def get_reply0_def whole_def split: if_splits bind_splits
        dest!: get_wait_value)
  have "fst st = spec_db (history (H k) i)"
    using replay_value [OF commit_in_log [OF kv_peers [OF rtranclp_trans [OF assms(1) rtranclp_trans [OF S(2) S(1) [of k]]]] i]] k(2)
    by (auto simp: history_def)
  then show thesis using that k by simp
qed

lemma map_prefix_take:
  assumes "take (min c d) xs = take (min c d) ys"
  shows "prefix (map f (take c xs)) (map f (take d ys)) \<or> prefix (map f (take d ys)) (map f (take c xs))"
proof (cases "c \<le> d")
  case True
  then have "take c xs = take c (take d ys)" using assms by (simp add: min_def)
  then show ?thesis using map_mono_prefix [OF take_is_prefix] by metis
next
  case False
  then have "take d ys = take d (take c xs)" using assms by (simp add: min_def)
  then show ?thesis using map_mono_prefix [OF take_is_prefix] by metis
qed

lemma histories_agree:
  assumes "kvsys_step\<^sup>*\<^sup>* (kv_init n) g" and "kvsys_step\<^sup>*\<^sup>* g h" and "i < n" and "j < n"
  shows "prefix (history g i) (history h j) \<or> prefix (history h j) (history g i)"
proof -
  let ?c = "nat (commitIndex (node (peers g) ! i))" and ?d = "nat (commitIndex (node (peers h) ! j))"
  note R = kv_peers [OF assms(1)] kv_peers [OF rtranclp_trans [OF assms(1,2)]]
  have "take (min ?c ?d) (logs (node (peers g) ! i)) = take (min ?c ?d) (logs (node (peers h) ! j))"
    by (rule committed_prefix_agree(1) [OF R(1) kvsys_steps_peers [OF assms(2)] assms(3,4)])
      (use commit_in_log(1) [OF R(1) assms(3)] commit_in_log(1) [OF R(2) assms(4)] in simp_all)
  then show ?thesis unfolding history_def by (intro map_prefix_take)
qed

text \<open>
  C8: reads agree on one history. Two successful reads, one after the other and at any two servers, return the
  values that the specified database holds after the histories of these two servers at two moments of the run,
  one during each read, and one of the two histories extends the other. Each poll of the reads reads the log and the
  commit index at one moment between critical sections.
\<close>
theorem reads_share_history:
  assumes "kvsys_step\<^sup>*\<^sup>* (kv_init n) g" and "i < n" and "j < n"
    and "serving i (get_op_of args) g G H" and "\<forall>k. whole i (H k) (M k)"
    and "serve_get i args g G M = Some (kv', r)" and "\<not> gWrongLeader r"
    and "kvsys_step\<^sup>*\<^sup>* (H 30) g'" and "serving j (get_op_of args') g' G' H'" and "\<forall>k. whole j (H' k) (M' k)"
    and "serve_get j args' g' G' M' = Some (kv'', r')" and "\<not> gWrongLeader r'"
  shows "\<exists>k \<le> 30. \<exists>k' \<le> 30.
    gValue r = zget '''' (spec_db (history (H k) i)) (gKey args) \<and>
    gValue r' = zget '''' (spec_db (history (H' k') j)) (gKey args') \<and>
    (prefix (history (H k) i) (history (H' k') j) \<or> prefix (history (H' k') j) (history (H k) i))"
proof -
  note S = serving_steps [OF assms(4)] and S' = serving_steps [OF assms(9)]
  obtain k where k: "k \<le> 30" "gValue r = zget '''' (spec_db (history (H k) i)) (gKey args)"
    by (rule get_from_history [OF assms(1,2,4-7)])
  have Hk: "kvsys_step\<^sup>*\<^sup>* (kv_init n) (H k)" for k by (rule rtranclp_trans [OF assms(1) rtranclp_trans [OF S(2) S(1)]])
  obtain k' where k': "k' \<le> 30" "gValue r' = zget '''' (spec_db (history (H' k') j)) (gKey args')"
    by (rule get_from_history [OF rtranclp_trans [OF Hk assms(8)] assms(3,9-12)])
  have "kvsys_step\<^sup>*\<^sup>* (H k) (H' k')"
    by (rule rtranclp_trans [OF S(3) [OF k(1)] rtranclp_trans [OF assms(8) rtranclp_trans [OF S'(2) S'(1)]]])
  from histories_agree [OF Hk this assms(2,3)] k k' show ?thesis by blast
qed

subsection \<open>Clerks in a run\<close>

text \<open>
  An answer that a clerk may get by the time the run is in state \<open>h\<close>: some server's handler has produced it for these
  arguments. The reads of \<open>PutAppend\<close> may fall anywhere, those of \<open>Get\<close> are whole.
\<close>

definition answered_put :: "nat \<Rightarrow> kvsys \<Rightarrow> nat \<Rightarrow> PutAppendArgs \<Rightarrow> PutAppendReply \<Rightarrow> bool" where
  "answered_put n h i args r \<longleftrightarrow> (\<exists>g G H M kv. kvsys_step\<^sup>*\<^sup>* (kv_init n) g \<and> i < n \<and> serving i (put_op_of args) g G H \<and>
     (\<forall>k. polled i (G k) (H k) (M k)) \<and> serve_put i args g G M = Some (kv, r) \<and> kvsys_step\<^sup>*\<^sup>* (H 500) h)"

definition answered_get :: "nat \<Rightarrow> kvsys \<Rightarrow> nat \<Rightarrow> GetArgs \<Rightarrow> GetReply \<Rightarrow> bool" where
  "answered_get n h i args r \<longleftrightarrow> (\<exists>g G H M kv. kvsys_step\<^sup>*\<^sup>* (kv_init n) g \<and> i < n \<and> serving i (get_op_of args) g G H \<and>
     (\<forall>k. whole i (H k) (M k)) \<and> serve_get i args g G M = Some (kv, r) \<and> kvsys_step\<^sup>*\<^sup>* (H 30) h)"

lemma put_loop_accepted:
  "put_loop calls args n k = Some m \<Longrightarrow> \<exists>k i r. calls k i args = Some r \<and> \<not> paWrongLeader r"
proof (rule put_loop.raw_induct [of "\<lambda>calls args n k m. \<exists>k i r. calls k i args = Some r \<and> \<not> paWrongLeader r"])
  fix pl calls args n k m
  assume IH: "\<And>calls args n k m. pl calls args n k = Some m \<Longrightarrow> \<exists>k i r. calls k i args = Some r \<and> \<not> paWrongLeader r"
    and body: "(if put_sweep (calls k) args [0..<n] False then Some (k + 1) else pl calls args n (k + 1)) = Some m"
  show "\<exists>k i r. calls k i args = Some r \<and> \<not> paWrongLeader r"
  proof (cases "put_sweep (calls k) args [0..<n] False")
    case True
    then show ?thesis by (auto simp: put_sweep_iff)
  next
    case False
    then show ?thesis using body IH [of calls args n "k + 1" m] by simp
  qed
qed

text \<open>
  C7: what a clerk may rely on. When \<open>Put\<close> or \<open>Append\<close> of a clerk returns, there is an index that some server has
  committed and at which every server whose
  commit index has reached it, then or later, has an operation of that kind, key and value in its
  history, across crashes and changes of leader; it is the write the clerk sent, with the identifier that its counter
  gave it, unless the history has an equal write with another identifier. All answers the clerk gets are from
  handlers of the servers; calls may fail in any way.
\<close>
theorem clerk_write_kept:
  assumes "clerk_PutAppend gnet pnet key val opt ck = Some ck'"
    and "\<And>k i args r. pnet k i args = Some r \<Longrightarrow> answered_put n h i args r"
  shows "\<exists>x > 0. (\<exists>i < n. settled n (peers h) i (int x)) \<and> (\<forall>j < n. \<forall>h'. kvsys_step\<^sup>*\<^sup>* h h' \<and> int x \<le> commitIndex (node (peers h') ! j) \<longrightarrow>
    holds_write \<lparr>paKey = key, paValue = val, paOpt = opt, paUUID = clerk_UUID (ck'\<lparr>ckcnt := ckcnt ck' - 1\<rparr>)\<rparr> (history h' j) x)"
proof -
  let ?args = "\<lparr>paKey = key, paValue = val, paOpt = opt, paUUID = clerk_UUID (ck'\<lparr>ckcnt := ckcnt ck' - 1\<rparr>)\<rparr>"
  obtain k i r where r: "pnet k i ?args = Some r" "\<not> paWrongLeader r"
    using assms(1) by (auto simp: clerk_PutAppend_def split: bind_splits if_splits dest!: put_loop_accepted)
  obtain g G H M kv where s: "kvsys_step\<^sup>*\<^sup>* (kv_init n) g" "i < n" "serving i (put_op_of ?args) g G H"
      "\<forall>k. polled i (G k) (H k) (M k)" "serve_put i ?args g G M = Some (kv, r)" "kvsys_step\<^sup>*\<^sup>* (H 500) h"
    using assms(2) [OF r(1)] by (auto simp: answered_put_def)
  note A = ack_settled [OF s(1-3,5) r(2)]
  then have pos: "0 < paID r" and "settled n (peers h) i (int (nat (paID r)))"
    using settled_later [OF A(2) kvsys_steps_peers [OF s(6)]] by simp_all
  moreover have "holds_write ?args (history h' j) (nat (paID r))"
    if "j < n" "kvsys_step\<^sup>*\<^sup>* h h'" "int (nat (paID r)) \<le> commitIndex (node (peers h') ! j)" for j h'
    using ack_kept [OF s(1,2) that(1) s(3-5) r(2) rtranclp_trans [OF s(6) that(2)]] that(3) pos by simp
  ultimately show ?thesis using s(2) by (intro exI [of _ "nat (paID r)"]) auto
qed

lemma get_sweep_answer:
  "get_sweep call key is ck = (ck', Some v) \<Longrightarrow> \<exists>i r. call i \<lparr>gKey = key, gUUID = clerk_UUID ck\<rparr> = Some r \<and> \<not> gWrongLeader r \<and> gValue r = v"
  by (induction "is") (auto split: option.splits if_splits)

lemma get_loop_answer:
  "get_loop calls key k ck = Some res \<Longrightarrow>
   \<exists>k i a r. calls k i a = Some r \<and> gKey a = key \<and> \<not> gWrongLeader r \<and> gValue r = snd res"
proof (rule get_loop.raw_induct [of "\<lambda>calls key k ck res. \<exists>k i a r. calls k i a = Some r \<and> gKey a = key \<and> \<not> gWrongLeader r \<and> gValue r = snd res"])
  fix gl calls key k ck res
  assume IH: "\<And>calls key k ck res. gl calls key k ck = Some res \<Longrightarrow>
      \<exists>k i a r. calls k i a = Some r \<and> gKey a = key \<and> \<not> gWrongLeader r \<and> gValue r = snd res"
    and body: "(case get_sweep (calls k) key [0..<KVRaft.servers ck] ck of
        (ck', None) \<Rightarrow> gl calls key (k + 1) ck' | (ck', Some v) \<Rightarrow> Some (ck', v)) = Some res"
  obtain ck' v where sw: "get_sweep (calls k) key [0..<KVRaft.servers ck] ck = (ck', v)" by fastforce
  show "\<exists>k i a r. calls k i a = Some r \<and> gKey a = key \<and> \<not> gWrongLeader r \<and> gValue r = snd res"
  proof (cases v)
    case None
    then show ?thesis using body sw IH [of calls key "k + 1" ck'] by simp
  next
    case (Some w)
    then obtain i r where "calls k i \<lparr>gKey = key, gUUID = clerk_UUID ck\<rparr> = Some r" "\<not> gWrongLeader r" "gValue r = w"
      using get_sweep_answer [of "calls k" key _ ck ck' w] sw by blast
    moreover have "snd res = w" using body sw Some by auto
    ultimately show ?thesis by (metis GetArgs.select_convs(1))
  qed
qed

text \<open>When \<open>Get\<close> of a clerk returns, its value is that of the key after what some server had committed in the run.\<close>

lemma clerk_read_committed:
  assumes "clerk_Get calls key ck = Some (ck', v)" and "\<And>k i a r. calls k i a = Some r \<Longrightarrow> answered_get n h i a r"
  shows "\<exists>g i. i < n \<and> kvsys_step\<^sup>*\<^sup>* (kv_init n) g \<and> kvsys_step\<^sup>*\<^sup>* g h \<and> v = zget '''' (spec_db (history g i)) key"
proof -
  obtain k i a r where r: "calls k i a = Some r" "gKey a = key" "\<not> gWrongLeader r" "gValue r = v"
    using assms(1) by (auto simp: clerk_Get_def split: bind_splits dest!: get_loop_answer)
  obtain g G H M kv where s: "kvsys_step\<^sup>*\<^sup>* (kv_init n) g" "i < n" "serving i (get_op_of a) g G H"
      "\<forall>k. whole i (H k) (M k)" "serve_get i a g G M = Some (kv, r)" "kvsys_step\<^sup>*\<^sup>* (H 30) h"
    using assms(2) [OF r(1)] by (auto simp: answered_get_def)
  note S = serving_steps [OF s(3)]
  obtain m where m: "m \<le> 30" "gValue r = zget '''' (spec_db (history (H m) i)) (gKey a)"
    by (rule get_from_history [OF s(1-5) r(3)])
  have "kvsys_step\<^sup>*\<^sup>* (kv_init n) (H m)" by (rule rtranclp_trans [OF s(1) rtranclp_trans [OF S(2) S(1)]])
  moreover have "kvsys_step\<^sup>*\<^sup>* (H m) h" by (rule rtranclp_trans [OF S(3) [OF m(1)] s(6)])
  ultimately show ?thesis using s(2) m(2) r(2,4) by blast
qed

subsection \<open>A stale read\<close>

text \<open>
  Peer 0 is elected in term 1 and hears nothing more; peer 1 is elected in term 2 and commits the write
  of \<open>a\<close>. Its append to peer 0, with that entry and commit index 1, is delayed. The write of \<open>b\<close> at server 1 is then
  committed by peers 1 and 2 and acknowledged. A read at server 0, whose peer still takes itself for the leader of
  term 1, submits its own operation at index 1; the delayed append replaces it by the write of \<open>a\<close> and applies
  index 1; the read finds the applied index equal to its index, and answers \<open>a\<close>.
\<close>

definition put_a :: PutAppendArgs where
  "put_a = \<lparr>paKey = ''k'', paValue = ''a'', paOpt = ''Put'', paUUID = ''1_1''\<rparr>"

definition put_b :: PutAppendArgs where
  "put_b = \<lparr>paKey = ''k'', paValue = ''b'', paOpt = ''Put'', paUUID = ''1_2''\<rparr>"

definition get_k :: GetArgs where
  "get_k = \<lparr>gKey = ''k'', gUUID = ''2_1''\<rparr>"

definition stale_start :: "kv_label list" where
  "stale_start = map Work
    [Timeout 0 0, Vote 0, Handle 0 0, Lose 0, Handle 0 0, Handle 0 0,
     Timeout 1 0, Vote 1, Lose 0, Handle 0 0, Handle 0 0, Handle 0 0,
     Submit 1 (put_op_of put_a), Tick 1, Lose 0, Handle 0 0, Handle 0 0, Handle 0 0, Handle 0 0, Handle 0 0,
     Tick 1, Handle 0 0, Lose 0] @ [Deliver 1]"

definition stale_put :: "kv_label list" where
  "stale_put = map Work [Tick 1, Lose 1, Handle 1 0, Handle 1 0, Handle 1 0, Handle 1 0, Handle 1 0] @ [Deliver 1]"

definition stale_get :: "kv_label list" where
  "stale_get = [Work (Handle 0 0), Deliver 0]"

text \<open>A further read, at server 1, after the stale one.\<close>

definition fresh_get :: "kv_label list" where
  "fresh_get = map Work [Tick 1, Lose 0, Lose 0, Handle 0 0, Handle 0 0, Handle 0 0, Handle 0 0, Handle 0 0] @ [Deliver 1]"

fun serve_run :: "nat \<Rightarrow> Op \<Rightarrow> kv_label list \<Rightarrow> kvsys \<Rightarrow> kvsys outcome" where
  "serve_run i op ls g = kv_execs (Work (Submit i op) # ls) g"

lemma serve_run_serving:
  assumes "serve_run i op ls g = Next h"
  shows "serving i op g (\<lambda>k. h) (\<lambda>k. h)"
proof -
  obtain g' where "kv_exec (Work (Submit i op)) g = Next g'" "kv_execs ls g' = Next h"
    using assms by (auto split: outcome.splits if_splits)
  then show ?thesis using kv_execs_steps [of ls g' h] by (auto simp: serving_def)
qed

lemma stale_result:
  "(case kv_execs stale_start (kv_init 3) of
      Next g \<Rightarrow> (case serve_run 1 (put_op_of put_b) stale_put g of
        Next h \<Rightarrow> (case serve_put 1 put_b g (\<lambda>k. h) (\<lambda>k. still2 (node (peers h) ! 1)) of Some (kv, r) \<Rightarrow> \<not> paWrongLeader r \<and> paID r = 2 | None \<Rightarrow> False) \<and>
          (case serve_run 0 (get_op_of get_k) stale_get h of
            Next h' \<Rightarrow> (case serve_get 0 get_k h (\<lambda>k. h') (\<lambda>k. still2 (node (peers h') ! 0)) of Some (kv, r) \<Rightarrow> \<not> gWrongLeader r \<and> gValue r = ''a'' | None \<Rightarrow> False) \<and>
              (case serve_run 1 (get_op_of get_k) fresh_get h' of
                Next h'' \<Rightarrow> (case serve_get 1 get_k h' (\<lambda>k. h'') (\<lambda>k. still2 (node (peers h'') ! 1)) of Some (kv, r) \<Rightarrow> \<not> gWrongLeader r \<and> gValue r = ''b'' | None \<Rightarrow> False) \<and>
                  commitIndex (node (peers h'') ! 2) = 2
              | _ \<Rightarrow> False)
          | _ \<Rightarrow> False)
      | _ \<Rightarrow> False)
    | _ \<Rightarrow> False)"
  by code_simp

lemma stale_states:
  obtains g h h' h'' kp p kr r kf f where
    "kvsys_step\<^sup>*\<^sup>* (kv_init 3) g" "serving 1 (put_op_of put_b) g (\<lambda>k. h) (\<lambda>k. h)"
    "serve_put 1 put_b g (\<lambda>k. h) (\<lambda>k. still2 (node (peers h) ! 1)) = Some (kp, p)" "\<not> paWrongLeader p" "paID p = 2"
    "serving 0 (get_op_of get_k) h (\<lambda>k. h') (\<lambda>k. h')"
    "serve_get 0 get_k h (\<lambda>k. h') (\<lambda>k. still2 (node (peers h') ! 0)) = Some (kr, r)" "\<not> gWrongLeader r" "gValue r = ''a''"
    "serving 1 (get_op_of get_k) h' (\<lambda>k. h'') (\<lambda>k. h'')"
    "serve_get 1 get_k h' (\<lambda>k. h'') (\<lambda>k. still2 (node (peers h'') ! 1)) = Some (kf, f)" "\<not> gWrongLeader f" "gValue f = ''b''"
    "commitIndex (node (peers h'') ! 2) = 2"
proof -
  obtain g where g: "kv_execs stale_start (kv_init 3) = Next g"
    using stale_result by (auto simp del: kv_execs.simps serve_run.simps split: outcome.splits)
  obtain h where h: "serve_run 1 (put_op_of put_b) stale_put g = Next h"
    using stale_result g by (auto simp del: kv_execs.simps serve_run.simps split: outcome.splits)
  obtain h' where h': "serve_run 0 (get_op_of get_k) stale_get h = Next h'"
    using stale_result g h by (auto simp del: kv_execs.simps serve_run.simps split: outcome.splits)
  obtain h'' where h'': "serve_run 1 (get_op_of get_k) fresh_get h' = Next h''"
    using stale_result g h h' by (auto simp del: kv_execs.simps serve_run.simps split: outcome.splits)
  note R = stale_result [unfolded g h h' h'' outcome.case]
  show thesis
    using that [OF kv_execs_steps [OF g] serve_run_serving [OF h] _ _ _ serve_run_serving [OF h'] _ _ _ serve_run_serving [OF h'']] R
    by (auto split: option.splits)
qed

text \<open>
  C23: reads can be stale. A write to a key has been acknowledged; a read of the key at another server, which
  begins after that, succeeds with the value the key had before the write. \<open>Get\<close> compares the applied index
  with its own only, not the entry at that index, nor whether its peer still leads.
\<close>
theorem stale_read:
  "\<exists>g h h' kv p kv' r. kvsys_step\<^sup>*\<^sup>* (kv_init 3) g \<and>
     serving 1 (put_op_of put_b) g (\<lambda>k. h) (\<lambda>k. h) \<and> serve_put 1 put_b g (\<lambda>k. h) (\<lambda>k. still2 (node (peers h) ! 1)) = Some (kv, p) \<and> \<not> paWrongLeader p \<and>
     serving 0 (get_op_of get_k) h (\<lambda>k. h') (\<lambda>k. h') \<and> serve_get 0 get_k h (\<lambda>k. h') (\<lambda>k. still2 (node (peers h') ! 0)) = Some (kv', r) \<and>
     \<not> gWrongLeader r \<and> gKey get_k = paKey put_b \<and> gValue r = ''a'' \<and> paValue put_b = ''b''"
proof (rule stale_states)
  have "gKey get_k = paKey put_b" "paValue put_b = ''b''" by (simp_all add: get_k_def put_b_def)
  then show ?thesis if "kvsys_step\<^sup>*\<^sup>* (kv_init 3) g" "serving 1 (put_op_of put_b) g (\<lambda>k. h) (\<lambda>k. h)"
    "serve_put 1 put_b g (\<lambda>k. h) (\<lambda>k. still2 (node (peers h) ! 1)) = Some (kp, p)" "\<not> paWrongLeader p"
    "serving 0 (get_op_of get_k) h (\<lambda>k. h') (\<lambda>k. h')" "serve_get 0 get_k h (\<lambda>k. h') (\<lambda>k. still2 (node (peers h') ! 0)) = Some (kr, r)"
    "\<not> gWrongLeader r" "gValue r = ''a''" for g h h' kp p kr r
    using that by (intro exI conjI)
qed

subsection \<open>Torn reads\<close>

text \<open>
  After the stale read above has found its index applied, it reads the log of peer 0, which has one entry. Before it reads
  the commit index, peer 0 handles an append with the write of \<open>b\<close> and commit index 2: the replay runs out of the log.
\<close>

definition late_append :: "kv_label list" where
  "late_append = map Work [Tick 1, Handle 1 0, Lose 1, Handle 1 0]"

lemma torn_get_result:
  "(case kv_execs (stale_start @ [Work (Submit 1 (put_op_of put_b))] @ stale_put) (kv_init 3) of
      Next h \<Rightarrow> (case serve_run 0 (get_op_of get_k) stale_get h of
        Next u \<Rightarrow> (case kv_execs late_append u of
          Next v \<Rightarrow> serve_get 0 get_k h (\<lambda>k. if k \<le> 1 then u else v)
             (\<lambda>k. (node (peers u) ! 0, node (peers u) ! 0, node (peers v) ! 0)) = None
        | _ \<Rightarrow> False)
      | _ \<Rightarrow> False)
    | _ \<Rightarrow> False)"
  by code_simp

theorem torn_get_panics:
  "\<exists>g G H u v. kvsys_step\<^sup>*\<^sup>* (kv_init 3) g \<and> serving 0 (get_op_of get_k) g G H \<and>
     kvsys_step\<^sup>*\<^sup>* (G 1) u \<and> kvsys_step\<^sup>*\<^sup>* u v \<and> kvsys_step\<^sup>*\<^sup>* v (H 1) \<and>
     serve_get 0 get_k g G (\<lambda>k. (node (peers u) ! 0, node (peers u) ! 0, node (peers v) ! 0)) = None"
proof -
  obtain g where g: "kv_execs (stale_start @ [Work (Submit 1 (put_op_of put_b))] @ stale_put) (kv_init 3) = Next g"
    using torn_get_result by (auto simp del: kv_execs.simps serve_run.simps split: outcome.splits)
  obtain u where u: "serve_run 0 (get_op_of get_k) stale_get g = Next u"
    using torn_get_result g by (auto simp del: kv_execs.simps serve_run.simps split: outcome.splits)
  obtain v where v: "kv_execs late_append u = Next v"
    using torn_get_result g u by (auto simp del: kv_execs.simps serve_run.simps split: outcome.splits)
  let ?G = "\<lambda>k :: nat. if k \<le> 1 then u else v" and ?H = "\<lambda>k :: nat. if k = 0 then u else v"
  have uv: "kvsys_step\<^sup>*\<^sup>* u v" by (rule kv_execs_steps [OF v])
  have "serving 0 (get_op_of get_k) g ?G ?H"
    using serve_run_serving [OF u] uv by (auto simp: serving_def)
  then show ?thesis
    using torn_get_result [unfolded g u v outcome.case] kv_execs_steps [OF g] uv
    by (intro exI [of _ g] exI [of _ ?G] exI [of _ ?H] exI [of _ u] exI [of _ v]) simp
qed

text \<open>
  Peer 0 is elected in term 1 and hears nothing more until a write at its server has put an entry at index 1; peer 1
  is elected in term 2, commits the write of \<open>a\<close> and loses its append to peer 0. Two empty appends are refused by peer 0;
  each refusal sets \<open>nextIndex\<close> back to 1, so two appends follow that both begin at index 1. When the first has been
  handled, index 1 is applied at server 0. While the second is being handled, the log of peer 0 is empty for a moment;
  \<open>PutAppend\<close> reads \<open>logs[0]\<close>.
\<close>

definition torn_start :: "kv_label list" where
  "torn_start = stale_start @ [Work (Lose 0)]"

definition torn_put :: "kv_label list" where
  "torn_put = map Work
    [Tick 1, Handle 0 0, Lose 0, Tick 1, Handle 1 0, Lose 1, Handle 0 0, Handle 0 0,
     Handle 0 0, Handle 1 0, Handle 1 0, Tick 1, Handle 1 0, Lose 1,
     Handle 0 0, Handle 1 0, Handle 1 0, Tick 1, Handle 1 0, Lose 1, Handle 0 0] @ [Deliver 0]"

lemma torn_put_result:
  "(case kv_execs torn_start (kv_init 3) of
      Next g \<Rightarrow> (case serve_run 0 (put_op_of put_b) torn_put g of
        Next h \<Rightarrow> length (glimpse h 0) = 2 \<and> logs (glimpse h 0 ! 1) = [] \<and>
          serve_put 0 put_b g (\<lambda>k. h) (\<lambda>k. still2 (glimpse h 0 ! 1)) = None
      | _ \<Rightarrow> False)
    | _ \<Rightarrow> False)"
  by code_simp

theorem torn_put_panics:
  "\<exists>g G H M. kvsys_step\<^sup>*\<^sup>* (kv_init 3) g \<and> serving 0 (put_op_of put_b) g G H \<and> (\<forall>k. polled 0 (G k) (H k) (M k)) \<and>
     serve_put 0 put_b g G M = None"
proof -
  obtain g where g: "kv_execs torn_start (kv_init 3) = Next g"
    using torn_put_result by (auto simp del: kv_execs.simps serve_run.simps split: outcome.splits)
  obtain h where h: "serve_run 0 (put_op_of put_b) torn_put g = Next h"
    using torn_put_result g by (auto simp del: kv_execs.simps serve_run.simps split: outcome.splits)
  note R = torn_put_result [unfolded g h outcome.case]
  have "polled 0 h h (still2 (glimpse h 0 ! 1))" unfolding polled_def using R by (intro exI [of _ h]) simp
  then show ?thesis using R kv_execs_steps [OF g] serve_run_serving [OF h]
    by (intro exI [of _ g] exI [of _ "\<lambda>k. h"] exI [of _ "\<lambda>k. h"] exI [of _ "\<lambda>k. still2 (glimpse h 0 ! 1)"]) simp
qed

subsection \<open>Witnesses\<close>

lemma whole_polls: "\<forall>k. polled i h h (still2 (node (peers h) ! i))"
  by (simp add: whole_polled)

theorem handlers_return_witness:
  "\<exists>g h. kvsys_step\<^sup>*\<^sup>* (kv_init 3) g \<and> serving 1 (put_op_of put_b) g (\<lambda>k. h) (\<lambda>k. h) \<and>
     serve_put 1 put_b g (\<lambda>k. h) (\<lambda>k. still2 (node (peers h) ! 1)) \<noteq> None \<and>
     serve_put 1 put_b g (\<lambda>k. h) (\<lambda>k. (node (peers g) ! 0, node (peers h) ! 1, node (peers g) ! 2)) \<noteq> None"
proof (rule stale_states)
  fix g h assume *: "kvsys_step\<^sup>*\<^sup>* (kv_init 3) g" "serving 1 (put_op_of put_b) g (\<lambda>k. h) (\<lambda>k. h)"
  have "serve_put 1 put_b g (\<lambda>k. h) M \<noteq> None" if "\<And>k. fst (snd (M k)) = node (peers h) ! 1" for M
    using handlers_return [OF *(1), of 1 put_b "\<lambda>k. h" "\<lambda>k. h" M] *(2) that by force
  then show ?thesis using * by (intro exI [of _ g] exI [of _ h]) simp
qed

theorem acknowledged_write_kept_witness:
  "\<exists>h. kvsys_step\<^sup>*\<^sup>* (kv_init 3) h \<and> commitIndex (node (peers h) ! 2) = 2 \<and> holds_write put_b (history h 2) 2"
proof (rule stale_states)
  fix g h h' h'' kp p kr r kf f
  assume *: "kvsys_step\<^sup>*\<^sup>* (kv_init 3) g" "serving 1 (put_op_of put_b) g (\<lambda>k. h) (\<lambda>k. h)"
    "serve_put 1 put_b g (\<lambda>k. h) (\<lambda>k. still2 (node (peers h) ! 1)) = Some (kp, p)" "\<not> paWrongLeader p" "paID p = 2"
    "serving 0 (get_op_of get_k) h (\<lambda>k. h') (\<lambda>k. h')" "serving 1 (get_op_of get_k) h' (\<lambda>k. h'') (\<lambda>k. h'')"
    "commitIndex (node (peers h'') ! 2) = 2"
  have h: "kvsys_step\<^sup>*\<^sup>* h h''" using serving_steps(2) [OF *(6)] serving_steps(2) [OF *(7)] by simp
  have "kvsys_step\<^sup>*\<^sup>* (kv_init 3) h''" using *(1) serving_steps(2) [OF *(2)] h by simp
  moreover have "holds_write put_b (history h'' 2) 2"
    using acknowledged_write_kept [OF *(1) _ _ *(2) whole_polls *(3,4), of 2 h''] *(5,8) h by simp
  ultimately show ?thesis using *(8) by blast
qed

theorem clerk_write_kept_witness:
  "\<exists>h x. 0 < x \<and> kvsys_step\<^sup>*\<^sup>* (kv_init 3) h \<and> (\<exists>i < 3. settled 3 (peers h) i (int x)) \<and>
     (\<forall>h'. kvsys_step\<^sup>*\<^sup>* h h' \<and> int x \<le> commitIndex (node (peers h') ! 2) \<longrightarrow> holds_write put_b (history h' 2) x)"
proof (rule stale_states)
  fix g h h' h'' kp p kr r kf f
  assume *: "kvsys_step\<^sup>*\<^sup>* (kv_init 3) g" "serving 1 (put_op_of put_b) g (\<lambda>k. h) (\<lambda>k. h)"
    "serve_put 1 put_b g (\<lambda>k. h) (\<lambda>k. still2 (node (peers h) ! 1)) = Some (kp, p)" "\<not> paWrongLeader p"
  let ?pnet = "\<lambda>(k :: nat) (i :: nat) a. if i = 1 \<and> a = put_b then Some p else None"
  let ?ck = "(KVRaft.MakeClerk 3)\<lparr>ckid := 1, ckcnt := 2\<rparr>"
  have u: "clerk_UUID ?ck = ''1_2''" by code_simp
  have b: "\<lparr>paKey = ''k'', paValue = ''b'', paOpt = ''Put'', paUUID = clerk_UUID ?ck\<rparr> = put_b" by (simp add: put_b_def u)
  then have c: "clerk_PutAppend (\<lambda>k i a. None) ?pnet ''k'' ''b'' ''Put'' ?ck = Some (?ck\<lparr>ckcnt := 3\<rparr>)"
    using clerk_put_returns [of ?ck 1 ?pnet 0 "''k''" "''b''" "''Put''" p "\<lambda>k i a. None"] *(4) by (simp add: KVRaft.MakeClerk_def)
  have "answered_put 3 h i args r" if "?pnet k i args = Some r" for k i args r
    using that * whole_polls [of 1 h] unfolding answered_put_def
    by (intro exI [of _ g] exI [of _ "\<lambda>k. h"] exI [of _ "\<lambda>k. still2 (node (peers h) ! 1)"] exI [of _ kp]) (auto split: if_splits)
  from clerk_write_kept [OF c this] obtain x where x: "0 < x" "\<exists>i < 3. settled 3 (peers h) i (int x)"
    "\<forall>j < 3. \<forall>h'. kvsys_step\<^sup>*\<^sup>* h h' \<and> int x \<le> commitIndex (node (peers h') ! j) \<longrightarrow> holds_write put_b (history h' j) x"
    using b by auto
  have "kvsys_step\<^sup>*\<^sup>* (kv_init 3) h" using *(1) serving_steps(2) [OF *(2)] by simp
  then show ?thesis using x(1,2) x(3) [rule_format, of 2] by (intro exI [of _ h] exI [of _ x]) simp
qed

theorem reads_share_history_witness:
  "\<exists>g h h'. kvsys_step\<^sup>*\<^sup>* (kv_init 3) g \<and> serving 0 (get_op_of get_k) g (\<lambda>k. h) (\<lambda>k. h) \<and>
     serving 1 (get_op_of get_k) h (\<lambda>k. h') (\<lambda>k. h') \<and>
     ''a'' = zget '''' (spec_db (history h 0)) ''k'' \<and> ''b'' = zget '''' (spec_db (history h' 1)) ''k'' \<and>
     (prefix (history h 0) (history h' 1) \<or> prefix (history h' 1) (history h 0))"
proof (rule stale_states)
  fix g h h' h'' kp p kr r kf f
  assume g: "kvsys_step\<^sup>*\<^sup>* (kv_init 3) g" and s: "serving 1 (put_op_of put_b) g (\<lambda>k. h) (\<lambda>k. h)"
    and 0: "serving 0 (get_op_of get_k) h (\<lambda>k. h') (\<lambda>k. h')"
      "serve_get 0 get_k h (\<lambda>k. h') (\<lambda>k. still2 (node (peers h') ! 0)) = Some (kr, r)" "\<not> gWrongLeader r" "gValue r = ''a''"
    and 1: "serving 1 (get_op_of get_k) h' (\<lambda>k. h'') (\<lambda>k. h'')"
      "serve_get 1 get_k h' (\<lambda>k. h'') (\<lambda>k. still2 (node (peers h'') ! 1)) = Some (kf, f)" "\<not> gWrongLeader f" "gValue f = ''b''"
  have h: "kvsys_step\<^sup>*\<^sup>* (kv_init 3) h" using g serving_steps(2) [OF s] by simp
  from reads_share_history [OF h _ _ 0(1) _ 0(2,3) _ 1(1) _ 1(2,3)] 0(4) 1(4)
  have "''a'' = zget '''' (spec_db (history h' 0)) ''k'' \<and> ''b'' = zget '''' (spec_db (history h'' 1)) ''k'' \<and>
     (prefix (history h' 0) (history h'' 1) \<or> prefix (history h'' 1) (history h' 0))" by (simp add: get_k_def)
  then show ?thesis using h 0(1) 1(1) by blast
qed

end
