(* ===== verification/Logging.thy ===== *)
theory Logging
  imports Main
begin

text \<open>
  The debug helpers: \<open>DPrintf\<close> of \<^verbatim>\<open>src/raft/util.go\<close> and of the servers that have their own copy, and
  \<open>debug\<close> of \<^verbatim>\<open>src/mapreduce/common.go\<close>. They differ in the switch only. \<open>Sprintf\<close> formats a line; the result is
  what is logged, and the number and the error that \<open>DPrintf\<close> returns.
\<close>

definition DPrintf :: "int \<Rightarrow> ('f \<Rightarrow> 'a \<Rightarrow> string) \<Rightarrow> 'f \<Rightarrow> 'a \<Rightarrow> string list \<times> int \<times> string option" where
  "DPrintf Debug Sprintf format a = ((if Debug > 0 then [Sprintf format a] else []), 0, None)"

definition raft_DPrintf :: "('f \<Rightarrow> 'a \<Rightarrow> string) \<Rightarrow> 'f \<Rightarrow> 'a \<Rightarrow> string list \<times> int \<times> string option" where
  "raft_DPrintf = DPrintf 0"

definition kvraft_DPrintf :: "('f \<Rightarrow> 'a \<Rightarrow> string) \<Rightarrow> 'f \<Rightarrow> 'a \<Rightarrow> string list \<times> int \<times> string option" where
  "kvraft_DPrintf = DPrintf 1"

definition kvpaxos_DPrintf :: "('f \<Rightarrow> 'a \<Rightarrow> string) \<Rightarrow> 'f \<Rightarrow> 'a \<Rightarrow> string list \<times> int \<times> string option" where
  "kvpaxos_DPrintf = DPrintf 0"

definition pshardkv_DPrintf :: "('f \<Rightarrow> 'a \<Rightarrow> string) \<Rightarrow> 'f \<Rightarrow> 'a \<Rightarrow> string list \<times> int \<times> string option" where
  "pshardkv_DPrintf = DPrintf 0"

definition diskv_DPrintf :: "('f \<Rightarrow> 'a \<Rightarrow> string) \<Rightarrow> 'f \<Rightarrow> 'a \<Rightarrow> string list \<times> int \<times> string option" where
  "diskv_DPrintf = DPrintf 0"

definition debugEnabled :: bool where "debugEnabled = False"

definition mr_debug :: "('f \<Rightarrow> 'a \<Rightarrow> string \<times> int \<times> string option) \<Rightarrow> 'f \<Rightarrow> 'a \<Rightarrow> string list \<times> int \<times> string option" where
  "mr_debug Printf format a =
     (if debugEnabled then (let (line, n, err) = Printf format a in ([line], n, err)) else ([], 0, None))"

text \<open>Only the key/value service on Raft logs; no call reports an error, whether it logs or not.\<close>

lemma debug_output:
  "fst (raft_DPrintf p f a) = []" "fst (kvpaxos_DPrintf p f a) = []" "fst (pshardkv_DPrintf p f a) = []"
  "fst (diskv_DPrintf p f a) = []" "mr_debug q f a = ([], 0, None)" "fst (kvraft_DPrintf p f a) = [p f a]"
  "snd (DPrintf d p f a) = (0, None)"
  by (simp_all add: DPrintf_def raft_DPrintf_def kvpaxos_DPrintf_def pshardkv_DPrintf_def diskv_DPrintf_def
      mr_debug_def debugEnabled_def kvraft_DPrintf_def)

end
