(* ===== verification/Spec2Isabelle.thy ===== *)
theory Spec2Isabelle
  imports NTP Programs Paxos_Clerks MapReduce ShardKV_Config Labrpc KV_System Logging
begin

text \<open>
  A verification of the Go programs of this repository: the labs of a course on distributed systems
  (\<^verbatim>\<open>src/src\<close>), of which Raft and a key/value service on it are implemented, and the simulated
  network, MapReduce, the test harnesses, and the servers and clerks of the other labs are there as far
  as they go, with two small examples of remote calls.

  \<^bold>\<open>Foundations.\<close>

  \<^item> \<open>Prelude\<close>: slices with bounds checks, maps with zero values, \<open>strconv.Itoa\<close>, majorities.
  \<^item> \<open>Retry\<close>: the loops of clerks that try again forever, with the locale \<open>retry_contract\<close> for what such a loop
    returns.
  \<^item> \<open>Labrpc\<close> (\<^verbatim>\<open>labrpc/labrpc.go\<close>): services, servers, and the delivery of one request, with the locale
    \<open>connection_table\<close> for what the testers rely on when they partition the network.

  \<^bold>\<open>Raft.\<close>

  \<^item> \<open>Persister\<close> (\<^verbatim>\<open>raft/persister.go\<close>): the stable storage of a peer and its contract, the locale
    \<open>stable_store\<close>.
  \<^item> \<open>Raft\<close> (\<^verbatim>\<open>raft/raft.go\<close>): the record \<open>Raft\<close> is the struct of the same name. One definition per critical
    section, that is, per stretch of a method or goroutine between \<open>Lock\<close> and \<open>Unlock\<close>: \<open>RequestVote\<close>,
    \<open>AppendEntries\<close>, \<open>Start\<close>, \<open>Make\<close>, \<open>become_candidate\<close> (the election loop in \<open>Make\<close>), \<open>doVote\<close> and
    \<open>count_vote\<close>, \<open>build_append\<close> and \<open>submit_reply\<close> (the sender in \<open>doSubmit\<close>), \<open>step_down\<close> and
    \<open>adjust_next\<close> (the tails of \<open>sendRequestVote\<close> and \<open>sendAppendEntries\<close>). The second tail holds no lock: it is the
    sequence \<open>next_writes\<close> of assignments. \<open>GetState\<close> and \<open>GetState2\<close> hold no lock either and get the struct at the
    moments of their reads. A panic is \<open>None\<close>.
  \<^item> \<open>Raft_Handlers\<close>: what one peer guarantees whatever the others do: one vote per term, the two outcomes
    of an append, the commit rule, the single heartbeat loop, the round trip through the persister.
  \<^item> \<open>Raft_System\<close>: a group of peers with everything that is in transit or waits for a lock, as an executable
    step function \<open>exec\<close>; a step is one critical section, one delivery or one loss. Messages may be lost,
    delayed and reordered, peers crash and restart as the tester makes them.
  \<^item> \<open>Raft_Spec\<close> and \<open>Raft_Completeness\<close>: the protocol as a relation on terms, votes, roles and logs, with
    election safety and log matching proved by rule induction over its steps on an abstract quorum system
    (locale \<open>quorum_system\<close>), and leader completeness for runs in which logs only grow.
  \<^item> \<open>Raft_Refinement\<close>, \<open>Raft_Simulation\<close> and \<open>Raft_Properties\<close>: every strict run of the system is a run of the
    specification, and an ordered one of its growing variant; the consequences for the code; and
    concrete runs in which the code goes wrong.
  \<^item> \<open>Harness\<close>, \<open>Raft_Config\<close>, \<open>Raft_Checks\<close> and \<open>Raft_Readers\<close> (\<^verbatim>\<open>raft/config.go\<close>): the test harness of Raft over
    the network, its checks (\<open>checkOneLeader\<close>, \<open>checkTerms\<close>, \<open>nCommitted\<close>, \<open>wait\<close>, \<open>one\<close>), and the readers of
    the apply channels, composed with the runs of the peers.

  \<^bold>\<open>Services on Raft.\<close>

  \<^item> \<open>KVRaft\<close> (\<^verbatim>\<open>kvraft\<close>): server and clerk. The server relies on Raft through the locale \<open>raft_service\<close>.
  \<^item> \<open>KV_System\<close>: the servers of a group on their peers, with the appliers that read the channels, as an
    executable step function over that of \<open>Raft_System\<close>; the handlers run inside such a run (\<open>serve_put\<close>, \<open>serve_get\<close>);
    each poll reads the applied index at one state and the fields of the peer at later moments, also inside a critical section
    of the peer (\<open>glimpse\<close>).
  \<^item> \<open>Shards\<close> (\<^verbatim>\<open>shardmaster\<close>, \<^verbatim>\<open>shardkv\<close> and the clerk of \<^verbatim>\<open>paxos-shardmaster\<close>): configurations, shard masters and
    the clerks that look up which group serves a key.
  \<^item> \<open>Group_Config\<close>, \<open>KV_Config\<close> and \<open>ShardKV_Config\<close> (\<^verbatim>\<open>config.go\<close> of \<^verbatim>\<open>kvraft\<close>, \<^verbatim>\<open>shardmaster\<close> and \<^verbatim>\<open>shardkv\<close>): their test
    harnesses. The first two differ in the type of the servers only, which is a parameter with the
    contract \<open>server_kind\<close>, interpreted for both.

  \<^bold>\<open>Services on sockets.\<close>

  \<^item> \<open>Sockets\<close>, with \<open>LockService\<close> (\<^verbatim>\<open>lockservice\<close>), \<open>View_PB\<close> (\<^verbatim>\<open>viewservice\<close>, \<^verbatim>\<open>pbservice\<close>) and
    \<open>Paxos_Servers\<close> (\<^verbatim>\<open>paxos\<close>, \<^verbatim>\<open>kvpaxos\<close>, \<^verbatim>\<open>paxos-shardmaster\<close>, \<^verbatim>\<open>paxos-shardkv\<close>): the servers on Unix sockets,
    their life cycle and accept loops (locales \<open>socket_server\<close> and \<open>failing_server\<close>), interpreted for each
    of them. Most of their request handlers are empty in the repository and are modelled as such.
  \<^item> \<open>Base32\<close> and \<open>DisKV\<close> (\<^verbatim>\<open>diskv/server.go\<close>): keys as file names, files per shard, atomic replacement.
  \<^item> \<open>Paxos_Clerks\<close> (\<^verbatim>\<open>client.go\<close> of \<^verbatim>\<open>paxos-shardkv\<close> and \<^verbatim>\<open>diskv\<close>): the clerks of the sharded services on sockets,
    composed with the clerk of the shard master.
  \<^item> \<open>MapReduce\<close> (\<^verbatim>\<open>mapreduce\<close>): file names, hash, master, merge, clean-up, worker.
  \<^item> \<open>Programs\<close> (\<^verbatim>\<open>main\<close>): the command lines of the servers and clients, and of the MapReduce jobs.
  \<^item> \<open>Logging\<close>: the debug helpers of \<^verbatim>\<open>raft/util.go\<close> and of the servers.
  \<^item> \<open>Arith\<close> (\<^verbatim>\<open>rpc\<close>) and \<open>NTP\<close> (\<^verbatim>\<open>newnius.com\<close>): the arithmetic service and the clock that follows a server, on
    64-bit integers.

  \<^bold>\<open>What is shown.\<close> For Raft: strict runs refine the specification, hence at most one leader per term and
  matching logs; no panic; terms that do not go back; restarts, in any run, that lose nothing; and, in strict runs in which appends between
  two peers keep their order, leader completeness, state machine safety, and that no peer ever loses from its
  log what it has committed. A run is strict when the tests the code makes without its lock (\<open>reply.Term >
  rf.currentTerm\<close> in the senders, \<open>rf.role\<close> in the heartbeat loop) still hold when the lock is taken, and when the unlocked
  assignments to \<open>nextIndex\<close> in \<open>sendAppendEntries\<close> are not interrupted. Nothing in the code enforces this: without
  the first condition two leaders in one term are reachable, without the second a slice is indexed out of range, and
  the runs are given. The claims of a leader are read between critical sections; a read of term and role at two moments can show
  two leaders of a term. Two more runs show a committed entry that is lost to a reordered append,
  and an entry that is delivered twice. For the harnesses: the network they build passes exactly the
  requests it should, partitions separate, a restart keeps term, vote and log, the checks mean what they
  report and accept what Raft does; and the sizes for which they fail. For the key/value service: the
  replayed database is the specified one, retries have no effect, acknowledgements mean what they should,
  except that an equal request of another clerk can be taken for one's own; clerks return and never reuse an
  identifier. In strict and ordered runs of the whole service, wherever the unlocked reads fall, an acknowledged write, also
  seen from a clerk, or else an equal write with another identifier, stays in every history that is replayed later. The handlers do not
  index out of range, and reads share one history, if their unlocked reads fall between critical sections and, for \<open>Get\<close>, the
  two at one moment; two runs show handlers that panic otherwise. A read at a deposed leader can miss a write that was
  acknowledged before it began, and the run is given. This theory
  adds that replicas agree. For the network: at most once execution, routing, delivery and partitions. For the
  other parts: mutual exclusion of locks, shutdown, responsibility of
  shard groups and clerks that find them, files that survive a crash, the merge and the clean-up, command
  lines that are read back, division with overflow, and the accuracy of the clock.

  \<^bold>\<open>Bounds and loops.\<close> Terms, indexes and counters are unbounded integers; the numbers whose
  width shows (\<open>rpcCount\<close>, \<open>ihash\<close>, view numbers, the arithmetic service, clocks) are words. The polling loops
  of the key/value server end by their own counters (30 and 500 polls), and so does \<open>wait\<close> of the Raft harness.
  The loops that may run forever are partial functions into \<open>option\<close>; that they return is proved under the
  condition that some server answers. The clock, random numbers and names, and the outcomes of remote
  calls are arguments.

  \<^bold>\<open>What is not modelled.\<close> Printing; the real-time behaviour of timers (a timeout may happen at any time);
  the functions \<open>mapF\<close> and \<open>reduceF\<close> of \<^verbatim>\<open>wc.go\<close> and \<^verbatim>\<open>ii.go\<close>, which have no body; TLS, the gRPC runtime and the
  generated descriptors of the clock example. Of the errors of the file system only missing and existing names
  occur: writes that fail for the length of a name, for lack of space or for permissions are outside the model, and \<^verbatim>\<open>diskv/server.go\<close>
  ignores some of them. A listen error is fatal in every server on a socket; it is modelled for \<^verbatim>\<open>diskv\<close> and the two examples only.
  An unlocked read of a slice gives its elements as they are at that moment, although the array is shared with the peer.
\<close>

subsection \<open>Replicas that agree\<close>

text \<open>
  Two servers whose logs have an entry of the same term at position \<open>c\<close> replay the prefix up to \<open>c\<close> to the
  same database, committed or not.
\<close>

lemma matching_replicas_agree:
  fixes s :: "Op sys"
  assumes "reach True n s" and "i < n" and "j < n" and "0 < c"
    and "c \<le> length (logs (node s ! i))" and "c \<le> length (logs (node s ! j))"
    and "eterm (logs (node s ! i) ! (c - 1)) = eterm (logs (node s ! j) ! (c - 1))"
  shows "replay_log (logs (node s ! i)) (int c) = replay_log (logs (node s ! j)) (int c)"
proof -
  have "take (Suc (c - 1)) (logs (node s ! i)) = take (Suc (c - 1)) (logs (node s ! j))"
    using assms by (intro logs_match [OF assms(1-3)]) auto
  then show ?thesis using assms(4-6) by (simp add: replay_log_fold)
qed

text \<open>
  C11: replicas agree. In an ordered run of a group of Raft peers that carries the operations of the
  key/value service, a server that replays its log up to \<open>c\<close>, at most its commit index, gets the database
  that every server gets, now or later, when it replays its own log up to \<open>c\<close> and \<open>c\<close> is committed there
  too; the replay does not panic. So reads at the same commit index give the same values, also across
  crashes and changes of leader.
\<close>
theorem replicas_agree:
  fixes s s' :: "Op sys"
  assumes "ordered_step\<^sup>*\<^sup>* (sys_init n) s" and "ordered_step\<^sup>*\<^sup>* s s'" and "i < n" and "j < n"
    and "int c \<le> commitIndex (node s ! i)" and "int c \<le> commitIndex (node s' ! j)"
  shows "\<exists>r. replay_log (logs (node s ! i)) (int c) = Some r \<and> replay_log (logs (node s' ! j)) (int c) = Some r"
  using committed_prefix_agree [OF assms] by (simp add: replay_log_fold)

text \<open>A put is committed by peers 0 and 1 and peer 2 is elected.\<close>

definition kv_run :: "Op label list" where
  "kv_run =
    [Timeout 0 0, Vote 0, Handle 0 0, Lose 0, Handle 0 0, Handle 0 0,
     Submit 0 put_op, Tick 0, Handle 0 0, Handle 0 0, Handle 0 0, Handle 0 0, Handle 0 0, Lose 0, Handle 0 0, Handle 0 0,
     Tick 0, Lose 1, Handle 0 0, Handle 0 0, Lose 0]"

definition kv_handover :: "Op label list" where
  "kv_handover = [Timeout 2 0, Vote 2, Lose 0, Handle 0 0, Handle 0 0, Handle 0 0]"

lemma kv_run_result:
  "(case ordered_run kv_run (sys_init 3) of
      Next s \<Rightarrow> (logs (node s ! 0) = [\<lparr>ecommand = put_op, eterm = 1\<rparr>] \<and> commitIndex (node s ! 0) = 1) \<and>
        (case ordered_run kv_handover s of Next s' \<Rightarrow> commitIndex (node s' ! 1) = 1 | _ \<Rightarrow> False)
    | _ \<Rightarrow> False)"
  unfolding kv_run_def kv_handover_def put_op_def by code_simp

theorem replicas_agree_witness:
  "\<exists>(s :: Op sys) s'. ordered_step\<^sup>*\<^sup>* (sys_init 3) s \<and> ordered_step\<^sup>*\<^sup>* s s' \<and>
     logs (node s ! 0) = [\<lparr>ecommand = put_op, eterm = 1\<rparr>] \<and>
     replay_log (logs (node s ! 0)) 1 = replay_log (logs (node s' ! 1)) 1"
proof -
  obtain s s' :: "Op sys" where s: "ordered_step\<^sup>*\<^sup>* (sys_init 3) s" "ordered_step\<^sup>*\<^sup>* s s'"
    and l: "logs (node s ! 0) = [\<lparr>ecommand = put_op, eterm = 1\<rparr>]"
    and c: "commitIndex (node s ! 0) = 1" "commitIndex (node s' ! 1) = 1"
    by (rule ordered_witness [OF kv_run_result]) simp
  have "\<exists>r. replay_log (logs (node s ! 0)) (int 1) = Some r \<and> replay_log (logs (node s' ! 1)) (int 1) = Some r"
    by (rule replicas_agree [OF s]) (use c in simp_all)
  then have "replay_log (logs (node s ! 0)) 1 = replay_log (logs (node s' ! 1)) 1" by auto
  then show ?thesis using s l by blast
qed

end
